(* ===== verification/Prelude.thy ===== *)
theory Prelude
  imports Main "HOL-Library.Word"
begin

text \<open>
  Shared vocabulary of the development: the machine integer types of the C sources,
  the error numbers the library returns, the theorem collections the component
  theories fill, and the facts on words and lists that several components need.

  A C \<open>uint8_t\<close> .. \<open>uint64_t\<close> (and \<open>size_t\<close>, which is 64 bits wide on the supported
  platforms) is a word of that width wherever its wrap-around can be observed; sizes,
  counts and array indices that only range over allocated objects are natural numbers.
\<close>

unbundle bit_operations_syntax

named_theorems bitfield_simps \<open>bits of masks and register fields\<close>
named_theorems inv_intros \<open>operations keep the invariant of their component\<close>

type_synonym u8 = "8 word"
type_synonym u16 = "16 word"
type_synonym u32 = "32 word"
type_synonym u64 = "64 word"

text \<open>Return codes are C \<open>int\<close> values: zero, a positive errno, or a negative packed
  completion status. The error numbers are those of Linux.\<close>

type_synonym rc = int

abbreviation (input) "ENOENT \<equiv> (2 :: rc)"
abbreviation (input) "EIO \<equiv> (5 :: rc)"
abbreviation (input) "EBADF \<equiv> (9 :: rc)"
abbreviation (input) "EAGAIN \<equiv> (11 :: rc)"
abbreviation (input) "ENOMEM \<equiv> (12 :: rc)"
abbreviation (input) "EFAULT \<equiv> (14 :: rc)"
abbreviation (input) "EBUSY \<equiv> (16 :: rc)"
abbreviation (input) "EINVAL \<equiv> (22 :: rc)"
abbreviation (input) "ENOTTY \<equiv> (25 :: rc)"
abbreviation (input) "ENOSPC \<equiv> (28 :: rc)"
abbreviation (input) "ERANGE \<equiv> (34 :: rc)"
abbreviation (input) "ETIME \<equiv> (62 :: rc)"
abbreviation (input) "ENOTSUP \<equiv> (95 :: rc)"

subsection \<open>Words read as natural numbers\<close>

lemma unat_add_no_wrap:
  fixes a b :: "'a::len word"
  assumes "unat a + unat b < 2 ^ LENGTH('a)"
  shows "unat (a + b) = unat a + unat b"
  using assms by (simp add: unat_word_ariths)

lemma unat_sub_le:
  fixes a b :: "'a::len word"
  assumes "b \<le> a"
  shows "unat (a - b) = unat a - unat b"
  using assms by (simp add: unat_sub)

lemma unat_minus_1:
  fixes a :: "'a::len word"
  assumes "0 < unat a"
  shows "unat (a - 1) = unat a - 1"
  using assms by (intro unat_minus_one) auto

lemma unat_plus_1:
  fixes a :: "'a::len word"
  assumes "a < b"
  shows "unat (a + 1) = unat a + 1"
proof -
  have "unat a + 1 \<le> unat b"
    using assms by (simp add: word_less_nat_alt)
  also have "unat b < 2 ^ LENGTH('a)"
    by (rule unsigned_less)
  finally show ?thesis
    by (subst unat_add_no_wrap) simp_all
qed

lemma unat_sub_mod:
  fixes a b :: "'a::len word"
  shows "unat (a - b) = (unat a + 2 ^ LENGTH('a) - unat b) mod 2 ^ LENGTH('a)"
proof (cases "unat b \<le> unat a")
  case True
  then have "unat a + 2 ^ LENGTH('a) - unat b = (unat a - unat b) + 2 ^ LENGTH('a)"
    by simp
  moreover have "unat a - unat b < 2 ^ LENGTH('a)"
    by (rule less_imp_diff_less) (rule unsigned_less)
  ultimately have "(unat a + 2 ^ LENGTH('a) - unat b) mod 2 ^ LENGTH('a) = unat a - unat b"
    by (simp only: mod_add_self2 mod_less)
  then show ?thesis
    using True by (simp add: unat_sub_if')
next
  case False
  then have "unat a + 2 ^ LENGTH('a) - unat b < 2 ^ LENGTH('a)"
    using zero_less_power[of "2::nat" "LENGTH('a)"] by linarith
  then show ?thesis
    using False by (simp add: unat_sub_if')
qed

lemma mask_diff_eq:
  fixes lo hi :: nat
  assumes "lo \<le> hi"
  shows "(mask hi :: 'a::len word) - mask lo = push_bit lo (mask (hi - lo))"
proof -
  have "push_bit lo (mask (hi - lo)) + mask lo = (mask hi :: 'a word)"
    using assms
    by (simp add: push_bit_mask_eq mask_eq_exp_minus_1 push_bit_eq_mult algebra_simps flip: power_add)
  then show ?thesis
    by (simp add: algebra_simps)
qed

lemma bit_mask_diff:
  fixes lo hi n :: nat
  assumes "lo \<le> hi"
  shows "bit ((mask hi :: 'a::len word) - mask lo) n \<longleftrightarrow> lo \<le> n \<and> n < hi \<and> n < LENGTH('a)"
  using assms by (auto simp add: mask_diff_eq bit_simps)

lemma take_bit_unat_self:
  fixes v :: "'a::len word"
  shows "take_bit LENGTH('a) (unat v) = unat v"
  by (rule take_bit_nat_eq_self) (rule unsigned_less)

lemma take_bit_drop_bit_unat:
  fixes v :: "'a::len word"
  shows "unat (take_bit n (drop_bit m v)) = (unat v div 2 ^ m) mod 2 ^ n"
  by (simp add: unsigned_take_bit_eq unsigned_drop_bit_eq take_bit_unat_self flip: take_bit_eq_mod drop_bit_eq_div)


lemma unat_drop_bit:
  fixes v :: "'a::len word"
  shows "unat (drop_bit m v) = unat v div 2 ^ m"
  by (simp add: unsigned_drop_bit_eq take_bit_unat_self flip: drop_bit_eq_div)

lemma unat_take_bit:
  fixes v :: "'a::len word"
  shows "unat (take_bit m v) = unat v mod 2 ^ m"
  by (simp add: unsigned_take_bit_eq flip: take_bit_eq_mod)

lemma unat_power2:
  assumes "k < LENGTH('a)"
  shows "unat (2 ^ k :: 'a::len word) = 2 ^ k"
proof -
  have "unat (of_nat (2 ^ k) :: 'a word) = 2 ^ k"
    using assms by (subst unat_of_nat) (simp add: take_bit_eq_mod)
  then show ?thesis by simp
qed

lemma unat_ucast_mod:
  fixes w :: "'a::len word"
  shows "unat (ucast w :: 'b::len word) = unat w mod 2 ^ LENGTH('b)"
  by (simp only: unsigned_ucast_eq take_bit_eq_mod)

lemma unat_slot: "c < 2 ^ 32 \<Longrightarrow> unat (of_nat c :: u32) = c"
  by (simp add: unat_of_nat take_bit_eq_mod)

text \<open>\<open>w AND (w - 1)\<close> clears the lowest bit that is set.\<close>

lemma lowest_bit:
  fixes w :: "'a::len word"
  assumes "w \<noteq> 0"
  shows "\<exists>k < LENGTH('a). bit w k \<and> (\<forall>j < k. \<not> bit w j)"
proof -
  have "\<exists>i. bit w i"
    using assms by (metis bit_0_eq bit_word_eqI bot_apply bot_bool_def)
  then have "bit w (LEAST i. bit w i)"
    by (rule LeastI_ex)
  then show ?thesis
    using bit_imp_le_length by (intro exI[of _ "LEAST i. bit w i"] conjI allI impI not_less_Least) simp_all
qed

lemma bit_clear_lowest:
  fixes w :: "'a::len word"
  assumes "bit w k" "\<And>j. j < k \<Longrightarrow> \<not> bit w j"
  shows "bit (w AND (w - 1)) i \<longleftrightarrow> bit w i \<and> i \<noteq> k"
proof -
  define u where "u = w AND NOT (mask (Suc k))"
  have u: "bit u i \<longleftrightarrow> bit w i \<and> k < i" for i
    using bit_imp_le_length[of w i] by (auto simp: u_def bit_simps)
  have low: "k \<le> i" if "bit w i" for i
    using assms(2)[of i] that by (cases "k \<le> i") simp_all
  have "w = u OR 2 ^ k"
  proof (rule bit_word_eqI)
    show "bit w i = bit (u OR 2 ^ k) i" if "i < LENGTH('a)" for i
      using assms(1) u[of i] low[of i] that by (cases "i = k") (auto simp: bit_simps)
  qed
  also have "\<dots> = u + 2 ^ k"
    by (rule disjunctive_add[symmetric]) (auto simp: u bit_simps)
  finally have "w - 1 = u + mask k"
    by (simp add: mask_eq_exp_minus_1)
  also have "\<dots> = u OR mask k"
    by (rule disjunctive_add) (auto simp: u bit_simps)
  finally have w1: "w - 1 = u OR mask k" .
  show ?thesis
    unfolding bit_and_iff w1 bit_or_iff bit_mask_iff u using low[of i] assms(2)[of i] by (cases "i < k") auto
qed

lemma power_of_two_test:
  fixes w :: "'a::len word"
  assumes "w \<noteq> 0" "w AND (w - 1) = 0"
  shows "\<exists>k < LENGTH('a). w = 2 ^ k"
proof -
  obtain k where k: "bit w k" "\<And>j. j < k \<Longrightarrow> \<not> bit w j" "k < LENGTH('a)"
    using lowest_bit[OF assms(1)] by auto
  have "bit w i \<longleftrightarrow> i = k" for i
    using bit_clear_lowest[OF k(1,2), of i] assms(2) k(1) by auto
  then have "w = 2 ^ k"
    using k(3) by (intro bit_word_eqI) (auto simp: bit_simps)
  then show ?thesis
    using k(3) by blast
qed

subsection \<open>Lists\<close>

lemma fun_upd_class: "P x = P (f c) \<Longrightarrow> P ((f(c := x)) c') = P (f c')"
  by simp

lemma take_1_eq: "1 \<le> length xs \<Longrightarrow> take 1 xs = [xs ! 0]"
  by (cases xs) auto

lemma take_2_eq: "2 \<le> length xs \<Longrightarrow> take 2 xs = [xs ! 0, xs ! 1]"
  by (cases xs; cases "tl xs") auto

lemma tl_map_upt: "tl (map f [0..<n]) = map (\<lambda>i. f (Suc i)) [0..<n - 1]"
  by (rule nth_equalityI) (simp_all add: nth_tl)

lemma map_upt_Suc_conv: "map f [0..<Suc n] = f 0 # map (\<lambda>i. f (Suc i)) [0..<n]"
  by (rule nth_equalityI) (auto simp: nth_Cons' nth_append simp del: upt_Suc)

subsection \<open>Rings\<close>

text \<open>Positions in a ring of \<open>n\<close> slots: the distance from a head \<open>h\<close> to a tail \<open>t\<close>.\<close>

definition ring_count :: "nat \<Rightarrow> nat \<Rightarrow> nat \<Rightarrow> nat" where
  "ring_count n h t = (t + n - h) mod n"

lemma ring_count_cases:
  assumes "h < n" "t < n"
  shows "ring_count n h t = (if h \<le> t then t - h else t + n - h)"
proof (cases "h \<le> t")
  case True
  then have eq: "t + n - h = (t - h) + n" by simp
  show ?thesis
    using assms True unfolding ring_count_def eq by (simp only: mod_add_self2) simp
qed (use assms in \<open>simp add: ring_count_def\<close>)

lemma ring_count_less: "0 < n \<Longrightarrow> ring_count n h t < n"
  by (simp add: ring_count_def)

lemma ring_succ:
  fixes h n :: nat
  assumes "h < n"
  shows "(h + 1) mod n = (if h + 1 = n then 0 else h + 1)"
  using assms by auto

lemma ring_count_enq:
  assumes "h < n" "t < n" "ring_count n h t \<noteq> n - 1"
  shows "ring_count n h ((t + 1) mod n) = Suc (ring_count n h t)"
proof (cases "t + 1 = n")
  case True
  then show ?thesis
    using assms by (auto simp: ring_count_cases split: if_splits)
next
  case False
  then have "(t + 1) mod n = t + 1" using assms by simp
  then show ?thesis
    using assms False by (simp only: ring_count_cases) (auto simp: ring_count_cases)
qed

lemma ring_count_deq:
  assumes "h < n" "t < n" "ring_count n h t \<noteq> 0"
  shows "ring_count n ((h + 1) mod n) t = ring_count n h t - 1"
proof (cases "h + 1 = n")
  case True
  then show ?thesis
    using assms by (auto simp: ring_count_cases split: if_splits)
next
  case False
  then have "(h + 1) mod n = h + 1" using assms by simp
  then show ?thesis
    using assms False by (auto simp: ring_count_cases split: if_splits)
qed

lemma ring_tail_slot:
  assumes "h < n" "t < n"
  shows "(h + ring_count n h t) mod n = t"
  using assms by (auto simp: ring_count_cases)

lemma ring_slots_distinct:
  assumes "k \<le> n"
  shows "distinct (map (\<lambda>i. (h + i) mod n) [0..<k])"
proof -
  have *: "i = j" if "(h + i) mod n = (h + j) mod n" "i < n" "j < n" "i \<le> j" for i j :: nat
  proof -
    have "n dvd (h + j) - (h + i)"
      using that(1,4) by (subst mod_eq_dvd_iff_nat[symmetric]) simp_all
    moreover have "j - i < n"
      using that(3) by simp
    ultimately have "j - i = 0"
      using nat_dvd_not_less[of "j - i" n] by auto
    then show ?thesis using that(4) by simp
  qed
  have "inj_on (\<lambda>i. (h + i) mod n) {0..<k}"
  proof (rule inj_onI)
    fix x y
    assume "x \<in> {0..<k}" "y \<in> {0..<k}" "(h + x) mod n = (h + y) mod n"
    then show "x = y"
      using assms *[of x y] *[of y x] by (cases "x \<le> y") simp_all
  qed
  then show ?thesis
    by (simp add: distinct_map)
qed

end
