(* ===== verification/NvmUtil.thy ===== *)
theory NvmUtil
  imports Prelude
begin

text \<open>
  The arithmetic the whole library is built on: the bit-field and page macros of
  \<open>include/nvm_util.h\<close>, the helpers of \<open>src/lib_util.h\<close>, and the controller register
  map and doorbell addresses of \<open>src/regs.h\<close>.

  The macros are evaluated at 64 bits, the type their \<open>1ULL\<close> masks force on them.
  Little-endian byte addressing of a command or completion entry (the \<open>_REG\<close> macro on
  an array of doublewords) is written out in \<open>REG16\<close> and \<open>REG32\<close>.
\<close>

subsection \<open>Definitions\<close>

definition NVM_MASK :: "nat \<Rightarrow> u64" where
  "NVM_MASK num_bits = push_bit num_bits 1 - 1"

definition NVM_MASK_PART :: "nat \<Rightarrow> nat \<Rightarrow> u64" where
  "NVM_MASK_PART hi lo = NVM_MASK (hi + 1) - NVM_MASK lo"

definition RB :: "u64 \<Rightarrow> nat \<Rightarrow> nat \<Rightarrow> u64" where
  "RB v hi lo = drop_bit lo (v AND NVM_MASK_PART hi lo)"

definition WB :: "u64 \<Rightarrow> nat \<Rightarrow> nat \<Rightarrow> u64" where
  "WB v hi lo = push_bit lo v AND NVM_MASK_PART hi lo"

definition NVM_PAGE_TO_BLOCK :: "u64 \<Rightarrow> u64 \<Rightarrow> u64 \<Rightarrow> u64" where
  "NVM_PAGE_TO_BLOCK page_size block_size pageno = (page_size * pageno) div block_size"

definition NVM_BLOCK_TO_PAGE :: "u64 \<Rightarrow> u64 \<Rightarrow> u64 \<Rightarrow> u64" where
  "NVM_BLOCK_TO_PAGE page_size block_size blockno = (block_size * blockno) div page_size"

definition NVM_PAGE_MASK :: "u64 \<Rightarrow> u64" where
  "NVM_PAGE_MASK page_size = NOT (page_size - 1)"

definition NVM_ADDR_MASK :: "u64 \<Rightarrow> u64 \<Rightarrow> u64" where
  "NVM_ADDR_MASK addr page_size = addr AND NVM_PAGE_MASK page_size"

definition NVM_PAGE_ALIGN :: "u64 \<Rightarrow> u64 \<Rightarrow> u64" where
  "NVM_PAGE_ALIGN sz page_size = (sz + page_size - 1) AND NVM_PAGE_MASK page_size"

function b2log_loop :: "u32 \<Rightarrow> u32 \<Rightarrow> u32" where
  "b2log_loop n count = (if n > 0 then b2log_loop (drop_bit 1 n) (count + 1) else count)"
  by pat_completeness auto

termination
proof (relation "measure (\<lambda>(n, _). unat n)")
  fix n count :: u32
  assume "n > 0"
  then have "unat n > 0"
    by (simp add: word_less_nat_alt)
  then show "((drop_bit 1 n, count + 1), (n, count)) \<in> measure (\<lambda>(n, _). unat n)"
    using unat_drop_bit[of 1 n] by simp
qed simp

declare b2log_loop.simps [simp del]

definition nvm_b2log :: "u32 \<Rightarrow> u32" where
  "nvm_b2log n = b2log_loop n 0 - 1"

definition nvm_delay_remain :: "u64 \<Rightarrow> u64" where
  "nvm_delay_remain remaining =
     (if remaining = 0 then 0 else remaining - min 1000000 remaining)"

definition NVM_SQ_PAGES :: "u64 \<Rightarrow> u32 \<Rightarrow> u64" where
  "NVM_SQ_PAGES page_size qs = (ucast (ucast (qs - 1) :: u16) * 64) div page_size + 1"

definition NVM_CQ_PAGES :: "u64 \<Rightarrow> u32 \<Rightarrow> u64" where
  "NVM_CQ_PAGES page_size qs = (ucast (ucast (qs - 1) :: u16) * 16) div page_size + 1"

text \<open>The memory-mapped registers of the controller, one field per register.\<close>

record nvm_regs =
  CAP :: u64
  VER :: u32
  CC :: u32
  CSTS :: u32
  AQA :: u32
  ASQ :: u64
  ACQ :: u64

definition CAP_MPSMAX :: "nvm_regs \<Rightarrow> u64" where "CAP_MPSMAX p = RB (CAP p) 55 52"
definition CAP_MPSMIN :: "nvm_regs \<Rightarrow> u64" where "CAP_MPSMIN p = RB (CAP p) 51 48"
definition CAP_DSTRD :: "nvm_regs \<Rightarrow> u64" where "CAP_DSTRD p = RB (CAP p) 35 32"
definition CAP_TO :: "nvm_regs \<Rightarrow> u64" where "CAP_TO p = RB (CAP p) 31 24"
definition CAP_CQR :: "nvm_regs \<Rightarrow> u64" where "CAP_CQR p = RB (CAP p) 16 16"
definition CAP_MQES :: "nvm_regs \<Rightarrow> u64" where "CAP_MQES p = RB (CAP p) 15 0"
definition CSTS_RDY :: "nvm_regs \<Rightarrow> u64" where "CSTS_RDY p = RB (ucast (CSTS p)) 0 0"

definition CC_IOCQES :: "u64 \<Rightarrow> u64" where "CC_IOCQES v = WB v 23 20"
definition CC_IOSQES :: "u64 \<Rightarrow> u64" where "CC_IOSQES v = WB v 19 16"
definition CC_MPS :: "u64 \<Rightarrow> u64" where "CC_MPS v = WB v 10 7"
definition CC_CSS :: "u64 \<Rightarrow> u64" where "CC_CSS v = WB 0 3 1"
definition CC_EN :: "u64 \<Rightarrow> u64" where "CC_EN v = WB v 0 0"
definition AQA_ACQS :: "u64 \<Rightarrow> u64" where "AQA_ACQS v = WB v 27 16"
definition AQA_ASQS :: "u64 \<Rightarrow> u64" where "AQA_ASQS v = WB v 11 0"

text \<open>The controller handle of \<open>include/nvm_types.h\<close>; pointers are byte addresses.\<close>

record nvm_ctrl_t =
  ctrl_page_size :: u64
  ctrl_dstrd :: u8
  ctrl_timeout :: u64
  ctrl_max_qs :: u32
  ctrl_mm_size :: u64
  ctrl_mm_ptr :: nat

definition NVM_CTRL_ALIGN :: "nvm_ctrl_t \<Rightarrow> u64 \<Rightarrow> u64" where
  "NVM_CTRL_ALIGN ctrl sz = NVM_PAGE_ALIGN sz (ctrl_page_size ctrl)"

definition NVM_CTRL_PAGES :: "nvm_ctrl_t \<Rightarrow> u64 \<Rightarrow> u64" where
  "NVM_CTRL_PAGES ctrl sz = NVM_CTRL_ALIGN ctrl sz div ctrl_page_size ctrl"

text \<open>Byte addresses of the doorbell registers of queue \<open>y\<close>.\<close>

definition SQ_DBL :: "nat \<Rightarrow> nat \<Rightarrow> nat \<Rightarrow> nat" where
  "SQ_DBL p y dstrd = p + 0x1000 + (2 * y) * (4 * 2 ^ dstrd)"

definition CQ_DBL :: "nat \<Rightarrow> nat \<Rightarrow> nat \<Rightarrow> nat" where
  "CQ_DBL p y dstrd = p + 0x1000 + (2 * y + 1) * (4 * 2 ^ dstrd)"

text \<open>Register access to an array of doublewords at a byte offset.\<close>

definition dword_byte :: "u32 list \<Rightarrow> nat \<Rightarrow> u8" where
  "dword_byte ds k = ucast (drop_bit (8 * (k mod 4)) (ds ! (k div 4)))"

definition REG16 :: "u32 list \<Rightarrow> nat \<Rightarrow> u16" where
  "REG16 ds offs = ucast (dword_byte ds offs) OR push_bit 8 (ucast (dword_byte ds (offs + 1)))"

definition REG32 :: "u32 list \<Rightarrow> nat \<Rightarrow> u32" where
  "REG32 ds offs = ucast (REG16 ds offs) OR push_bit 16 (ucast (REG16 ds (offs + 2)))"

definition NVM_CMD_CID :: "u32 list \<Rightarrow> u16" where "NVM_CMD_CID p = REG16 p 2"
definition NVM_CMD_NSID :: "u32 list \<Rightarrow> u32" where "NVM_CMD_NSID p = REG32 p 1"
definition NVM_CPL_CID :: "u32 list \<Rightarrow> u16" where "NVM_CPL_CID p = REG16 p 12"
definition NVM_CPL_SQHD :: "u32 list \<Rightarrow> u16" where "NVM_CPL_SQHD p = REG16 p 8"
definition NVM_CPL_SQID :: "u32 list \<Rightarrow> u16" where "NVM_CPL_SQID p = REG16 p 10"
definition NVM_CPL_SF :: "u32 list \<Rightarrow> u16" where "NVM_CPL_SF p = REG16 p 14"
definition NVM_CPL_STATUS :: "u32 list \<Rightarrow> u16" where "NVM_CPL_STATUS p = NVM_CPL_SF p"

text \<open>The macro writes one 16-bit half; only the two halves of a doubleword are addressed.\<close>

definition NVM_CMD_CID_write :: "u32 list \<Rightarrow> u16 \<Rightarrow> u32 list" where
  "NVM_CMD_CID_write p v = p[0 := (p ! 0 AND 0xffff) OR push_bit 16 (ucast v)]"

subsection \<open>Facts\<close>

lemma NVM_MASK_eq_mask [bitfield_simps]: "NVM_MASK n = mask n"
  by (simp add: NVM_MASK_def mask_eq_exp_minus_1 push_bit_eq_mult)

lemma bit_NVM_MASK_PART [bitfield_simps]:
  "lo \<le> hi + 1 \<Longrightarrow> bit (NVM_MASK_PART hi lo) n \<longleftrightarrow> lo \<le> n \<and> n \<le> hi \<and> n < 64"
  by (auto simp: NVM_MASK_PART_def NVM_MASK_eq_mask bit_mask_diff)

lemma RB_eq: "lo \<le> hi \<Longrightarrow> hi < 64 \<Longrightarrow> RB v hi lo = take_bit (hi + 1 - lo) (drop_bit lo v)"
  by (rule bit_word_eqI) (auto simp: RB_def bit_simps bitfield_simps)

lemma unat_RB: "lo \<le> hi \<Longrightarrow> hi < 64 \<Longrightarrow> unat (RB v hi lo) = (unat v div 2 ^ lo) mod 2 ^ (hi + 1 - lo)"
  by (simp add: RB_eq take_bit_drop_bit_unat del: One_nat_def)

lemma RB_WB:
  assumes "lo \<le> hi" "hi < 64" 
  shows "RB (WB v hi lo) hi lo = take_bit (hi + 1 - lo) v"
  using assms by (intro bit_word_eqI) (auto simp: RB_def WB_def bit_simps bitfield_simps)

lemma RB_WB_disjoint:
  assumes "lo \<le> hi" "hi < 64"  "lo' \<le> hi'" "hi' < 64" "hi < lo' \<or> hi' < lo"
  shows "RB (WB v hi lo OR w) hi' lo' = RB w hi' lo'"
  using assms by (intro bit_word_eqI) (auto simp: RB_def WB_def bit_simps bitfield_simps)

lemma RB_WB_same:
  assumes "lo \<le> hi" "hi < 64"   "RB w hi lo = 0"
  shows "RB (WB v hi lo OR w) hi lo = take_bit (hi + 1 - lo) v"
proof -
  have "RB (WB v hi lo OR w) hi lo = RB (WB v hi lo) hi lo OR RB w hi lo"
    by (rule bit_word_eqI) (auto simp: RB_def bit_simps)
  then show ?thesis using assms by (simp add: RB_WB)
qed

lemma PAGE_MASK_power:
  assumes "k < 64"
  shows "(x::u64) AND NVM_PAGE_MASK (2 ^ k) = push_bit k (drop_bit k x)"
  using assms by (intro bit_word_eqI) (auto simp: NVM_PAGE_MASK_def bit_simps bit_not_iff simp flip: mask_eq_exp_minus_1)

lemma unat_PAGE_MASK_power:
  assumes "k < 64"
  shows "unat ((x::u64) AND NVM_PAGE_MASK (2 ^ k)) = unat x div 2 ^ k * 2 ^ k"
proof -
  have "unat x div 2 ^ k * 2 ^ k < 2 ^ 64"
    using div_times_less_eq_dividend[of "unat x" "2 ^ k"] unsigned_less[of x, where 'a = nat]
    by (simp add: le_less_trans del: div_times_less_eq_dividend)
  then show ?thesis using assms
    by (simp add: PAGE_MASK_power unsigned_push_bit_eq unat_drop_bit push_bit_eq_mult[where 'a = nat]
        take_bit_eq_mod[where 'a = nat])
qed

lemma NVM_PAGE_ALIGN_unat:
  assumes "k < 64" "unat sz + 2 ^ k \<le> 2 ^ 64"
  shows "unat (NVM_PAGE_ALIGN sz (2 ^ k)) = ((unat sz + 2 ^ k - 1) div 2 ^ k) * 2 ^ k"
proof -
  have k: "unat (2 ^ k :: u64) = 2 ^ k"
    using assms(1) by (simp add: unat_power2)
  have "unat (sz + (2 ^ k - 1)) = unat sz + (2 ^ k - 1)"
  proof -
    have "(1::u64) \<le> 2 ^ k"
      using k by (simp add: word_le_nat_alt)
    then have *: "unat ((2 ^ k :: u64) - 1) = 2 ^ k - 1"
      by (simp add: unat_sub_le k)
    show ?thesis
      using assms(2) by (subst unat_add_no_wrap) (simp_all add: *)
  qed
  then have "unat (sz + 2 ^ k - 1) = unat sz + 2 ^ k - 1"
    by (simp add: add_diff_eq)
  then show ?thesis
    using assms(1) by (simp only: NVM_PAGE_ALIGN_def unat_PAGE_MASK_power)
qed

lemma b2log_loop_spec:
  "n > 0 \<Longrightarrow> \<exists>k. 2 ^ k \<le> unat n \<and> unat n < 2 ^ Suc k \<and> b2log_loop n c = c + of_nat (Suc k)"
proof (induction n c rule: b2log_loop.induct)
  case (1 n c)
  show ?case
  proof (cases "drop_bit 1 n > 0")
    case True
    then obtain k where k: "2 ^ k \<le> unat (drop_bit 1 n)" "unat (drop_bit 1 n) < 2 ^ Suc k"
      "b2log_loop (drop_bit 1 n) (c + 1) = c + 1 + of_nat (Suc k)"
      using 1 by blast
    then have "2 ^ Suc k \<le> unat n" "unat n < 2 ^ Suc (Suc k)"
      using unat_drop_bit[of 1 n] by auto
    moreover have "b2log_loop n c = c + of_nat (Suc (Suc k))"
      using k(3) 1(2) by (subst b2log_loop.simps) (simp add: algebra_simps)
    ultimately show ?thesis by blast
  next
    case False
    then have "unat n div 2 = 0"
      using unat_drop_bit[of 1 n] by (simp add: word_less_nat_alt)
    moreover have "0 < unat n"
      using 1(2) by (simp add: word_less_nat_alt)
    ultimately have "unat n = 1" by simp
    moreover have "b2log_loop n c = c + 1"
      using False 1(2) by (subst b2log_loop.simps, subst b2log_loop.simps) simp
    ultimately show ?thesis by (intro exI[of _ 0]) simp
  qed
qed

lemma nvm_b2log_spec:
  assumes "n > 0"
  shows "2 ^ unat (nvm_b2log n) \<le> unat n \<and> unat n < 2 ^ Suc (unat (nvm_b2log n))"
proof -
  obtain k where k: "2 ^ k \<le> unat n" "unat n < 2 ^ Suc k" "b2log_loop n 0 = 0 + of_nat (Suc k)"
    using b2log_loop_spec[OF assms] by blast
  have "(2::nat) ^ k < 2 ^ 32"
    using k(1) unsigned_less[of n, where 'a = nat] by simp
  then have "k < 32"
    by (rule power_less_imp_less_exp[rotated]) simp
  then have "unat (nvm_b2log n) = k"
    using k(3) by (simp add: nvm_b2log_def unat_of_nat take_bit_eq_mod)
  then show ?thesis using k by simp
qed

lemma nvm_b2log_zero: "nvm_b2log 0 = - 1"
  by (simp add: nvm_b2log_def b2log_loop.simps)

lemma nvm_delay_remain_le:
  "unat (nvm_delay_remain r) = unat r - 1000000"
  by (auto simp: nvm_delay_remain_def min_def word_le_nat_alt unat_sub_le)

lemma nvm_delay_remain_iter:
  "unat ((nvm_delay_remain ^^ k) r) = unat r - k * 1000000"
  by (induction k) (simp_all add: nvm_delay_remain_le)

lemma ceil_pages_bound:
  fixes n e P :: nat
  assumes "0 < P" "0 < n"  "e dvd P" "0 < e"
  shows "n * e \<le> ((n - 1) * e div P + 1) * P"
proof -
  obtain m where m: "P = m * e" using assms(3) by (metis dvd_div_mult_self)
  then have mp: "m > 0" using assms by simp
  have "(n - 1) * e div P = (n - 1) div m"
    using assms(4) by (simp add: m)
  moreover have "n \<le> ((n - 1) div m + 1) * m"
    using dividend_less_div_times[OF mp, of "n - 1"] assms(2) by simp
  ultimately show ?thesis
    by (simp add: m) (metis add_mult_distrib mult.assoc mult_le_mono1)
qed

lemma queue_pages_unat:
  fixes e P :: u64 and qs :: u32
  assumes "1 \<le> unat qs" "unat qs \<le> 65536" "P \<noteq> 0" "unat e \<le> 64"
  shows "unat (ucast (ucast (qs - 1) :: u16) * e div P + 1) = (unat qs - 1) * unat e div unat P + 1"
proof -
  have "(1 :: u32) \<le> qs"
    using assms(1) by (simp add: word_le_nat_alt)
  then have q: "unat (ucast (ucast (qs - 1) :: u16) :: u64) = unat qs - 1"
    using assms(1,2) by (simp add: unat_ucast_mod unat_sub_le)
  have small: "(unat qs - 1) * unat e \<le> 65535 * 64"
    using assms(2,4) by (intro mult_le_mono) auto
  then have m: "unat (ucast (ucast (qs - 1) :: u16) * e :: u64) = (unat qs - 1) * unat e"
    by (simp add: unat_word_ariths q)
  have d: "unat (ucast (ucast (qs - 1) :: u16) * e div P :: u64) = (unat qs - 1) * unat e div unat P"
    by (simp only: unat_div_distrib m)
  have "(unat qs - 1) * unat e div unat P \<le> 65535 * 64"
    using small div_le_dividend le_trans by blast
  then show ?thesis
    by (subst unat_add_no_wrap) (simp_all add: d)
qed

lemma NVM_SQ_PAGES_unat:
  assumes "1 \<le> unat qs" "unat qs \<le> 65536" "page_size \<noteq> 0"
  shows "unat (NVM_SQ_PAGES page_size qs) = (unat qs - 1) * 64 div unat page_size + 1"
  using queue_pages_unat[OF assms, of 64] by (simp add: NVM_SQ_PAGES_def)

lemma REG16_low:
  "offs mod 4 = 0 \<Longrightarrow> REG16 ds offs = ucast (ds ! (offs div 4))"
proof -
  assume a: "offs mod 4 = 0"
  then obtain k where k: "offs = 4 * k" by (auto simp: mod_eq_0_iff_dvd)
  have "(4 * k + 1) div 4 = k" "(4 * k + 1) mod 4 = 1"
    by simp_all
  then show ?thesis
    by (intro bit_word_eqI) (auto simp: REG16_def dword_byte_def k bit_simps)
qed

lemma REG16_high:
  "offs mod 4 = 2 \<Longrightarrow> REG16 ds offs = ucast (drop_bit 16 (ds ! (offs div 4)))"
proof -
  assume a: "offs mod 4 = 2"
  define k where "k = offs div 4"
  have k: "offs = 4 * k + 2" using a by (simp add: k_def) presburger
  have "(4 * k + 3) div 4 = k" "(4 * k + 3) mod 4 = 3" "(4 * k + 2) div 4 = k" "(4 * k + 2) mod 4 = 2"
    by simp_all presburger+
  then show ?thesis
    by (intro bit_word_eqI) (auto simp: REG16_def dword_byte_def k bit_simps)
qed

lemma NVM_CPL_fields [bitfield_simps]:
  "NVM_CPL_CID p = ucast (p ! 3)"
  "NVM_CPL_SQHD p = ucast (p ! 2)"
  "NVM_CPL_SQID p = ucast (drop_bit 16 (p ! 2))"
  "NVM_CPL_STATUS p = ucast (drop_bit 16 (p ! 3))"
  "NVM_CMD_CID p = ucast (drop_bit 16 (p ! 0))"
  by (simp_all add: NVM_CPL_CID_def NVM_CPL_SQHD_def NVM_CPL_SQID_def NVM_CPL_STATUS_def NVM_CPL_SF_def
      NVM_CMD_CID_def REG16_low REG16_high)

lemma NVM_CMD_CID_write_read:
  "p \<noteq> [] \<Longrightarrow> NVM_CMD_CID (NVM_CMD_CID_write p v) = v"
  by (intro bit_word_eqI) (auto simp: NVM_CMD_CID_write_def bitfield_simps bit_simps)

lemma doorbell_slots:
  "SQ_DBL p y d \<noteq> CQ_DBL p y' d"
  "SQ_DBL p y d = SQ_DBL p y' d \<longleftrightarrow> y = y'"
  "CQ_DBL p y d = CQ_DBL p y' d \<longleftrightarrow> y = y'"
proof -
  have "2 * y \<noteq> 2 * y' + 1" by presburger
  then show "SQ_DBL p y d \<noteq> CQ_DBL p y' d"
    by (simp only: SQ_DBL_def CQ_DBL_def add_left_cancel mult_cancel2) simp
qed (simp_all add: SQ_DBL_def CQ_DBL_def)

end
