(* ===== verification/NvmCmd.thy ===== *)
theory NvmCmd
  imports NvmUtil
begin

text \<open>
  Commands and physical region page (PRP) lists of \<open>include/nvm_cmd.h\<close>, on the data
  types of \<open>include/nvm_types.h\<close>.

  A command is its array of sixteen doublewords. PRP list pages are written through
  their virtual address into a memory of 64-bit entries, indexed by byte address; the
  device reads them back through the bus address the list descriptor carries, so the
  translation of bus addresses to memory is a parameter of the reader \<open>prp_walk\<close>.
\<close>

subsection \<open>Commands\<close>

type_synonym nvm_cmd_t = "u32 list"
type_synonym nvm_cpl_t = "u32 list"

record nvm_dsm_range_t =
  slba :: u64
  nlb :: u32
  dsm_attr :: u32

definition NVM_CMD_NS_ALL :: u32 where
  "NVM_CMD_NS_ALL = 0xffffffff"

definition NVM_CMD_OPCODE :: "u64 \<Rightarrow> u64 \<Rightarrow> u64 \<Rightarrow> u8" where
  "NVM_CMD_OPCODE gen func data = ucast (WB gen 7 7 OR WB func 6 2 OR WB data 1 0)"

datatype nvm_io_command_set =
  NVM_IO_FLUSH | NVM_IO_WRITE | NVM_IO_READ | NVM_IO_WRITE_ZEROES | NVM_IO_DATASET_MGMT

primrec io_opcode :: "nvm_io_command_set \<Rightarrow> u8" where
  "io_opcode NVM_IO_FLUSH = NVM_CMD_OPCODE 0 0 0"
| "io_opcode NVM_IO_WRITE = NVM_CMD_OPCODE 0 0 1"
| "io_opcode NVM_IO_READ = NVM_CMD_OPCODE 0 0 2"
| "io_opcode NVM_IO_WRITE_ZEROES = NVM_CMD_OPCODE 0 2 0"
| "io_opcode NVM_IO_DATASET_MGMT = NVM_CMD_OPCODE 0 2 1"

definition NVM_DSM_ATTR_DEALLOCATE :: u32 where
  "NVM_DSM_ATTR_DEALLOCATE = 1"

datatype nvm_admin_command_set =
  NVM_ADMIN_DELETE_SQ | NVM_ADMIN_CREATE_SQ | NVM_ADMIN_GET_LOG_PAGE | NVM_ADMIN_DELETE_CQ
| NVM_ADMIN_CREATE_CQ | NVM_ADMIN_IDENTIFY | NVM_ADMIN_ABORT | NVM_ADMIN_SET_FEATURES
| NVM_ADMIN_GET_FEATURES | NVM_ADMIN_FORMAT_NVM

primrec admin_opcode :: "nvm_admin_command_set \<Rightarrow> u8" where
  "admin_opcode NVM_ADMIN_DELETE_SQ = NVM_CMD_OPCODE 0 0 0"
| "admin_opcode NVM_ADMIN_CREATE_SQ = NVM_CMD_OPCODE 0 0 1"
| "admin_opcode NVM_ADMIN_GET_LOG_PAGE = NVM_CMD_OPCODE 0 0 2"
| "admin_opcode NVM_ADMIN_DELETE_CQ = NVM_CMD_OPCODE 0 1 0"
| "admin_opcode NVM_ADMIN_CREATE_CQ = NVM_CMD_OPCODE 0 1 1"
| "admin_opcode NVM_ADMIN_IDENTIFY = NVM_CMD_OPCODE 0 1 2"
| "admin_opcode NVM_ADMIN_ABORT = NVM_CMD_OPCODE 0 2 0"
| "admin_opcode NVM_ADMIN_SET_FEATURES = NVM_CMD_OPCODE 0 2 1"
| "admin_opcode NVM_ADMIN_GET_FEATURES = NVM_CMD_OPCODE 0 2 2"
| "admin_opcode NVM_ADMIN_FORMAT_NVM = NVM_CMD_OPCODE 1 0 0"

definition nvm_cmd_header :: "nvm_cmd_t \<Rightarrow> u16 \<Rightarrow> u8 \<Rightarrow> u32 \<Rightarrow> nvm_cmd_t" where
  "nvm_cmd_header cmd cid opcode ns_id =
     cmd[0 := push_bit 16 (ucast cid) OR (ucast opcode AND 0x7f), 1 := ns_id]"

definition nvm_cmd_data_ptr :: "nvm_cmd_t \<Rightarrow> u64 \<Rightarrow> u64 \<Rightarrow> nvm_cmd_t" where
  "nvm_cmd_data_ptr cmd prp1 prp2 =
     cmd[0 := (cmd ! 0) AND NOT (push_bit 14 3 OR push_bit 8 3),
         6 := ucast prp1, 7 := ucast (drop_bit 32 prp1),
         8 := ucast prp2, 9 := ucast (drop_bit 32 prp2)]"

definition nvm_cmd_rw_blks :: "nvm_cmd_t \<Rightarrow> u64 \<Rightarrow> u16 \<Rightarrow> nvm_cmd_t" where
  "nvm_cmd_rw_blks cmd start_lba n_blks =
     cmd[10 := ucast start_lba, 11 := ucast (drop_bit 32 start_lba),
         12 := ((cmd ! 12) AND 0xffff0000) OR (ucast (n_blks - 1) AND 0xffff)]"

definition nvm_cmd_dsm :: "nvm_cmd_t \<Rightarrow> u32 \<Rightarrow> u32 \<Rightarrow> nvm_cmd_t" where
  "nvm_cmd_dsm cmd nr attr = cmd[10 := nr, 11 := attr]"

text \<open>What the device decodes from a command: the fields at the places the NVMe
  specification gives them.\<close>

definition cmd_opcode :: "nvm_cmd_t \<Rightarrow> u8" where "cmd_opcode cmd = ucast (cmd ! 0)"
definition cmd_nsid :: "nvm_cmd_t \<Rightarrow> u32" where "cmd_nsid cmd = cmd ! 1"
definition cmd_prp1 :: "nvm_cmd_t \<Rightarrow> u64" where
  "cmd_prp1 cmd = ucast (cmd ! 6) OR push_bit 32 (ucast (cmd ! 7))"
definition cmd_prp2 :: "nvm_cmd_t \<Rightarrow> u64" where
  "cmd_prp2 cmd = ucast (cmd ! 8) OR push_bit 32 (ucast (cmd ! 9))"
definition cmd_slba :: "nvm_cmd_t \<Rightarrow> u64" where
  "cmd_slba cmd = ucast (cmd ! 10) OR push_bit 32 (ucast (cmd ! 11))"
definition cmd_nlb :: "nvm_cmd_t \<Rightarrow> nat" where
  "cmd_nlb cmd = unat (ucast (cmd ! 12) :: u16) + 1"

subsection \<open>PRP lists\<close>

type_synonym prp_mem = "nat \<Rightarrow> u64"

record nvm_prp_list_t =
  prp_vaddr :: nat
  prp_local :: bool
  prp_page_size :: nat
  prp_ioaddr :: u64

definition NVM_PRP_LIST_INIT :: "nat \<Rightarrow> bool \<Rightarrow> nat \<Rightarrow> u64 \<Rightarrow> nvm_prp_list_t" where
  "NVM_PRP_LIST_INIT vaddr loc page_size ioaddr =
     \<lparr>prp_vaddr = vaddr, prp_local = loc, prp_page_size = page_size, prp_ioaddr = ioaddr\<rparr>"

primrec store_entries :: "nat \<Rightarrow> u64 list \<Rightarrow> prp_mem \<Rightarrow> prp_mem" where
  "store_entries a [] m = m"
| "store_entries a (x # xs) m = store_entries (a + 8) xs (m(a := x))"

definition nvm_prp_list :: "nvm_prp_list_t \<Rightarrow> nat \<Rightarrow> u64 list \<Rightarrow> prp_mem \<Rightarrow> nat \<times> prp_mem" where
  "nvm_prp_list l n_pages ioaddrs m =
     (let n_prps = prp_page_size l div 8 in
      if n_pages = 0 then (0, m)
      else
        let n_prps = (if n_pages > n_prps then n_prps - 1 else n_pages) in
        (n_prps, store_entries (prp_vaddr l) (take n_prps ioaddrs) m))"

fun prp_chain_loop ::
  "nvm_prp_list_t \<Rightarrow> nvm_prp_list_t list \<Rightarrow> nat \<Rightarrow> nat \<Rightarrow> nat \<Rightarrow> u64 list \<Rightarrow> prp_mem \<Rightarrow> nat \<times> prp_mem"
where
  "prp_chain_loop prev [] list_prps n_prps n_pages ioaddrs m = (n_prps, m)"
| "prp_chain_loop prev (l # ls) list_prps n_prps n_pages ioaddrs m =
     (if n_prps < n_pages then
        let m = m(prp_vaddr prev + 8 * list_prps := prp_ioaddr l);
            (list_prps, m) = nvm_prp_list l (n_pages - n_prps) (drop n_prps ioaddrs) m
        in prp_chain_loop l ls list_prps (n_prps + list_prps) n_pages ioaddrs m
      else (n_prps, m))"

definition nvm_prp_list_chain ::
  "nvm_prp_list_t list \<Rightarrow> nat \<Rightarrow> u64 list \<Rightarrow> prp_mem \<Rightarrow> nat \<times> prp_mem" where
  "nvm_prp_list_chain prps n_pages ioaddrs m =
     (case prps of
        [] \<Rightarrow> (0, m)
      | l # ls \<Rightarrow>
          let (list_prps, m) = nvm_prp_list l n_pages ioaddrs m
          in prp_chain_loop l ls list_prps list_prps n_pages ioaddrs m)"

definition nvm_cmd_data ::
  "nvm_cmd_t \<Rightarrow> nvm_prp_list_t list \<Rightarrow> nat \<Rightarrow> u64 list \<Rightarrow> prp_mem \<Rightarrow> nat \<times> nvm_cmd_t \<times> prp_mem" where
  "nvm_cmd_data cmd prps n_pages ioaddrs m =
     (if n_pages = 0 then (0, cmd, m)
      else
        let dptr0 = ioaddrs ! 0 in
        if n_pages > 2 \<and> prps \<noteq> [] then
          let (n, m) = nvm_prp_list_chain prps (n_pages - 1) (drop 1 ioaddrs) m
          in (1 + n, nvm_cmd_data_ptr cmd dptr0 (prp_ioaddr (hd prps)), m)
        else if n_pages \<ge> 2 then (2, nvm_cmd_data_ptr cmd dptr0 (ioaddrs ! 1), m)
        else (1, nvm_cmd_data_ptr cmd dptr0 0, m))"

text \<open>The reading side: the entries the device fetches for \<open>n\<close> pages starting from the
  list page at address \<open>p\<close>, with \<open>k\<close> entries to a page. The last entry of a full page
  is the bus address of the next list page; \<open>dma\<close> translates it.\<close>

definition read_entries :: "prp_mem \<Rightarrow> nat \<Rightarrow> nat \<Rightarrow> u64 list" where
  "read_entries m a n = map (\<lambda>i. m (a + 8 * i)) [0..<n]"

function prp_walk :: "(u64 \<Rightarrow> nat) \<Rightarrow> prp_mem \<Rightarrow> nat \<Rightarrow> nat \<Rightarrow> nat \<Rightarrow> u64 list" where
  "prp_walk dma m k p n =
     (if k < 2 \<or> n \<le> k then read_entries m p n
      else read_entries m p (k - 1) @ prp_walk dma m k (dma (m (p + 8 * (k - 1)))) (n - (k - 1)))"
  by pat_completeness auto
termination
  by (relation "measure (\<lambda>(_, _, _, _, n). n)") auto

declare prp_walk.simps [simp del] prp_chain_loop.simps [simp del]

definition device_pages :: "(u64 \<Rightarrow> nat) \<Rightarrow> prp_mem \<Rightarrow> nat \<Rightarrow> nvm_cmd_t \<Rightarrow> nat \<Rightarrow> u64 list" where
  "device_pages dma m k cmd n =
     (if n = 0 then [] else if n = 1 then [cmd_prp1 cmd]
      else if n = 2 then [cmd_prp1 cmd, cmd_prp2 cmd]
      else cmd_prp1 cmd # prp_walk dma m k (dma (cmd_prp2 cmd)) (n - 1))"

definition prp_page :: "nat \<Rightarrow> nvm_prp_list_t \<Rightarrow> nat set" where
  "prp_page k l = (\<lambda>i. prp_vaddr l + 8 * i) ` {..<k}"

fun prp_pages_disjoint :: "nat \<Rightarrow> nvm_prp_list_t list \<Rightarrow> bool" where
  "prp_pages_disjoint k [] = True"
| "prp_pages_disjoint k (l # ls) =
     (list_all (\<lambda>l'. prp_page k l \<inter> prp_page k l' = {}) ls \<and> prp_pages_disjoint k ls)"

definition prp_lists_ok :: "(u64 \<Rightarrow> nat) \<Rightarrow> nat \<Rightarrow> nvm_prp_list_t list \<Rightarrow> bool" where
  "prp_lists_ok dma k prps \<longleftrightarrow> 2 \<le> k \<and> prp_pages_disjoint k prps \<and>
     list_all (\<lambda>l. prp_page_size l = 8 * k \<and> dma (prp_ioaddr l) = prp_vaddr l) prps"

definition prp_capacity :: "nat \<Rightarrow> nat \<Rightarrow> nat" where
  "prp_capacity k n_lists = (if n_lists = 0 then 0 else n_lists * (k - 1) + 1)"

subsection \<open>Command fields\<close>

lemma opcode_mask: "(x :: u32) AND 0x7f = take_bit 7 x"
  by (simp add: take_bit_eq_mask mask_eq_exp_minus_1)

lemma low_half_mask: "(x :: u32) AND 0xffff = take_bit 16 x"
  by (simp add: take_bit_eq_mask mask_eq_exp_minus_1)

lemma high_half_mask: "(x :: u32) AND 0xffff0000 = push_bit 16 (drop_bit 16 x)"
proof -
  have "(0xffff0000 :: u32) = NOT (mask 16)"
    by (simp add: mask_eq_exp_minus_1)
  then have "x AND 0xffff0000 = x AND NOT (mask 16)"
    by (simp only:)
  also have "\<dots> = push_bit 16 (drop_bit 16 x)"
    by (intro bit_word_eqI) (auto simp: bit_simps)
  finally show ?thesis .
qed

lemma cmd_header_fields:
  assumes "2 \<le> length cmd"
  shows "cmd_opcode (nvm_cmd_header cmd cid opcode ns_id) = take_bit 7 opcode"
    and "NVM_CMD_CID (nvm_cmd_header cmd cid opcode ns_id) = cid"
    and "cmd_nsid (nvm_cmd_header cmd cid opcode ns_id) = ns_id"
proof -
  have "0 < length cmd" "1 < length cmd"
    using assms by linarith+
  then have d: "nvm_cmd_header cmd cid opcode ns_id ! 0 = push_bit 16 (ucast cid) OR take_bit 7 (ucast opcode)"
      "nvm_cmd_header cmd cid opcode ns_id ! 1 = ns_id"
    by (simp_all add: nvm_cmd_header_def opcode_mask del: One_nat_def)
  show "cmd_opcode (nvm_cmd_header cmd cid opcode ns_id) = take_bit 7 opcode"
    unfolding cmd_opcode_def d by (intro bit_word_eqI) (auto simp: bit_simps)
  show "NVM_CMD_CID (nvm_cmd_header cmd cid opcode ns_id) = cid"
    unfolding bitfield_simps d by (intro bit_word_eqI) (auto simp: bit_simps)
  show "cmd_nsid (nvm_cmd_header cmd cid opcode ns_id) = ns_id"
    by (simp add: cmd_nsid_def d del: One_nat_def)
qed

lemma split_halves_u64:
  "ucast (ucast (v :: u64) :: u32) OR push_bit 32 (ucast (ucast (drop_bit 32 v) :: u32)) = v"
  by (intro bit_word_eqI) (auto simp: bit_simps)

lemma cmd_data_ptr_fields:
  assumes "10 \<le> length cmd"
  shows "cmd_prp1 (nvm_cmd_data_ptr cmd prp1 prp2) = prp1"
    and "cmd_prp2 (nvm_cmd_data_ptr cmd prp1 prp2) = prp2"
  using assms by (simp_all add: cmd_prp1_def cmd_prp2_def nvm_cmd_data_ptr_def split_halves_u64)

lemma cmd_rw_blks_fields:
  assumes "13 \<le> length cmd"
  shows "cmd_slba (nvm_cmd_rw_blks cmd lba n) = lba"
    and "n \<noteq> 0 \<Longrightarrow> cmd_nlb (nvm_cmd_rw_blks cmd lba n) = unat n"
    and "cmd_nlb (nvm_cmd_rw_blks cmd lba 0) = 65536"
proof -
  have "ucast (((cmd ! 12) AND 0xffff0000) OR (ucast (n - 1) AND 0xffff)) = n - 1" for n :: u16
    unfolding high_half_mask low_half_mask by (intro bit_word_eqI) (auto simp: bit_simps)
  then have *: "cmd_nlb (nvm_cmd_rw_blks cmd lba n) = unat (n - 1) + 1" for n
    using assms by (simp add: cmd_nlb_def nvm_cmd_rw_blks_def)
  show "cmd_slba (nvm_cmd_rw_blks cmd lba n) = lba"
    using assms by (simp add: cmd_slba_def nvm_cmd_rw_blks_def split_halves_u64)
  show "cmd_nlb (nvm_cmd_rw_blks cmd lba n) = unat n" if "n \<noteq> 0"
    using that unat_minus_one[of n] by (simp add: * unat_gt_0)
  show "cmd_nlb (nvm_cmd_rw_blks cmd lba 0) = 65536"
    by (simp add: * unsigned_minus_1_eq_mask mask_eq_exp_minus_1)
qed

subsection \<open>Memory lemmas\<close>

lemma store_entries_miss:
  "(\<And>i. i < length xs \<Longrightarrow> b \<noteq> a + 8 * i) \<Longrightarrow> store_entries a xs m b = m b"
proof (induction xs arbitrary: a m)
  case (Cons x xs)
  have "b \<noteq> a + 8 + 8 * i" if "i < length xs" for i
    using Cons.prems[of "Suc i"] that by simp
  moreover have "b \<noteq> a"
    using Cons.prems[of 0] by simp
  ultimately show ?case
    by (simp add: Cons.IH)
qed simp

lemma store_entries_hit: "i < length xs \<Longrightarrow> store_entries a xs m (a + 8 * i) = xs ! i"
proof (induction xs arbitrary: a m i)
  case (Cons x xs)
  show ?case
  proof (cases i)
    case 0
    then show ?thesis by (simp add: store_entries_miss)
  next
    case (Suc j)
    then show ?thesis
      using Cons.prems Cons.IH[of j "a + 8"] by (simp add: algebra_simps)
  qed
qed simp

lemma read_store_entries: "n \<le> length xs \<Longrightarrow> read_entries (store_entries a xs m) a n = take n xs"
  by (simp add: read_entries_def list_eq_iff_nth_eq store_entries_hit)

lemma read_entries_cong: "(\<And>i. i < n \<Longrightarrow> m (a + 8 * i) = m' (a + 8 * i)) \<Longrightarrow> read_entries m a n = read_entries m' a n"
  by (simp add: read_entries_def)


subsection \<open>PRP chains\<close>

lemma nvm_prp_list_eq:
  assumes "prp_page_size l = 8 * k" "0 < n"
  shows "nvm_prp_list l n io m =
    (let c = if n > k then k - 1 else n in (c, store_entries (prp_vaddr l) (take c io) m))"
  using assms by (simp add: nvm_prp_list_def Let_def)

lemma prp_page_entry: "i < k \<Longrightarrow> prp_vaddr l + 8 * i \<in> prp_page k l"
  by (simp add: prp_page_def)

lemma store_page_miss:
  assumes "b \<notin> prp_page k l" "length xs \<le> k"
  shows "store_entries (prp_vaddr l) xs m b = m b"
  using assms by (intro store_entries_miss) (auto simp: prp_page_def)

lemma prp_walk_last: "n \<le> k \<Longrightarrow> prp_walk dma m k p n = read_entries m p n"
  by (simp add: prp_walk.simps)

lemma prp_walk_next:
  assumes "k < n" "2 \<le> k" "c = k - 1"
  shows "prp_walk dma m k p n = read_entries m p c @ prp_walk dma m k (dma (m (p + 8 * c))) (n - c)"
  using assms by (subst prp_walk.simps) simp

lemma prp_chain_loop_Cons:
  assumes "prp_page_size l = 8 * k" "np < n"
    and "c = (if n - np > k then k - 1 else n - np)"
    and "m' = store_entries (prp_vaddr l) (take c (drop np io)) (m(prp_vaddr prev + 8 * lp := prp_ioaddr l))"
  shows "prp_chain_loop prev (l # ls) lp np n io m = prp_chain_loop l ls c (np + c) n io m'"
  using assms by (simp add: prp_chain_loop.simps nvm_prp_list_eq[of l k] Let_def)

lemma prp_chain_loop_done: "\<not> np < n \<Longrightarrow> prp_chain_loop prev ls lp np n io m = (np, m)"
  by (cases ls) (simp_all add: prp_chain_loop.simps)

lemma prp_chain_loop_frame:
  assumes "list_all (\<lambda>l. prp_page_size l = 8 * k) ls" "2 \<le> k"
    and "b \<notin> \<Union> (prp_page k ` set ls)" "b \<noteq> prp_vaddr prev + 8 * lp"
  shows "snd (prp_chain_loop prev ls lp np n io m) b = m b"
  using assms
proof (induction ls arbitrary: prev lp np m)
  case (Cons l ls)
  define c where "c = (if n - np > k then k - 1 else n - np)"
  define m' where "m' = store_entries (prp_vaddr l) (take c (drop np io)) (m(prp_vaddr prev + 8 * lp := prp_ioaddr l))"
  have m': "m' b = m b"
    using Cons.prems by (simp add: m'_def store_page_miss[of b k] c_def)
  show ?case
  proof (cases "np < n")
    case True
    have step: "prp_chain_loop prev (l # ls) lp np n io m = prp_chain_loop l ls c (np + c) n io m'"
      using Cons.prems True by (intro prp_chain_loop_Cons[where k = k]) (simp_all add: c_def m'_def)
    show ?thesis
    proof (cases "np + c < n")
      case True
      then have "c < k" using Cons.prems(2) by (auto simp: c_def split: if_splits)
      then have "b \<noteq> prp_vaddr l + 8 * c"
        using Cons.prems(3) prp_page_entry[of c k l] by auto
      then show ?thesis
        using Cons.IH[of l c "np + c" m'] Cons.prems m' by (simp add: step)
    qed (simp add: step prp_chain_loop_done m')
  qed (simp add: prp_chain_loop_done)
qed (simp add: prp_chain_loop.simps)

lemma prp_chain_loop_correct:
  assumes "prp_lists_ok dma k (prev # ls)" "ls \<noteq> []" "lp = k - 1"
    and "np < n" "n - np \<le> prp_capacity k (length ls)" "n \<le> length io"
    and "prp_chain_loop prev ls lp np n io m = (r, m')"
  shows "r = n \<and> m' (prp_vaddr prev + 8 * lp) = prp_ioaddr (hd ls) \<and>
         prp_walk dma m' k (prp_vaddr (hd ls)) (n - np) = take (n - np) (drop np io)"
  using assms
proof (induction ls arbitrary: prev lp np m)
  case (Cons l ls)
  define c where "c = (if n - np > k then k - 1 else n - np)"
  define m2 where "m2 = store_entries (prp_vaddr l) (take c (drop np io)) (m(prp_vaddr prev + 8 * lp := prp_ioaddr l))"
  let ?link = "prp_vaddr prev + 8 * lp"
  have k: "2 \<le> k" and l: "prp_page_size l = 8 * k" "dma (prp_ioaddr l) = prp_vaddr l"
    and ls: "list_all (\<lambda>l. prp_page_size l = 8 * k) ls"
    and dis: "\<And>x. x \<in> prp_page k prev \<Longrightarrow> x \<notin> prp_page k l \<and> x \<notin> \<Union> (prp_page k ` set ls)"
      "\<And>x. x \<in> prp_page k l \<Longrightarrow> x \<notin> \<Union> (prp_page k ` set ls)"
    using Cons.prems(1) by (auto simp: prp_lists_ok_def list_all_iff)
  have loop: "prp_chain_loop l ls c (np + c) n io m2 = (r, m')"
    using Cons.prems(7) prp_chain_loop_Cons[OF l(1) Cons.prems(4) c_def m2_def, of ls] by simp
  have len: "length (take c (drop np io)) = c"
    using Cons.prems(4,6) by (auto simp: c_def)
  have link_in: "?link \<in> prp_page k prev"
    using k Cons.prems(3) by (simp add: prp_page_entry)
  have link2: "m2 ?link = prp_ioaddr l"
    using dis(1)[OF link_in] store_page_miss[of ?link k l] len by (simp add: m2_def c_def)
  show ?case
  proof (cases "n - np > k")
    case False
    then have c: "c = n - np" by (simp add: c_def)
    then have "r = n" "m' = m2"
      using loop Cons.prems(4) by (simp_all add: prp_chain_loop_done)
    moreover have "read_entries m2 (prp_vaddr l) (n - np) = take (n - np) (drop np io)"
      using len c by (simp add: m2_def read_store_entries)
    ultimately show ?thesis
      using False link2 by (simp add: prp_walk_last)
  next
    case True
    then have c: "c = k - 1" by (simp add: c_def)
    have "ls \<noteq> []"
      using True Cons.prems(5) k by (auto simp: prp_capacity_def)
    then have cap: "n - (np + c) \<le> prp_capacity k (length ls)"
      using Cons.prems(5) c by (auto simp: prp_capacity_def)
    have lt: "np + c < n"
      using True c by simp
    have IH: "r = n \<and> m' (prp_vaddr l + 8 * c) = prp_ioaddr (hd ls) \<and>
        prp_walk dma m' k (prp_vaddr (hd ls)) (n - (np + c)) = take (n - (np + c)) (drop (np + c) io)"
      using Cons.prems(1,6) \<open>ls \<noteq> []\<close> c lt cap loop
      by (intro Cons.IH[of l c "np + c" m2]) (auto simp: prp_lists_ok_def)
    have frame: "m' b = m2 b" if "b \<notin> \<Union> (prp_page k ` set ls)" "b \<noteq> prp_vaddr l + 8 * c" for b
      using prp_chain_loop_frame[OF ls k that, of "np + c" n io m2] loop by simp
    have "?link \<noteq> prp_vaddr l + 8 * c"
      using dis(1)[OF link_in] prp_page_entry[of c k l] k c by auto
    then have "m' ?link = prp_ioaddr l"
      using frame dis(1)[OF link_in] link2 by simp
    moreover have "read_entries m' (prp_vaddr l) c = take c (drop np io)"
    proof -
      have "read_entries m' (prp_vaddr l) c = read_entries m2 (prp_vaddr l) c"
        using k c dis(2)[OF prp_page_entry] by (intro read_entries_cong frame) auto
      then show ?thesis using len by (simp add: m2_def read_store_entries)
    qed
    moreover have "dma (prp_ioaddr (hd ls)) = prp_vaddr (hd ls)"
      using Cons.prems(1) \<open>ls \<noteq> []\<close> by (cases ls) (simp_all add: prp_lists_ok_def)
    moreover have "take c (drop np io) @ take (n - (np + c)) (drop (np + c) io) = take (n - np) (drop np io)"
      using lt by (simp add: take_add[symmetric] drop_drop[symmetric] add.commute[of np] del: drop_drop)
    ultimately show ?thesis
      using IH prp_walk_next[OF True k c, of dma m' "prp_vaddr l"] by simp
  qed
qed simp

lemma nvm_prp_list_chain_correct:
  assumes ok: "prp_lists_ok dma k prps" and cap: "prps \<noteq> []" "0 < n" "n \<le> prp_capacity k (length prps)"
    and io: "n \<le> length io"
  shows "fst (nvm_prp_list_chain prps n io m) = n"
    and "prp_walk dma (snd (nvm_prp_list_chain prps n io m)) k (prp_vaddr (hd prps)) n = take n io"
proof -
  obtain l ls where p: "prps = l # ls" using cap by (cases prps) auto
  define c where "c = (if n > k then k - 1 else n)"
  define m2 where "m2 = store_entries (prp_vaddr l) (take c io) m"
  obtain r m' where loop: "prp_chain_loop l ls c c n io m2 = (r, m')" by fastforce
  have k: "2 \<le> k" and l: "prp_page_size l = 8 * k" and ls: "list_all (\<lambda>l. prp_page_size l = 8 * k) ls"
    and dis: "\<And>x. x \<in> prp_page k l \<Longrightarrow> x \<notin> \<Union> (prp_page k ` set ls)"
    using ok by (auto simp: p prp_lists_ok_def list_all_iff)
  have eq: "nvm_prp_list_chain prps n io m = (r, m')"
    using nvm_prp_list_eq[OF l cap(2), of io m] loop
    by (simp add: p nvm_prp_list_chain_def c_def m2_def Let_def)
  have entries: "read_entries m2 (prp_vaddr l) c = take c io"
    using io by (simp add: m2_def read_store_entries c_def)
  have "r = n \<and> prp_walk dma m' k (prp_vaddr l) n = take n io"
  proof (cases "n > k")
    case False
    then show ?thesis
      using loop entries by (simp add: c_def prp_chain_loop_done prp_walk_last)
  next
    case True
    then have c: "c = k - 1" by (simp add: c_def)
    have ne: "ls \<noteq> []" using True cap k by (auto simp: p prp_capacity_def)
    then have cap': "n - c \<le> prp_capacity k (length ls)"
      using cap c by (auto simp: p prp_capacity_def)
    have *: "r = n \<and> m' (prp_vaddr l + 8 * c) = prp_ioaddr (hd ls) \<and>
        prp_walk dma m' k (prp_vaddr (hd ls)) (n - c) = take (n - c) (drop c io)"
      using ok ne c True cap' io loop k
      by (intro prp_chain_loop_correct) (auto simp: p)
    have "read_entries m' (prp_vaddr l) c = read_entries m2 (prp_vaddr l) c"
      using k c dis[OF prp_page_entry] loop prp_chain_loop_frame[OF ls k, of _ l c c n io m2]
      by (intro read_entries_cong) (force simp: image_iff)
    moreover have "dma (prp_ioaddr (hd ls)) = prp_vaddr (hd ls)"
      using ok ne by (cases ls) (simp_all add: p prp_lists_ok_def)
    moreover have "take c io @ take (n - c) (drop c io) = take n io"
      using True c by (simp add: take_add[symmetric])
    ultimately show ?thesis
      using * entries prp_walk_next[OF True k c, of dma m' "prp_vaddr l"] by simp
  qed
  then show "fst (nvm_prp_list_chain prps n io m) = n"
    and "prp_walk dma (snd (nvm_prp_list_chain prps n io m)) k (prp_vaddr (hd prps)) n = take n io"
    unfolding eq by (simp_all add: p)
qed

lemma nvm_cmd_data_chain:
  assumes "prp_lists_ok dma k prps" "2 < n" "n \<le> prp_capacity k (length prps) + 1"
    and "n \<le> length io" "10 \<le> length cmd" "nvm_cmd_data cmd prps n io m = (r, cmd', m')"
  shows "r = n \<and> device_pages dma m' k cmd' n = take n io"
proof -
  have ne: "prps \<noteq> []" "n - 1 \<le> prp_capacity k (length prps)"
    using assms(2,3) by (auto simp: prp_capacity_def split: if_splits)
  let ?c = "nvm_prp_list_chain prps (n - 1) (drop 1 io) m"
  have ch: "fst ?c = n - 1" "prp_walk dma (snd ?c) k (prp_vaddr (hd prps)) (n - 1) = take (n - 1) (drop 1 io)"
    using nvm_prp_list_chain_correct[OF assms(1) ne(1) _ ne(2), of "drop 1 io" m] assms(2,4) by simp_all
  have d: "dma (prp_ioaddr (hd prps)) = prp_vaddr (hd prps)"
    using assms(1) ne by (cases prps) (simp_all add: prp_lists_ok_def)
  have r: "r = n" "m' = snd ?c" "cmd' = nvm_cmd_data_ptr cmd (io ! 0) (prp_ioaddr (hd prps))"
    using assms(2,6) ne ch by (simp_all add: nvm_cmd_data_def split: prod.splits) 
  have "io ! 0 # take (n - 1) (drop 1 io) = take n io"
    using assms(2,4) by (cases io; cases n) auto
  then show ?thesis
    using r ch d assms(2,5) by (simp add: device_pages_def cmd_data_ptr_fields)
qed

subsection \<open>Properties\<close>

text \<open>C12: Whatever pages a transfer covers, and however many list pages the chain
  needs, the device that follows PRP1, PRP2 and the chain in the memory that
  \<open>nvm_cmd_data\<close> leaves reads exactly the given bus addresses, in order, and the
  function reports all of them as used. The list pages must not overlap and must offer
  enough entries.\<close>

theorem nvm_cmd_data_roundtrip:
  assumes "prp_lists_ok dma k prps" "n \<le> 2 \<or> n \<le> prp_capacity k (length prps) + 1"
    and "n \<le> length io" "10 \<le> length cmd"
  shows "case nvm_cmd_data cmd prps n io m of (r, cmd', m') \<Rightarrow>
           r = n \<and> device_pages dma m' k cmd' n = take n io"
proof -
  obtain r cmd' m' where eq: "nvm_cmd_data cmd prps n io m = (r, cmd', m')"
    by (cases "nvm_cmd_data cmd prps n io m") auto
  consider "n = 0" | "n = 1" | "n = 2" | "2 < n" by linarith
  then have "r = n \<and> device_pages dma m' k cmd' n = take n io"
  proof cases
    case 4
    then show ?thesis
      using nvm_cmd_data_chain[OF assms(1) 4 _ assms(3,4) eq] assms(2) by simp
  qed (use assms eq in \<open>auto simp: nvm_cmd_data_def device_pages_def cmd_data_ptr_fields
        take_1_eq[simplified] take_2_eq\<close>)
  then show ?thesis by (simp add: eq)
qed

theorem nvm_cmd_data_roundtrip_witness:
  "case nvm_cmd_data (replicate 16 0)
      [NVM_PRP_LIST_INIT 0x1000 True 32 0x1000, NVM_PRP_LIST_INIT 0x2000 True 32 0x2000] 7
      [0x10000, 0x11000, 0x12000, 0x13000, 0x14000, 0x15000, 0x16000] (\<lambda>_. 0) of
     (r, cmd', m') \<Rightarrow> r = 7 \<and> device_pages unat m' 4 cmd' 7 =
       [0x10000, 0x11000, 0x12000, 0x13000, 0x14000, 0x15000, 0x16000]"
proof -
  have "prp_lists_ok unat 4
      [NVM_PRP_LIST_INIT 0x1000 True 32 0x1000, NVM_PRP_LIST_INIT 0x2000 True 32 0x2000]"
    by (auto simp: prp_lists_ok_def NVM_PRP_LIST_INIT_def prp_page_def)
  from nvm_cmd_data_roundtrip[OF this, of 7
      "[0x10000, 0x11000, 0x12000, 0x13000, 0x14000, 0x15000, 0x16000]" "replicate 16 0" "\<lambda>_. 0"]
  show ?thesis by (simp add: prp_capacity_def)
qed

text \<open>C33: The fields the device decodes from a command header are the command
  identifier, the namespace and the opcode the caller passed, for every opcode of the IO
  and admin command sets except \<open>NVM_ADMIN_FORMAT_NVM\<close>: its generic bit is masked off
  and the device decodes \<open>NVM_ADMIN_DELETE_SQ\<close> instead.\<close>

theorem nvm_cmd_header_roundtrip:
  assumes "length cmd = 16"
  shows "NVM_CMD_CID (nvm_cmd_header cmd cid opcode ns) = cid \<and>
    cmd_nsid (nvm_cmd_header cmd cid opcode ns) = ns \<and>
    cmd_opcode (nvm_cmd_header cmd cid (io_opcode c) ns) = io_opcode c \<and>
    cmd_opcode (nvm_cmd_header cmd cid (admin_opcode a) ns) =
      (if a = NVM_ADMIN_FORMAT_NVM then admin_opcode NVM_ADMIN_DELETE_SQ else admin_opcode a)"
proof -
  have "take_bit 7 (io_opcode c) = io_opcode c"
    by (cases c) (simp_all add: NVM_CMD_OPCODE_def WB_def NVM_MASK_PART_def NVM_MASK_def)
  moreover have "take_bit 7 (admin_opcode a) =
      (if a = NVM_ADMIN_FORMAT_NVM then admin_opcode NVM_ADMIN_DELETE_SQ else admin_opcode a)"
    by (cases a) (simp_all add: NVM_CMD_OPCODE_def WB_def NVM_MASK_PART_def NVM_MASK_def)
  ultimately show ?thesis
    using assms by (simp add: cmd_header_fields)
qed

theorem nvm_cmd_header_roundtrip_witness:
  "cmd_opcode (nvm_cmd_header (replicate 16 0) 5 (admin_opcode NVM_ADMIN_FORMAT_NVM) 1) = 0 \<and>
   NVM_CMD_CID (nvm_cmd_header (replicate 16 0) 5 2 1) = 5"
  using nvm_cmd_header_roundtrip[of "replicate 16 0" 5 2 1 NVM_IO_READ NVM_ADMIN_FORMAT_NVM]
  by (simp add: NVM_CMD_OPCODE_def WB_def)

end
