(* ===== verification/NvmError.thy ===== *)
theory NvmError
  imports NvmCmd
begin

text \<open>
  Status codes of completions and their packing with errno values
  (\<open>include/nvm_error.h\<close>) and the message lookup of \<open>src/error.cpp\<close>.

  A table access is an option value, absent past the end of the table, so that a lookup
  that would read out of bounds is visible. The text of the C library's \<open>strerror\<close>
  is a parameter.
\<close>

subsection \<open>Status fields\<close>

definition NVM_ERR_SCT :: "nvm_cpl_t \<Rightarrow> u8" where
  "NVM_ERR_SCT cpl = ucast (RB (ucast (NVM_CPL_STATUS cpl)) 11 9)"

definition NVM_ERR_SC :: "nvm_cpl_t \<Rightarrow> u8" where
  "NVM_ERR_SC cpl = ucast (RB (ucast (NVM_CPL_STATUS cpl)) 8 1)"

definition NVM_ERR_DNR :: "nvm_cpl_t \<Rightarrow> bool" where
  "NVM_ERR_DNR cpl \<longleftrightarrow> RB (ucast (NVM_CPL_STATUS cpl)) 15 15 \<noteq> 0"

definition NVM_ERR_MORE :: "nvm_cpl_t \<Rightarrow> bool" where
  "NVM_ERR_MORE cpl \<longleftrightarrow> RB (ucast (NVM_CPL_STATUS cpl)) 14 14 \<noteq> 0"

definition NVM_ERR_STATUS :: "nvm_cpl_t option \<Rightarrow> int" where
  "NVM_ERR_STATUS cpl =
     (case cpl of None \<Rightarrow> 0
      | Some c \<Rightarrow> - (push_bit 8 (uint (NVM_ERR_SCT c)) OR uint (NVM_ERR_SC c)))"

definition NVM_ERR_OK :: "nvm_cpl_t \<Rightarrow> bool" where
  "NVM_ERR_OK cpl \<longleftrightarrow> NVM_ERR_SCT cpl = 0 \<and> NVM_ERR_SC cpl = 0"

definition NVM_ERR_PACK :: "nvm_cpl_t option \<Rightarrow> int \<Rightarrow> int" where
  "NVM_ERR_PACK cpl err = (if err \<noteq> 0 then err else NVM_ERR_STATUS cpl)"

definition NVM_ERR_UNPACK_ERRNO :: "int \<Rightarrow> int" where
  "NVM_ERR_UNPACK_ERRNO status = (if status > 0 then status else 0)"

definition NVM_ERR_UNPACK_SCT :: "int \<Rightarrow> int" where
  "NVM_ERR_UNPACK_SCT status = (if status < 0 then drop_bit 8 (- status) AND 0xff else 0)"

definition NVM_ERR_UNPACK_SC :: "int \<Rightarrow> int" where
  "NVM_ERR_UNPACK_SC status = (if status < 0 then (- status) AND 0xff else 0)"

definition nvm_ok :: "int \<Rightarrow> bool" where
  "nvm_ok status \<longleftrightarrow> status = 0"

subsection \<open>Messages\<close>

definition generic_status :: "string list" where
  "generic_status =
    [''Success'',
     ''Invalid command opcode'',
     ''Invalid field in command'',
     ''Command ID conflict'',
     ''Data transfer error'',
     ''Commands aborted due to power loss notification'',
     ''Internal error'',
     ''Command abort requested'',
     ''Command aborted due to SQ deletion'',
     ''Command aborted due to failed fused command'',
     ''Command aborted due to missing fused command'',
     ''Invalid namespace or format'',
     ''Command sequence error'',
     ''Invalid SGL segment descriptor'',
     ''Invalid number of SQL descriptors'',
     ''Data SGL length invalid'',
     ''Metadata SGL length invalid'',
     ''SGL descriptor type invalid'',
     ''Invalid use of controller memory buffer'',
     ''PRP offset invalid'',
     ''Atomic write unit exceeded'',
     ''Operation denied'',
     ''SGL offset invalid'',
     ''Unknown/reserved'',
     ''Host identifier inconsistent format'',
     ''Keep alive timer expired'',
     ''Keep alive timer invalid'',
     ''Command aborted due to preempt and abort'',
     ''Sanitize failed'',
     ''Sanitize in progress'',
     ''SGL data block granularity invalid'',
     ''Command not supported for queue in CMB'']"

definition generic_status_nvm_commands :: "string list" where
  "generic_status_nvm_commands =
    [''LBA out of range'',
     ''Capacity exceeded'',
     ''Namespace not ready'',
     ''Reservation conflict'',
     ''Format in progress'']"

definition command_specific_status :: "string list" where
  "command_specific_status =
    [''Completion queue invalid'',
     ''Invalid queue identifier'',
     ''Invalid queue size'',
     ''Abort command limit exceeded'',
     ''Unknown/reserved'',
     ''Asynchronous event request limit exceeded'',
     ''Invalid firmware slot'',
     ''Invalid firmware image'',
     ''Invalid interrupt vector'',
     ''Invalid log page'',
     ''Invalid format'',
     ''Firmware activation requires conventional reset'',
     ''Invalid queue deletion'',
     ''Feature identifier not saveable'',
     ''Feature not changeable'',
     ''Feature not namespace specific'',
     ''Firmware activation requires NVM subsystem reset'',
     ''Firmware activation requires reset'',
     ''Firmware activation requires maximum time violation'',
     ''Firmware activation prohibited'',
     ''Overlapping range'',
     ''Namespace insufficient capacity'',
     ''Namespace identifier unavailable'',
     ''Unknown/reserved'',
     ''Namespace already attached'',
     ''Namespace is private'',
     ''Namespace not attached'',
     ''Thin provisioning not supported'',
     ''Controller list invalid'',
     ''Device self-test in progress'',
     ''Boot partition write prohibited'',
     ''Invalid controller identifier'',
     ''Invalid secondary controller state'',
     ''Invalid number of controller resources'',
     ''Invalid resource identifier'']"

definition command_specific_status_nvm_commands :: "string list" where
  "command_specific_status_nvm_commands =
    [''Conflicting attributes'',
     ''Invalid protection information'',
     ''Attempted write to read only range'']"

definition media_and_data_integrity_nvm_commands :: "string list" where
  "media_and_data_integrity_nvm_commands =
    [''Write fault'',
     ''Unrecovered read error'',
     ''End-to-end guard check error'',
     ''End-to-end application tag check error'',
     ''End-to-end reference tag check error'',
     ''Compare failure'',
     ''Access denied'',
     ''Deallocated or unwritten logical block'']"

definition table_at :: "string list \<Rightarrow> nat \<Rightarrow> string option" where
  "table_at t i = (if i < length t then Some (t ! i) else None)"

definition lookup_string :: "u8 \<Rightarrow> u8 \<Rightarrow> string option" where
  "lookup_string status_code_type status_code =
     (if status_code_type = 0x00 then
        if status_code < 0x20 then table_at generic_status (unat status_code)
        else if 0x80 \<le> status_code \<and> status_code \<le> 0x84
        then table_at generic_status_nvm_commands (unat (status_code - 0x80))
        else Some ''Unknown generic error''
      else if status_code_type = 0x01 then
        if status_code < 0x23 then table_at command_specific_status (unat status_code)
        else if 0x80 \<le> status_code \<and> status_code \<le> 0x82
        then table_at command_specific_status_nvm_commands (unat (status_code - 0x80))
        else Some ''Unknown command specific error''
      else if status_code_type = 0x02 then
        if 0x80 \<le> status_code \<and> status_code \<le> 0x87
        then table_at media_and_data_integrity_nvm_commands (unat (status_code - 0x80))
        else Some ''Unknown media or data integrity error''
      else Some ''Unknown status code type'')"

definition nvm_strerror :: "(int \<Rightarrow> string) \<Rightarrow> int \<Rightarrow> string option" where
  "nvm_strerror strerror status =
     (let err = NVM_ERR_UNPACK_ERRNO status;
          sct = word_of_int (NVM_ERR_UNPACK_SCT status) :: u8;
          sc = word_of_int (NVM_ERR_UNPACK_SC status) :: u8
      in if sct \<noteq> 0 \<or> sc \<noteq> 0 then lookup_string sct sc else Some (strerror err))"

subsection \<open>Facts\<close>

lemma table_lengths:
  "length generic_status = 32" "length generic_status_nvm_commands = 5"
  "length command_specific_status = 35" "length command_specific_status_nvm_commands = 3"
  "length media_and_data_integrity_nvm_commands = 8"
  by (simp_all add: generic_status_def generic_status_nvm_commands_def command_specific_status_def
      command_specific_status_nvm_commands_def media_and_data_integrity_nvm_commands_def)

lemma lookup_string_total: "lookup_string sct sc \<noteq> None"
proof -
  have "unat (sc - 0x80) = unat sc - 0x80" if "0x80 \<le> sc"
    using that by (simp add: unat_sub_le)
  then show ?thesis
    by (auto simp: lookup_string_def table_at_def table_lengths word_less_nat_alt word_le_nat_alt)
qed

lemma NVM_ERR_SCT_less: "uint (NVM_ERR_SCT c) < 8"
proof -
  have "unat (NVM_ERR_SCT c) < 8"
    by (simp add: NVM_ERR_SCT_def unat_ucast_mod unat_RB)
  then show ?thesis
    by (metis nat_less_numeral_power_cancel_iff unat_eq_nat_uint uint_nat of_nat_less_numeral_iff)
qed

lemma status_value:
  "push_bit 8 (uint (a::u8)) OR uint (b::u8) = uint a * 256 + uint b"
proof -
  have "push_bit 8 (uint a) + uint b = push_bit 8 (uint a) OR uint b"
    by (rule disjunctive_add) (auto simp: bit_simps dest: bit_imp_le_length)
  then show ?thesis by (simp add: push_bit_eq_mult)
qed

lemma byte_mask_int: "(x :: int) AND 0xff = x mod 256"
proof -
  have "(0xff :: int) = mask 8" by (simp add: mask_eq_exp_minus_1)
  then show ?thesis by (simp only: take_bit_eq_mask[symmetric] take_bit_eq_mod) simp
qed

subsection \<open>Properties\<close>

text \<open>C30: Packing keeps what it packs: an errno is unpacked as itself, and without an
  errno the status code type and status code of the completion are unpacked as they
  were; the packed value tests as success exactly when the completion reports success.\<close>

theorem nvm_err_pack_roundtrip:
  assumes "0 \<le> err"
  shows "NVM_ERR_UNPACK_ERRNO (NVM_ERR_PACK (Some c) err) = err \<and>
    NVM_ERR_UNPACK_SCT (NVM_ERR_PACK (Some c) err) = (if err = 0 then uint (NVM_ERR_SCT c) else 0) \<and>
    NVM_ERR_UNPACK_SC (NVM_ERR_PACK (Some c) err) = (if err = 0 then uint (NVM_ERR_SC c) else 0) \<and>
    nvm_ok (NVM_ERR_PACK (Some c) err) = (err = 0 \<and> NVM_ERR_OK c)"
proof -
  define t s where "t = uint (NVM_ERR_SCT c)" and "s = uint (NVM_ERR_SC c)"
  have b: "0 \<le> t" "t < 8" "0 \<le> s" "s < 256"
    using NVM_ERR_SCT_less uint_bounded[of "NVM_ERR_SC c"] by (simp_all add: t_def s_def)
  have ok: "NVM_ERR_OK c \<longleftrightarrow> t = 0 \<and> s = 0"
    by (simp add: NVM_ERR_OK_def t_def s_def uint_0_iff)
  have pack: "NVM_ERR_PACK (Some c) err = (if err \<noteq> 0 then err else - (t * 256 + s))"
    by (simp add: NVM_ERR_PACK_def NVM_ERR_STATUS_def status_value t_def s_def)
  show ?thesis
  proof (cases "t = 0 \<and> s = 0")
    case False
    then have "0 < t * 256 + s" using b by arith
    then show ?thesis
      using b assms False unfolding pack ok t_def[symmetric] s_def[symmetric]
      by (auto simp: NVM_ERR_UNPACK_ERRNO_def NVM_ERR_UNPACK_SCT_def NVM_ERR_UNPACK_SC_def nvm_ok_def
          byte_mask_int drop_bit_eq_div)
  qed (use assms in \<open>simp add: pack ok t_def[symmetric] s_def[symmetric] NVM_ERR_UNPACK_ERRNO_def
      NVM_ERR_UNPACK_SCT_def NVM_ERR_UNPACK_SC_def nvm_ok_def\<close>)
qed

theorem nvm_err_pack_roundtrip_witness:
  "NVM_ERR_UNPACK_SC (NVM_ERR_PACK (Some [0, 0, 0, 0x00040000]) 0) = uint (NVM_ERR_SC [0, 0, 0, 0x00040000])"
  using nvm_err_pack_roundtrip[of 0 "[0, 0, 0, 0x00040000]"] by simp

text \<open>C32: Every status value has a message: no status code type and status code make
  the lookup read past the end of one of its tables, and a positive status is described
  by the C library.\<close>

theorem nvm_strerror_total:
  "nvm_strerror strerror status \<noteq> None \<and> (status \<ge> 0 \<longrightarrow> nvm_strerror strerror status = Some (strerror status))"
  using lookup_string_total
  by (auto simp: nvm_strerror_def NVM_ERR_UNPACK_ERRNO_def NVM_ERR_UNPACK_SCT_def NVM_ERR_UNPACK_SC_def Let_def)

theorem nvm_strerror_total_witness:
  "nvm_strerror (\<lambda>_. ''Invalid argument'') 22 = Some ''Invalid argument''"
  using nvm_strerror_total[of "\<lambda>_. ''Invalid argument''" 22] by simp

end
