(* ===== verification/Interfaces.thy ===== *)
theory Interfaces
  imports Prelude
begin

text \<open>
  The contracts that components promise each other, as locales. Each is interpreted in
  the theory of the component that provides it, on the definitions that model its code.
\<close>

subsection \<open>Bounded queues of slots\<close>

text \<open>
  The contract of a bounded queue of slots. Several components hand out the slots of
  a ring in order and take them back in order: the submission queue of a queue pair and
  the request ring of the IO scheduler. The operations they share are an enqueue that
  returns the slot it took, or nothing when the ring is full, and a dequeue that
  releases the oldest slot.
\<close>

inductive fifo_reach ::
  "('q \<Rightarrow> 'e option \<times> 'q) \<Rightarrow> ('q \<Rightarrow> 'q) \<Rightarrow> ('q \<Rightarrow> 'e list) \<Rightarrow> 'q \<Rightarrow> 'q \<Rightarrow> bool"
  for enq deq content q0
where
  start: "fifo_reach enq deq content q0 q0"
| enq: "fifo_reach enq deq content q0 q \<Longrightarrow> fifo_reach enq deq content q0 (snd (enq q))"
| deq: "fifo_reach enq deq content q0 q \<Longrightarrow> content q \<noteq> [] \<Longrightarrow> fifo_reach enq deq content q0 (deq q)"

locale bounded_fifo =
  fixes enq :: "'q \<Rightarrow> 'e option \<times> 'q"
    and deq :: "'q \<Rightarrow> 'q"
    and content :: "'q \<Rightarrow> 'e list"
    and inv :: "'q \<Rightarrow> bool"
    and cap :: "'q \<Rightarrow> nat"
  assumes enq_full: "inv q \<Longrightarrow> length (content q) = cap q \<Longrightarrow> enq q = (None, q)"
    and enq_room: "inv q \<Longrightarrow> length (content q) \<noteq> cap q \<Longrightarrow>
      \<exists>e q'. enq q = (Some e, q') \<and> inv q' \<and> cap q' = cap q \<and> content q' = content q @ [e]"
    and deq_content: "inv q \<Longrightarrow> content q \<noteq> [] \<Longrightarrow> content (deq q) = tl (content q)"
    and deq_inv: "inv q \<Longrightarrow> content q \<noteq> [] \<Longrightarrow> inv (deq q) \<and> cap (deq q) = cap q"
    and content_distinct: "inv q \<Longrightarrow> distinct (content q)"
    and content_bound: "inv q \<Longrightarrow> length (content q) \<le> cap q"
begin

lemma enq_fresh:
  assumes "inv q" "enq q = (Some e, q')"
  shows "e \<notin> set (content q) \<and> content q' = content q @ [e] \<and> length (content q) < cap q"
proof -
  have "length (content q) \<noteq> cap q"
    using enq_full[OF assms(1)] assms(2) by auto
  then obtain e' q'' where "enq q = (Some e', q'')" "inv q''" "content q'' = content q @ [e']"
    using enq_room[OF assms(1)] by blast
  then show ?thesis
    using assms content_distinct[of q'] content_bound[OF assms(1)] \<open>length (content q) \<noteq> cap q\<close> by auto
qed

lemma enq_keeps: "inv q \<Longrightarrow> inv (snd (enq q)) \<and> cap (snd (enq q)) = cap q"
  using enq_full[of q] enq_room[of q] by (cases "length (content q) = cap q") auto

lemma reach_keeps:
  assumes "fifo_reach enq deq content q0 q" "inv q0"
  shows "inv q \<and> cap q = cap q0"
  using assms by (induction rule: fifo_reach.induct) (auto simp: enq_keeps deq_inv)

lemma reach_deq:
  assumes "fifo_reach enq deq content q0 q" "inv q0" "content q \<noteq> []"
  shows "content (deq q) = tl (content q)"
  using deq_content reach_keeps[OF assms(1,2)] assms(3) by blast

lemma reach_spec:
  assumes "fifo_reach enq deq content q0 q" "inv q0"
  shows "case enq q of
      (None, q') \<Rightarrow> q' = q \<and> length (content q) = cap q0
    | (Some e, q') \<Rightarrow> e \<notin> set (content q) \<and> content q' = content q @ [e] \<and> length (content q') \<le> cap q0"
proof -
  have i: "inv q" "cap q = cap q0"
    using reach_keeps[OF assms] by simp_all
  show ?thesis
  proof (cases "enq q")
    case (Pair r q')
    show ?thesis
    proof (cases r)
      case None
      then have "length (content q) = cap q"
        using enq_room[OF i(1)] Pair by fastforce
      then show ?thesis using enq_full[OF i(1)] None Pair i by simp
    next
      case (Some e)
      then show ?thesis using enq_fresh[OF i(1)] Pair i by fastforce
    qed
  qed
qed

end

subsection \<open>Reference counted objects\<close>

text \<open>
  Controllers, memory mappings and admin queue references are shared through reference
  counts. The contract speaks of one such object: its count while it is allocated, and how
  often its release callback has run.
\<close>

primrec rc_run :: "('s \<Rightarrow> 's) \<Rightarrow> ('s \<Rightarrow> 's) \<Rightarrow> bool list \<Rightarrow> 's \<Rightarrow> 's" where
  "rc_run get put [] s = s"
| "rc_run get put (g # ops) s = rc_run get put ops (if g then get s else put s)"

text \<open>The count after a sequence of gets (\<open>True\<close>) and puts (\<open>False\<close>), as long as no
  operation follows the put that drops the last reference.\<close>

fun rc_spec :: "nat \<Rightarrow> bool list \<Rightarrow> nat option" where
  "rc_spec n [] = Some n"
| "rc_spec 0 (_ # _) = None"
| "rc_spec (Suc n) (g # ops) = rc_spec (if g then Suc (Suc n) else n) ops"

locale refcounted =
  fixes get :: "'s \<Rightarrow> 's"
    and put :: "'s \<Rightarrow> 's"
    and cnt :: "'s \<Rightarrow> nat option"
    and released :: "'s \<Rightarrow> nat"
    and inv :: "'s \<Rightarrow> bool"
    and limit :: nat
  assumes get_cnt: "inv s \<Longrightarrow> cnt s = Some n \<Longrightarrow> 0 < n \<Longrightarrow> n < limit \<Longrightarrow> cnt (get s) = Some (Suc n)"
    and get_released: "inv s \<Longrightarrow> cnt s = Some n \<Longrightarrow> 0 < n \<Longrightarrow> n < limit \<Longrightarrow> released (get s) = released s"
    and get_inv: "inv s \<Longrightarrow> cnt s = Some n \<Longrightarrow> 0 < n \<Longrightarrow> n < limit \<Longrightarrow> inv (get s)"
    and put_last: "inv s \<Longrightarrow> cnt s = Some 1 \<Longrightarrow> cnt (put s) = None \<and> released (put s) = Suc (released s)"
    and put_more: "inv s \<Longrightarrow> cnt s = Some (Suc (Suc n)) \<Longrightarrow>
      cnt (put s) = Some (Suc n) \<and> released (put s) = released s \<and> inv (put s)"
begin

lemma rc_run_correct:
  assumes "inv s" "cnt s = Some n" "0 < n" "rc_spec n ops = Some m" "n + length ops \<le> limit"
  shows "cnt (rc_run get put ops s) = (if m = 0 then None else Some m) \<and>
    released (rc_run get put ops s) = released s + (if m = 0 then 1 else 0) \<and>
    (m \<noteq> 0 \<longrightarrow> inv (rc_run get put ops s))"
  using assms
proof (induction ops arbitrary: s n)
  case (Cons g ops)
  obtain k where n: "n = Suc k" using Cons.prems(3) by (cases n) auto
  show ?case
  proof (cases g)
    case True
    have "cnt (get s) = Some (Suc n)" "inv (get s)" "released (get s) = released s"
      using Cons.prems get_cnt get_inv get_released by auto
    then show ?thesis
      using Cons.IH[of "get s" "Suc n"] Cons.prems True n by simp
  next
    case False
    show ?thesis
    proof (cases k)
      case 0
      then have "ops = [] \<and> m = 0"
        using Cons.prems(4) n False by (cases ops) auto
      then show ?thesis
        using put_last[OF Cons.prems(1)] Cons.prems(2) n 0 False by simp
    next
      case (Suc j)
      then have "cnt (put s) = Some (Suc j)" "released (put s) = released s" "inv (put s)"
        using put_more[OF Cons.prems(1)] Cons.prems(2) n by simp_all
      then show ?thesis
        using Cons.IH[of "put s" "Suc j"] Cons.prems False n Suc by simp
    qed
  qed
qed simp

end

end
