(* ===== verification/NvmQueue.thy ===== *)
theory NvmQueue
  imports NvmError Interfaces
begin

text \<open>
  The queue descriptor of \<open>include/nvm_types.h\<close> and the single-threaded queue operations
  of \<open>include/nvm_queue.h\<close> and \<open>src/queue.cpp\<close>.

  Entries are addressed by byte address. Queue memory is written by the caller (through
  the slot an enqueue returns) or by the controller (completions), so it is an argument
  of the operations that read it; for the blocking dequeue, the memory seen by each poll
  is a function of the number of the poll. A doorbell write is a pair of register address
  and value in the result of the operation that rings it. The phase tag, 0 or 1 in
  the code, is a truth value. The arrays of locks and marks are functions on indices; they
  are used by the parallel queue operations.
\<close>

subsection \<open>Queue descriptor\<close>

record nvm_queue_t =
  q_head_lock :: u32
  q_tail_lock :: u32
  q_head :: u32
  q_tail :: u32
  q_in_ticket :: u32
  q_cid_ticket :: u32
  q_tickets :: "nat \<Rightarrow> u32"
  q_head_mark :: "nat \<Rightarrow> u32"
  q_tail_mark :: "nat \<Rightarrow> u32"
  q_cid :: "nat \<Rightarrow> u32"
  q_pos_locks :: "nat \<Rightarrow> u32"
  q_qs_minus_1 :: u32
  q_qs_log2 :: u32
  q_no :: u16
  q_es :: u16
  q_qs :: u32
  q_phase :: bool
  q_local :: bool
  q_last :: u32
  q_db :: "nat option"
  q_vaddr :: nat
  q_ioaddr :: u64

definition zero_queue :: nvm_queue_t where
  "zero_queue = \<lparr>q_head_lock = 0, q_tail_lock = 0, q_head = 0, q_tail = 0, q_in_ticket = 0,
     q_cid_ticket = 0, q_tickets = (\<lambda>_. 0), q_head_mark = (\<lambda>_. 0), q_tail_mark = (\<lambda>_. 0),
     q_cid = (\<lambda>_. 0), q_pos_locks = (\<lambda>_. 0), q_qs_minus_1 = 0, q_qs_log2 = 0, q_no = 0, q_es = 0,
     q_qs = 0, q_phase = False, q_local = False, q_last = 0, q_db = None, q_vaddr = 0, q_ioaddr = 0\<rparr>"

type_synonym db_write = "nat \<times> u32"
type_synonym cpl_mem = "nat \<Rightarrow> nvm_cpl_t"

definition queue_entry :: "nvm_queue_t \<Rightarrow> u32 \<Rightarrow> nat" where
  "queue_entry q i = q_vaddr q + unat (q_es q) * unat i"

definition nvm_queue_clear ::
  "nvm_queue_t \<Rightarrow> nvm_ctrl_t \<Rightarrow> bool \<Rightarrow> u16 \<Rightarrow> u32 \<Rightarrow> bool \<Rightarrow> nat \<Rightarrow> u64 \<Rightarrow> rc \<times> nvm_queue_t" where
  "nvm_queue_clear queue ctrl cq no qs loc vaddr ioaddr =
     (if qs < 2 \<or> qs > 0x10000 \<or> qs > ctrl_max_qs ctrl then (EINVAL, queue)
      else (0, queue
        \<lparr>q_no := no, q_qs := qs, q_es := (if cq then 16 else 64),
         q_head := 0, q_tail := 0, q_last := 0, q_phase := True, q_local := loc,
         q_head_lock := 0, q_tail_lock := 0, q_in_ticket := 0, q_cid_ticket := 0,
         q_db := Some (if cq then CQ_DBL (ctrl_mm_ptr ctrl) (unat no) (unat (ctrl_dstrd ctrl))
                       else SQ_DBL (ctrl_mm_ptr ctrl) (unat no) (unat (ctrl_dstrd ctrl))),
         q_vaddr := vaddr, q_ioaddr := ioaddr\<rparr>))"

definition nvm_queue_reset :: "nvm_queue_t \<Rightarrow> nvm_queue_t" where
  "nvm_queue_reset queue = queue\<lparr>q_head := 0, q_tail := 0, q_last := 0, q_phase := True\<rparr>"

definition nvm_sq_enqueue :: "nvm_queue_t \<Rightarrow> nat option \<times> nvm_queue_t" where
  "nvm_sq_enqueue sq =
     (if (ucast (ucast (q_tail sq - q_head sq) :: u16) :: u32) mod q_qs sq = q_qs sq - 1 then (None, sq)
      else
        let cmd = queue_entry sq (q_tail sq);
            sq = sq\<lparr>q_tail := q_tail sq + 1\<rparr>
        in if q_tail sq = q_qs sq then (Some cmd, sq\<lparr>q_phase := \<not> q_phase sq, q_tail := 0\<rparr>)
           else (Some cmd, sq))"

definition nvm_sq_enqueue_n ::
  "nvm_queue_t \<Rightarrow> nat option \<Rightarrow> u16 \<Rightarrow> u16 \<Rightarrow> nat option \<times> nvm_queue_t" where
  "nvm_sq_enqueue_n sq prev n i =
     (let start = q_vaddr sq;
          q_end = start + unat (q_qs sq) * unat (q_es sq)
      in if ucast n \<ge> q_qs sq then (None, sq)
         else
           let cmd = (case prev of
                        None \<Rightarrow> start + unat (q_es sq) * unat i
                      | Some l \<Rightarrow>
                          let c = l + unat n * unat (q_es sq)
                          in if q_end \<le> c then start + (c - q_end) else c);
               sq = (if i = 0 then sq\<lparr>q_tail := (q_tail sq + ucast n) mod q_qs sq\<rparr> else sq)
           in (Some cmd, sq))"

definition cpl_phase :: "nvm_cpl_t \<Rightarrow> bool" where
  "cpl_phase cpl \<longleftrightarrow> RB (ucast (NVM_CPL_STATUS cpl)) 0 0 \<noteq> 0"

definition nvm_cq_poll :: "nvm_queue_t \<Rightarrow> cpl_mem \<Rightarrow> nat option" where
  "nvm_cq_poll cq mem =
     (let cpl = queue_entry cq (q_head cq)
      in if (\<not> cpl_phase (mem cpl)) \<noteq> (\<not> q_phase cq) then None else Some cpl)"

definition nvm_cq_dequeue :: "nvm_queue_t \<Rightarrow> cpl_mem \<Rightarrow> nat option \<times> nvm_queue_t" where
  "nvm_cq_dequeue cq mem =
     (case nvm_cq_poll cq mem of
        None \<Rightarrow> (None, cq)
      | Some cpl \<Rightarrow>
          let cq = cq\<lparr>q_head := q_head cq + 1\<rparr>
          in if q_head cq = q_qs cq then (Some cpl, cq\<lparr>q_head := 0, q_phase := \<not> q_phase cq\<rparr>)
             else (Some cpl, cq))"

definition nvm_sq_submit :: "nvm_queue_t \<Rightarrow> nvm_queue_t \<times> db_write list" where
  "nvm_sq_submit sq =
     (case q_db sq of
        Some db \<Rightarrow>
          if q_last sq \<noteq> q_tail sq then (sq\<lparr>q_last := q_tail sq\<rparr>, [(db, q_tail sq)]) else (sq, [])
      | None \<Rightarrow> (sq, []))"

definition nvm_sq_update :: "nvm_queue_t \<Rightarrow> nvm_queue_t" where
  "nvm_sq_update sq =
     (if q_db sq = None then sq
      else
        let sq = sq\<lparr>q_head := q_head sq + 1\<rparr>
        in if q_head sq = q_qs sq then sq\<lparr>q_head := 0\<rparr> else sq)"

definition nvm_cq_update :: "nvm_queue_t \<Rightarrow> nvm_queue_t \<times> db_write list" where
  "nvm_cq_update cq =
     (case q_db cq of
        Some db \<Rightarrow>
          if q_last cq \<noteq> q_head cq
          then (cq\<lparr>q_last := q_head cq, q_tail := q_head cq\<rparr>, [(db, q_head cq)]) else (cq, [])
      | None \<Rightarrow> (cq, []))"

definition NVM_DEFAULT_CID :: "nvm_queue_t \<Rightarrow> u16" where
  "NVM_DEFAULT_CID sq = ucast (q_tail sq + (if q_phase sq then 0 else q_qs sq))"

function block_loop ::
  "(nat \<Rightarrow> cpl_mem) \<Rightarrow> nat \<Rightarrow> u64 \<Rightarrow> nat option \<Rightarrow> nvm_queue_t \<Rightarrow> nat option \<times> nvm_queue_t" where
  "block_loop mem t nsecs cpl cq =
     (if cpl = None \<and> nsecs > 0 then
        let nsecs = nvm_delay_remain nsecs;
            (cpl, cq) = nvm_cq_dequeue cq (mem t)
        in block_loop mem (t + 1) nsecs cpl cq
      else (cpl, cq))"
  by pat_completeness auto
termination
  by (relation "measure (\<lambda>(_, _, nsecs, _, _). unat nsecs)")
    (auto simp: nvm_delay_remain_le word_less_nat_alt)

declare block_loop.simps [simp del]

definition nvm_cq_dequeue_block ::
  "(nat \<Rightarrow> cpl_mem) \<Rightarrow> nvm_queue_t \<Rightarrow> u64 \<Rightarrow> nat option \<times> nvm_queue_t" where
  "nvm_cq_dequeue_block mem cq tmo =
     (let nsecs = tmo * 1000000;
          (cpl, cq) = nvm_cq_dequeue cq (mem 0)
      in block_loop mem 1 nsecs cpl cq)"

subsection \<open>Submission queue as a bounded queue\<close>

definition sq_count :: "nvm_queue_t \<Rightarrow> nat" where
  "sq_count q = ring_count (unat (q_qs q)) (unat (q_head q)) (unat (q_tail q))"

definition sq_slots :: "nvm_queue_t \<Rightarrow> nat list" where
  "sq_slots q = map (\<lambda>i. q_vaddr q + unat (q_es q) * ((unat (q_head q) + i) mod unat (q_qs q))) [0..<sq_count q]"

definition sq_wf :: "nvm_queue_t \<Rightarrow> bool" where
  "sq_wf q \<longleftrightarrow> 2 \<le> unat (q_qs q) \<and> unat (q_qs q) dvd 65536 \<and> q_head q < q_qs q \<and> q_tail q < q_qs q \<and>
     0 < unat (q_es q) \<and> q_db q \<noteq> None"

lemma ring_dist_dvd:
  fixes h t n :: nat
  assumes "n dvd 65536" "h < n" 
  shows "(t + 2 ^ 32 - h) mod 65536 mod n = (t + n - h) mod n"
proof -
  have "n dvd 65536 * 65536"
    using assms(1) by (rule dvd_mult2)
  then obtain c where c: "(2 ^ 32 :: nat) = n * c"
    by (auto simp: dvd_def)
  then obtain d where d: "c = Suc d"
    by (cases c) auto
  have "t + 2 ^ 32 - h = (t + n - h) + n * d"
    using assms(2) by (simp only: c d) simp
  then show ?thesis
    using assms(1) by (simp add: mod_mod_cancel)
qed

lemma sq_full_test:
  assumes "sq_wf q"
  shows "((ucast (ucast (q_tail q - q_head q) :: u16) :: u32) mod q_qs q = q_qs q - 1) \<longleftrightarrow>
    sq_count q = unat (q_qs q) - 1"
proof -
  have "unat (q_tail q - q_head q) = (unat (q_tail q) + 2 ^ 32 - unat (q_head q)) mod 2 ^ 32"
    using unat_sub_mod[of "q_tail q" "q_head q"] by simp
  then have "unat (ucast (ucast (q_tail q - q_head q) :: u16) :: u32) =
      (unat (q_tail q) + 2 ^ 32 - unat (q_head q)) mod 65536"
    by (simp add: unat_ucast_mod mod_mod_cancel)
  then have "unat ((ucast (ucast (q_tail q - q_head q) :: u16) :: u32) mod q_qs q) = sq_count q"
    using assms ring_dist_dvd[of "unat (q_qs q)" "unat (q_head q)" "unat (q_tail q)"]
    by (simp add: unat_mod_distrib sq_count_def ring_count_def sq_wf_def word_less_nat_alt)
  moreover have "unat (q_qs q - 1) = unat (q_qs q) - 1"
    using assms by (intro unat_minus_1) (simp add: sq_wf_def)
  ultimately show ?thesis
    by (simp add: word_unat_eq_iff)
qed



lemma sq_wfD:
  assumes "sq_wf q"
  shows "0 < unat (q_qs q)" "unat (q_head q) < unat (q_qs q)" "unat (q_tail q) < unat (q_qs q)"
    "q_head q < q_qs q" "q_tail q < q_qs q"
  using assms by (auto simp: sq_wf_def word_less_nat_alt)

lemma length_sq_slots [simp]: "length (sq_slots q) = sq_count q"
  by (simp add: sq_slots_def)

lemma u32_succ_wrap:
  fixes a n :: u32
  assumes "a < n"
  shows "unat (if a + 1 = n then 0 else a + 1) = (unat a + 1) mod unat n"
  using assms unat_plus_1[OF assms]
  by (auto simp: word_less_nat_alt word_unat_eq_iff)

lemma nvm_sq_enqueue_eq:
  assumes "sq_wf q" "sq_count q \<noteq> unat (q_qs q) - 1"
  shows "nvm_sq_enqueue q = (Some (queue_entry q (q_tail q)),
      q\<lparr>q_tail := if q_tail q + 1 = q_qs q then 0 else q_tail q + 1,
        q_phase := if q_tail q + 1 = q_qs q then \<not> q_phase q else q_phase q\<rparr>)"
  using assms by (simp add: nvm_sq_enqueue_def sq_full_test Let_def)

lemma nvm_sq_enqueue_room:
  assumes "sq_wf q" "sq_count q \<noteq> unat (q_qs q) - 1"
  shows "\<exists>t ph. nvm_sq_enqueue q = (Some (queue_entry q (q_tail q)), q\<lparr>q_tail := t, q_phase := ph\<rparr>) \<and>
      unat t = (unat (q_tail q) + 1) mod unat (q_qs q)"
  using nvm_sq_enqueue_eq[OF assms] u32_succ_wrap[OF sq_wfD(5)[OF assms(1)]] by blast

lemma nvm_sq_update_eq:
  assumes "sq_wf q"
  shows "\<exists>h. nvm_sq_update q = q\<lparr>q_head := h\<rparr> \<and> unat h = (unat (q_head q) + 1) mod unat (q_qs q)"
proof -
  have "nvm_sq_update q = q\<lparr>q_head := if q_head q + 1 = q_qs q then 0 else q_head q + 1\<rparr>"
    using assms by (auto simp: nvm_sq_update_def sq_wf_def Let_def)
  then show ?thesis
    using u32_succ_wrap[OF sq_wfD(4)[OF assms]] by blast
qed

lemma sq_enq_contents:
  assumes "sq_wf q" "sq_count q \<noteq> unat (q_qs q) - 1" "unat t = (unat (q_tail q) + 1) mod unat (q_qs q)"
  shows "sq_wf (q\<lparr>q_tail := t, q_phase := ph\<rparr>)"
    and "sq_slots (q\<lparr>q_tail := t, q_phase := ph\<rparr>) = sq_slots q @ [queue_entry q (q_tail q)]"
proof -
  note b = sq_wfD[OF assms(1)]
  have "sq_count (q\<lparr>q_tail := t, q_phase := ph\<rparr>) = Suc (sq_count q)"
    using ring_count_enq[OF b(2,3)] assms(2,3) by (simp add: sq_count_def)
  then show "sq_slots (q\<lparr>q_tail := t, q_phase := ph\<rparr>) = sq_slots q @ [queue_entry q (q_tail q)]"
    using ring_tail_slot[OF b(2,3)] by (simp add: sq_slots_def queue_entry_def sq_count_def)
  show "sq_wf (q\<lparr>q_tail := t, q_phase := ph\<rparr>)"
    using assms b by (simp add: sq_wf_def word_less_nat_alt)
qed

lemma sq_deq_contents:
  assumes "sq_wf q" "sq_slots q \<noteq> []" "unat h = (unat (q_head q) + 1) mod unat (q_qs q)"
  shows "sq_wf (q\<lparr>q_head := h\<rparr>)" and "sq_slots (q\<lparr>q_head := h\<rparr>) = tl (sq_slots q)"
proof -
  note b = sq_wfD[OF assms(1)]
  have c: "sq_count q \<noteq> 0"
    using assms(2) by (simp add: sq_slots_def)
  then have "sq_count (q\<lparr>q_head := h\<rparr>) = sq_count q - 1"
    using ring_count_deq[OF b(2,3)] assms(3) by (simp add: sq_count_def)
  then show "sq_slots (q\<lparr>q_head := h\<rparr>) = tl (sq_slots q)"
    using assms(3) by (simp add: sq_slots_def mod_add_left_eq tl_map_upt)
  show "sq_wf (q\<lparr>q_head := h\<rparr>)"
    using assms b by (simp add: sq_wf_def word_less_nat_alt)
qed

interpretation sqf: bounded_fifo nvm_sq_enqueue nvm_sq_update sq_slots sq_wf "\<lambda>q. unat (q_qs q) - 1"
proof
  fix q
  assume wf: "sq_wf q"
  show "length (sq_slots q) = unat (q_qs q) - 1 \<Longrightarrow> nvm_sq_enqueue q = (None, q)"
    using wf by (simp add: nvm_sq_enqueue_def sq_full_test)
  show "\<exists>e q'. nvm_sq_enqueue q = (Some e, q') \<and> sq_wf q' \<and> unat (q_qs q') - 1 = unat (q_qs q) - 1 \<and>
      sq_slots q' = sq_slots q @ [e]" if "length (sq_slots q) \<noteq> unat (q_qs q) - 1"
    using nvm_sq_enqueue_room[OF wf] sq_enq_contents[OF wf] that by fastforce
  show "sq_slots q \<noteq> [] \<Longrightarrow> sq_slots (nvm_sq_update q) = tl (sq_slots q)"
    using nvm_sq_update_eq[OF wf] sq_deq_contents[OF wf] by force
  show "sq_slots q \<noteq> [] \<Longrightarrow> sq_wf (nvm_sq_update q) \<and> unat (q_qs (nvm_sq_update q)) - 1 = unat (q_qs q) - 1"
    using nvm_sq_update_eq[OF wf] sq_deq_contents[OF wf] by force
  show "length (sq_slots q) \<le> unat (q_qs q) - 1"
    using ring_count_less[of "unat (q_qs q)"] sq_wfD[OF wf] by (simp add: sq_count_def less_eq_Suc_le[symmetric] Suc_le_eq le_diff_conv2)
  have "distinct (map (\<lambda>i. (unat (q_head q) + i) mod unat (q_qs q)) [0..<sq_count q])"
    using ring_count_less[of "unat (q_qs q)"] sq_wfD[OF wf] by (intro ring_slots_distinct) (simp add: sq_count_def less_imp_le)
  moreover have "sq_slots q = map (\<lambda>x. q_vaddr q + unat (q_es q) * x) (map (\<lambda>i. (unat (q_head q) + i) mod unat (q_qs q)) [0..<sq_count q])"
    by (simp add: sq_slots_def)
  moreover have "inj (\<lambda>x. q_vaddr q + unat (q_es q) * x)"
    using wf by (auto simp: sq_wf_def inj_on_def)
  ultimately show "distinct (sq_slots q)"
    using distinct_map inj_on_subset by (metis subset_UNIV)
qed

lemma nvm_queue_clear_wf:
  assumes "nvm_queue_clear q ctrl False no qs loc vaddr ioaddr = (0, q0)" "unat qs dvd 65536"
  shows "sq_wf q0" "q_qs q0 = qs"
  using assms by (auto simp: nvm_queue_clear_def sq_wf_def word_less_nat_alt split: if_splits)

text \<open>C10: A submission queue that \<open>nvm_queue_clear\<close> has set up with a power-of-two number
  of entries is a bounded first-in first-out queue of slots, whatever the order in which
  commands are enqueued and retired: an enqueue hands out a slot no outstanding command
  occupies, appends it behind the outstanding ones, and reports the queue as full exactly
  when all entries but one are outstanding; a retire releases the slot of the oldest
  outstanding command and leaves the others in their order.\<close>

theorem nvm_sq_bounded_fifo:
  assumes "nvm_queue_clear q ctrl False no qs loc vaddr ioaddr = (0, q0)" "unat qs dvd 65536"
    and "fifo_reach nvm_sq_enqueue nvm_sq_update sq_slots q0 sq"
  shows "(case nvm_sq_enqueue sq of
      (None, sq') \<Rightarrow> sq' = sq \<and> length (sq_slots sq) = unat qs - 1
    | (Some e, sq') \<Rightarrow> e \<notin> set (sq_slots sq) \<and> sq_slots sq' = sq_slots sq @ [e] \<and>
        length (sq_slots sq') \<le> unat qs - 1) \<and>
    (sq_slots sq \<noteq> [] \<longrightarrow> sq_slots (nvm_sq_update sq) = tl (sq_slots sq))"
proof -
  note wf = nvm_queue_clear_wf(1)[OF assms(1,2)]
  show ?thesis
    using sqf.reach_spec[OF assms(3) wf] sqf.reach_deq[OF assms(3) wf]
    unfolding nvm_queue_clear_wf(2)[OF assms(1,2)] by blast
qed

definition example_sq :: nvm_queue_t where
  "example_sq = snd (nvm_queue_clear zero_queue
      \<lparr>ctrl_page_size = 4096, ctrl_dstrd = 0, ctrl_timeout = 500, ctrl_max_qs = 1024,
       ctrl_mm_size = 0x2000, ctrl_mm_ptr = 0\<rparr> False 1 4 True 0x8000 0)"

theorem nvm_sq_bounded_fifo_witness:
  "(case nvm_sq_enqueue example_sq of
      (None, sq') \<Rightarrow> False
    | (Some e, sq') \<Rightarrow> sq_slots sq' = [e] \<and> sq_slots (nvm_sq_update sq') = [])"
proof -
  have clear: "nvm_queue_clear zero_queue
      \<lparr>ctrl_page_size = 4096, ctrl_dstrd = 0, ctrl_timeout = 500, ctrl_max_qs = 1024,
       ctrl_mm_size = 0x2000, ctrl_mm_ptr = 0\<rparr> False 1 4 True 0x8000 0 = (0, example_sq)"
    by (simp add: example_sq_def nvm_queue_clear_def)
  have r0: "fifo_reach nvm_sq_enqueue nvm_sq_update sq_slots example_sq example_sq"
    by (rule fifo_reach.start)
  have r1: "fifo_reach nvm_sq_enqueue nvm_sq_update sq_slots example_sq (snd (nvm_sq_enqueue example_sq))"
    by (rule fifo_reach.enq[OF r0])
  have "sq_slots example_sq = []"
    by (simp add: example_sq_def nvm_queue_clear_def sq_slots_def sq_count_def ring_count_def)
  then show ?thesis
    using nvm_sq_bounded_fifo[OF clear _ r0] nvm_sq_bounded_fifo[OF clear _ r1]
    by (auto split: option.splits)
qed

text \<open>The full test compares a 16-bit difference modulo the queue size, which is the
  number of outstanding commands only when the size divides 65536. \<open>nvm_queue_clear\<close> accepts
  every size from 2 to 65536; with three entries, two of them outstanding across the
  wrap, an enqueue succeeds and the queue then counts as empty.\<close>

theorem nvm_sq_enqueue_overrun:
  "let sq = (snd (nvm_queue_clear zero_queue
      \<lparr>ctrl_page_size = 4096, ctrl_dstrd = 0, ctrl_timeout = 500, ctrl_max_qs = 1024,
       ctrl_mm_size = 0x2000, ctrl_mm_ptr = 0\<rparr> False 1 3 True 0x8000 0)) \<lparr>q_head := 1, q_tail := 0\<rparr>
   in sq_count sq = 2 \<and> fst (nvm_sq_enqueue sq) = Some 0x8000 \<and> sq_count (snd (nvm_sq_enqueue sq)) = 0"
proof -
  have "(ucast (ucast (- 1 :: u32) :: u16) :: u32) = 65535"
    by (simp add: word_unat_eq_iff unat_ucast_mod unsigned_minus_1_eq_mask mask_eq_exp_minus_1)
  then show ?thesis
    by (simp add: nvm_queue_clear_def nvm_sq_enqueue_def sq_count_def ring_count_def queue_entry_def Let_def)
qed

subsection \<open>Completion queue\<close>

definition cq_wf :: "nvm_queue_t \<Rightarrow> bool" where
  "cq_wf q \<longleftrightarrow> 0 < unat (q_qs q) \<and> q_head q < q_qs q"

text \<open>What the controller guarantees of the queue memory: it has posted \<open>n\<close> completions
  from the head on, each with the phase tag of its lap, and the slot after them still
  carries the tag of the lap before.\<close>

definition phase_at :: "nvm_queue_t \<Rightarrow> nat \<Rightarrow> bool" where
  "phase_at cq i = (if unat (q_head cq) + i < unat (q_qs cq) then q_phase cq else \<not> q_phase cq)"

definition cq_slot :: "nvm_queue_t \<Rightarrow> nat \<Rightarrow> nat" where
  "cq_slot cq i = q_vaddr cq + unat (q_es cq) * ((unat (q_head cq) + i) mod unat (q_qs cq))"

definition cq_posted :: "nvm_queue_t \<Rightarrow> cpl_mem \<Rightarrow> nat \<Rightarrow> bool" where
  "cq_posted cq mem n \<longleftrightarrow> n < unat (q_qs cq) \<and> (\<forall>i<n. cpl_phase (mem (cq_slot cq i)) = phase_at cq i) \<and>
     cpl_phase (mem (cq_slot cq n)) \<noteq> phase_at cq n"

fun cq_drain :: "nat \<Rightarrow> nvm_queue_t \<Rightarrow> cpl_mem \<Rightarrow> nat list \<times> nvm_queue_t" where
  "cq_drain 0 cq mem = ([], cq)"
| "cq_drain (Suc fuel) cq mem =
     (case nvm_cq_dequeue cq mem of
        (None, cq') \<Rightarrow> ([], cq')
      | (Some cpl, cq') \<Rightarrow> let (cpls, cq'') = cq_drain fuel cq' mem in (cpl # cpls, cq''))"

lemma cq_poll_slot:
  assumes "cq_wf cq"
  shows "nvm_cq_poll cq mem = (if cpl_phase (mem (cq_slot cq 0)) = phase_at cq 0 then Some (cq_slot cq 0) else None)"
  using assms by (auto simp: nvm_cq_poll_def cq_slot_def phase_at_def queue_entry_def cq_wf_def word_less_nat_alt Let_def)

lemma cq_dequeue_step:
  assumes "cq_wf cq" "nvm_cq_poll cq mem = Some a"
  obtains cq' where "nvm_cq_dequeue cq mem = (Some a, cq')" "cq_wf cq'" "q_qs cq' = q_qs cq"
    "\<And>i. cq_slot cq' i = cq_slot cq (Suc i)"
    "\<And>i. Suc i < unat (q_qs cq) \<Longrightarrow> phase_at cq' i = phase_at cq (Suc i)"
proof -
  let ?w = "q_head cq + 1 = q_qs cq"
  define cq' where "cq' = cq\<lparr>q_head := if ?w then 0 else q_head cq + 1, q_phase := if ?w then \<not> q_phase cq else q_phase cq\<rparr>"
  have lt: "q_head cq < q_qs cq" "0 < unat (q_qs cq)"
    using assms(1) by (simp_all add: cq_wf_def)
  have h: "unat (q_head cq') = (unat (q_head cq) + 1) mod unat (q_qs cq)"
    using u32_succ_wrap[OF lt(1)] by (simp add: cq'_def)
  have w: "?w \<longleftrightarrow> unat (q_head cq) + 1 = unat (q_qs cq)"
    using unat_plus_1[OF lt(1)] by (simp add: word_unat_eq_iff)
  have 1: "nvm_cq_dequeue cq mem = (Some a, cq')"
    using assms(2) by (auto simp: nvm_cq_dequeue_def cq'_def Let_def)
  have 2: "cq_wf cq'" "q_qs cq' = q_qs cq"
    using h lt by (simp_all add: cq_wf_def word_less_nat_alt) (simp_all add: cq'_def)
  have 3: "cq_slot cq' i = cq_slot cq (Suc i)" for i
    using h by (simp add: cq_slot_def cq'_def mod_add_left_eq)
  have 4: "phase_at cq' i = phase_at cq (Suc i)" if "Suc i < unat (q_qs cq)" for i
  proof (cases ?w)
    case False
    then have "unat (q_head cq') = unat (q_head cq) + 1"
      using h w lt by (simp add: word_less_nat_alt)
    then show ?thesis
      using False by (simp add: phase_at_def cq'_def)
  qed (use h w lt that in \<open>auto simp: phase_at_def cq'_def\<close>)
  show ?thesis by (rule that[OF 1 2 3 4])
qed

lemma cq_posted_Suc:
  assumes "cq_posted cq mem (Suc n)" "q_qs cq' = q_qs cq"
    "\<And>i. cq_slot cq' i = cq_slot cq (Suc i)"
    "\<And>i. Suc i < unat (q_qs cq) \<Longrightarrow> phase_at cq' i = phase_at cq (Suc i)"
  shows "cq_posted cq' mem n"
  using assms by (auto simp: cq_posted_def)

text \<open>C23: Reading a completion queue until it reports nothing returns the completions
  the controller has posted, all of them, each once and in the order they were posted,
  and leaves the queue at the first slot that is not posted; the phase tag keeps entries
  of the lap before from being taken for new ones.\<close>

theorem cq_drain_posted:
  assumes "cq_wf cq" "cq_posted cq mem n" "n < fuel"
  shows "fst (cq_drain fuel cq mem) = map (cq_slot cq) [0..<n] \<and>
    nvm_cq_poll (snd (cq_drain fuel cq mem)) mem = None"
  using assms
proof (induction n arbitrary: cq fuel)
  case 0
  then show ?case
    by (cases fuel) (auto simp: cq_posted_def nvm_cq_dequeue_def cq_poll_slot)
next
  case (Suc n)
  obtain f where f: "fuel = Suc f" using Suc.prems by (cases fuel) auto
  have "nvm_cq_poll cq mem = Some (cq_slot cq 0)"
    using Suc.prems by (auto simp: cq_poll_slot cq_posted_def)
  then obtain cq' where cq': "nvm_cq_dequeue cq mem = (Some (cq_slot cq 0), cq')" "cq_wf cq'" "q_qs cq' = q_qs cq"
    "\<And>i. cq_slot cq' i = cq_slot cq (Suc i)"
    "\<And>i. Suc i < unat (q_qs cq) \<Longrightarrow> phase_at cq' i = phase_at cq (Suc i)"
    using cq_dequeue_step[OF Suc.prems(1)] by metis
  have IH: "fst (cq_drain f cq' mem) = map (cq_slot cq') [0..<n] \<and> nvm_cq_poll (snd (cq_drain f cq' mem)) mem = None"
    using Suc.IH[OF cq'(2) cq_posted_Suc[OF Suc.prems(2) cq'(3-5)]] Suc.prems(3) f by simp
  have "map (cq_slot cq) [0..<Suc n] = cq_slot cq 0 # map (cq_slot cq') [0..<n]"
    by (simp add: map_upt_Suc_conv cq'(4) del: upt_Suc)
  then show ?case
    using IH cq'(1) by (auto simp: f split: prod.splits simp del: upt_Suc)
qed

theorem cq_drain_posted_witness:
  "fst (cq_drain 3 (snd (nvm_queue_clear zero_queue
      \<lparr>ctrl_page_size = 4096, ctrl_dstrd = 0, ctrl_timeout = 500, ctrl_max_qs = 1024,
       ctrl_mm_size = 0x2000, ctrl_mm_ptr = 0\<rparr> True 1 4 True 0x8000 0))
      (\<lambda>a. if a < 0x8020 then [0, 0, 0, 0x10000] else [0, 0, 0, 0])) = [0x8000, 0x8010]"
proof -
  define cq where "cq = snd (nvm_queue_clear zero_queue
      \<lparr>ctrl_page_size = 4096, ctrl_dstrd = 0, ctrl_timeout = 500, ctrl_max_qs = 1024,
       ctrl_mm_size = 0x2000, ctrl_mm_ptr = 0\<rparr> True 1 4 True 0x8000 0)"
  let ?m = "\<lambda>a::nat. if a < 0x8020 then [0, 0, 0, 0x10000] else [0, 0, 0, 0 :: u32]"
  have f: "q_head cq = 0" "q_qs cq = 4" "q_phase cq" "q_vaddr cq = 0x8000" "q_es cq = 16"
    by (simp_all add: cq_def nvm_queue_clear_def)
  have "cq_wf cq"
    by (simp add: cq_wf_def f)
  moreover have "cq_posted cq ?m 2"
    by (auto simp: cq_posted_def cq_slot_def phase_at_def f cpl_phase_def bitfield_simps RB_def NVM_MASK_PART_def)
  ultimately show ?thesis
    using cq_drain_posted[of cq ?m 2 3] by (simp add: cq_slot_def f upt_rec flip: cq_def)
qed

lemma cq_dequeue_none: "nvm_cq_poll cq mem = None \<Longrightarrow> nvm_cq_dequeue cq mem = (None, cq)"
  by (simp add: nvm_cq_dequeue_def)

lemma cq_dequeue_some: "nvm_cq_poll cq mem = Some a \<Longrightarrow> \<exists>cq'. nvm_cq_dequeue cq mem = (Some a, cq')"
  by (simp add: nvm_cq_dequeue_def Let_def)

lemma block_loop_found: "block_loop mem t nsecs (Some a) cq = (Some a, cq)"
  by (simp add: block_loop.simps)

lemma block_loop_step:
  assumes "0 < unat nsecs"
  shows "block_loop mem t nsecs None cq =
    (let (c, cq') = nvm_cq_dequeue cq (mem t) in block_loop mem (t + 1) (nvm_delay_remain nsecs) c cq')"
  using assms by (subst block_loop.simps) (simp add: word_less_nat_alt Let_def)

lemma block_loop_none:
  assumes "unat nsecs = k * 1000000" "\<forall>i<k. nvm_cq_poll cq (mem (t + i)) = None"
  shows "block_loop mem t nsecs None cq = (None, cq)"
  using assms
proof (induction k arbitrary: t nsecs)
  case 0
  then show ?case by (subst block_loop.simps) (simp add: word_less_nat_alt)
next
  case (Suc k)
  have "\<forall>i<k. nvm_cq_poll cq (mem (t + 1 + i)) = None"
    using Suc.prems(2) by auto
  moreover have "nvm_cq_poll cq (mem t) = None"
    using Suc.prems(2) by force
  ultimately show ?case
    using Suc.prems(1) Suc.IH[of "nvm_delay_remain nsecs" "t + 1"]
    by (simp add: block_loop_step cq_dequeue_none nvm_delay_remain_le)
qed

lemma block_loop_some:
  assumes "unat nsecs = k * 1000000" "j < k" "\<forall>i<j. nvm_cq_poll cq (mem (t + i)) = None"
    and "nvm_cq_poll cq (mem (t + j)) = Some a"
  shows "block_loop mem t nsecs None cq = nvm_cq_dequeue cq (mem (t + j))"
  using assms
proof (induction j arbitrary: t nsecs k)
  case 0
  then show ?case
    using cq_dequeue_some[of cq "mem t"] by (auto simp: block_loop_step block_loop_found)
next
  case (Suc j)
  have "\<forall>i<j. nvm_cq_poll cq (mem (t + 1 + i)) = None"
    using Suc.prems(3) by auto
  moreover have "nvm_cq_poll cq (mem t) = None"
    using Suc.prems(3) by force
  ultimately show ?case
    using Suc.prems Suc.IH[of "nvm_delay_remain nsecs" "k - 1" "t + 1"]
    by (cases k) (simp_all add: block_loop_step cq_dequeue_none nvm_delay_remain_le)
qed

lemma dequeue_block_first:
  assumes "unat tmo * 1000000 < 2 ^ 64"
  shows "((\<forall>j\<le>unat tmo. nvm_cq_poll cq (mem j) = None) \<longrightarrow> nvm_cq_dequeue_block mem cq tmo = (None, cq)) \<and>
    (\<forall>j\<le>unat tmo. (\<forall>i<j. nvm_cq_poll cq (mem i) = None) \<and> nvm_cq_poll cq (mem j) \<noteq> None \<longrightarrow>
       nvm_cq_dequeue_block mem cq tmo = nvm_cq_dequeue cq (mem j))"
proof -
  have ns: "unat (tmo * 1000000) = unat tmo * 1000000"
    using assms by (simp add: unat_word_ariths)
  have "nvm_cq_dequeue_block mem cq tmo = (None, cq)" if "\<forall>j\<le>unat tmo. nvm_cq_poll cq (mem j) = None"
    using that block_loop_none[OF ns, of cq mem 1]
    by (simp add: nvm_cq_dequeue_block_def cq_dequeue_none Let_def)
  moreover have "nvm_cq_dequeue_block mem cq tmo = nvm_cq_dequeue cq (mem j)"
    if j: "j \<le> unat tmo" "\<forall>i<j. nvm_cq_poll cq (mem i) = None" "nvm_cq_poll cq (mem j) = Some a" for j a
  proof (cases j)
    case 0
    then show ?thesis
      using j cq_dequeue_some[of cq "mem 0"] by (auto simp: nvm_cq_dequeue_block_def block_loop_found Let_def)
  next
    case (Suc i)
    then show ?thesis
      using j block_loop_some[OF ns, of i cq mem 1] by (simp add: nvm_cq_dequeue_block_def cq_dequeue_none Let_def)
  qed
  ultimately show ?thesis by blast
qed

text \<open>C24: The blocking dequeue always returns. It polls once at the start and once
  after every millisecond of its timeout: the first completion that is visible at one of
  these polls is dequeued and returned, and nothing is returned, the queue left as it
  was, only when none of the polls finds one.\<close>

theorem nvm_cq_dequeue_block_spec:
  assumes "unat tmo * 1000000 < 2 ^ 64"
  shows "((\<forall>j\<le>unat tmo. nvm_cq_poll cq (mem j) = None) \<longrightarrow> nvm_cq_dequeue_block mem cq tmo = (None, cq)) \<and>
    (\<forall>j\<le>unat tmo. (\<forall>i<j. nvm_cq_poll cq (mem i) = None) \<and> nvm_cq_poll cq (mem j) \<noteq> None \<longrightarrow>
       nvm_cq_dequeue_block mem cq tmo = nvm_cq_dequeue cq (mem j))"
  by (rule dequeue_block_first[OF assms])

theorem nvm_cq_dequeue_block_spec_witness:
  "nvm_cq_dequeue_block (\<lambda>t a. if t < 2 then [0, 0, 0, 0] else [0, 0, 0, 0x10000])
     (snd (nvm_queue_clear zero_queue
      \<lparr>ctrl_page_size = 4096, ctrl_dstrd = 0, ctrl_timeout = 500, ctrl_max_qs = 1024,
       ctrl_mm_size = 0x2000, ctrl_mm_ptr = 0\<rparr> True 1 4 True 0x8000 0)) 500 =
   nvm_cq_dequeue (snd (nvm_queue_clear zero_queue
      \<lparr>ctrl_page_size = 4096, ctrl_dstrd = 0, ctrl_timeout = 500, ctrl_max_qs = 1024,
       ctrl_mm_size = 0x2000, ctrl_mm_ptr = 0\<rparr> True 1 4 True 0x8000 0)) (\<lambda>a. [0, 0, 0, 0x10000])"
proof -
  let ?m = "\<lambda>t::nat. \<lambda>a::nat. if t < 2 then [0, 0, 0, 0] else [0, 0, 0, 0x10000 :: u32]"
  define cq where "cq = snd (nvm_queue_clear zero_queue
      \<lparr>ctrl_page_size = 4096, ctrl_dstrd = 0, ctrl_timeout = 500, ctrl_max_qs = 1024,
       ctrl_mm_size = 0x2000, ctrl_mm_ptr = 0\<rparr> True 1 4 True 0x8000 0)"
  have "nvm_cq_poll cq (\<lambda>a. [0, 0, 0, 0]) = None" "nvm_cq_poll cq (\<lambda>a. [0, 0, 0, 0x10000]) = Some 0x8000"
    by (simp_all add: cq_def nvm_queue_clear_def nvm_cq_poll_def cpl_phase_def bitfield_simps RB_def
        NVM_MASK_PART_def queue_entry_def Let_def)
  then show ?thesis
    using nvm_cq_dequeue_block_spec[of 500 cq ?m, THEN conjunct2, rule_format, of 2] by (simp flip: cq_def)
qed

end
