(* ===== verification/Ctrl.thy ===== *)
theory Ctrl
  imports NvmQueue
begin

text \<open>
  The reference counted controller handle of \<open>src/ctrl.cpp\<close> and \<open>src/lib_ctrl.h\<close>, and the
  Linux device behind it (\<open>src/linux/device.cpp\<close>).

  The state is the part of the process these functions change: the heap objects they
  allocate, the open file descriptors and the mapped register windows. \<open>malloc\<close>
  returns the number of the allocation as address and fails for the allocations the
  state marks, so every out-of-memory branch is reachable. What the operating
  system answers is a parameter, the record \<open>os\<close>. Mutual exclusion is the
  atomicity of one operation; destroying a mutex is retried by the code until it is not
  busy, and is modelled by the exit of that loop.
\<close>

subsection \<open>State\<close>

datatype device_type = DEVICE_TYPE_UNKNOWN | DEVICE_TYPE_IOCTL | DEVICE_TYPE_SMARTIO

text \<open>Which of the operations of \<open>struct device_ops\<close> are set.\<close>

record device_ops =
  ops_release_device :: bool
  ops_map_range :: bool
  ops_unmap_range :: bool

record controller =
  c_count :: u32
  c_type :: device_type
  c_device :: "nat option"
  c_ops :: device_ops
  c_handle :: nvm_ctrl_t

record ctrl_state =
  cs_ctrls :: "nat \<Rightarrow> controller option"
  cs_devs :: "nat \<Rightarrow> int option"
  cs_fds :: "int \<Rightarrow> bool"
  cs_mmaps :: "nat \<Rightarrow> bool"
  cs_released :: "nat list"
  cs_next :: nat
  cs_oom :: "nat \<Rightarrow> bool"

record os =
  os_sysconf_pagesize :: int
  os_mutex_init :: rc
  os_dup :: int
  os_fcntl :: int
  os_mmap :: nat
  os_errno :: rc

definition NVM_CTRL_MEM_MINSIZE :: u64 where
  "NVM_CTRL_MEM_MINSIZE = 0x2000"

definition malloc :: "'a ctrl_state_scheme \<Rightarrow> nat option \<times> 'a ctrl_state_scheme" where
  "malloc s = (if cs_oom s (cs_next s) then None else Some (cs_next s), s\<lparr>cs_next := cs_next s + 1\<rparr>)"

definition zero_ctrl :: nvm_ctrl_t where
  "zero_ctrl = \<lparr>ctrl_page_size = 0, ctrl_dstrd = 0, ctrl_timeout = 0, ctrl_max_qs = 0,
     ctrl_mm_size = 0, ctrl_mm_ptr = 0\<rparr>"

definition no_ops :: device_ops where
  "no_ops = \<lparr>ops_release_device = False, ops_map_range = False, ops_unmap_range = False\<rparr>"

subsection \<open>Handles\<close>

definition nvm_host_page_size :: "os \<Rightarrow> u64" where
  "nvm_host_page_size os =
     (if os_sysconf_pagesize os < 0 then 0 else word_of_int (os_sysconf_pagesize os))"

definition encode_page_size :: "u64 \<Rightarrow> u32" where
  "encode_page_size ps = nvm_b2log (ucast (drop_bit 12 ps))"

definition encode_entry_size :: "u32 \<Rightarrow> u32" where
  "encode_entry_size es = nvm_b2log es"

definition create_handle ::
  "os \<Rightarrow> nat option \<Rightarrow> device_ops option \<Rightarrow> device_type \<Rightarrow> 'a ctrl_state_scheme \<Rightarrow>
   nat option \<times> 'a ctrl_state_scheme" where
  "create_handle os dev ops type s =
     (if dev \<noteq> None \<and> (case ops of None \<Rightarrow> True | Some o' \<Rightarrow> \<not> ops_release_device o') then (None, s)
      else
        case malloc s of
          (None, s) \<Rightarrow> (None, s)
        | (Some h, s) \<Rightarrow>
            if os_mutex_init os \<noteq> 0 then (None, s)
            else (Some h, s\<lparr>cs_ctrls := (cs_ctrls s)(h \<mapsto>
              \<lparr>c_count = 1, c_type = type, c_device = dev,
               c_ops = (case ops of None \<Rightarrow> no_ops | Some o' \<Rightarrow> o'), c_handle = zero_ctrl\<rparr>)\<rparr>))"

definition remove_handle :: "nat \<Rightarrow> 'a ctrl_state_scheme \<Rightarrow> 'a ctrl_state_scheme" where
  "remove_handle h s = s\<lparr>cs_ctrls := (cs_ctrls s)(h := None)\<rparr>"

definition release_device :: "nat \<Rightarrow> nat \<Rightarrow> u64 \<Rightarrow> 'a ctrl_state_scheme \<Rightarrow> 'a ctrl_state_scheme" where
  "release_device dev mm_ptr mm_size s =
     s\<lparr>cs_mmaps := (cs_mmaps s)(mm_ptr := False),
       cs_fds := (case cs_devs s dev of None \<Rightarrow> cs_fds s | Some fd \<Rightarrow> (cs_fds s)(fd := False)),
       cs_devs := (cs_devs s)(dev := None),
       cs_released := dev # cs_released s\<rparr>"

definition nvm_ctrl_get :: "nat option \<Rightarrow> 'a ctrl_state_scheme \<Rightarrow> nat option \<times> 'a ctrl_state_scheme" where
  "nvm_ctrl_get ctrl s =
     (case ctrl of
        None \<Rightarrow> (None, s)
      | Some h \<Rightarrow>
          case cs_ctrls s h of
            None \<Rightarrow> (None, s)
          | Some c \<Rightarrow> (Some h, s\<lparr>cs_ctrls := (cs_ctrls s)(h \<mapsto> c\<lparr>c_count := c_count c + 1\<rparr>)\<rparr>))"

definition nvm_ctrl_put :: "nat option \<Rightarrow> 'a ctrl_state_scheme \<Rightarrow> 'a ctrl_state_scheme" where
  "nvm_ctrl_put ctrl s =
     (case ctrl of
        None \<Rightarrow> s
      | Some h \<Rightarrow>
          case cs_ctrls s h of
            None \<Rightarrow> s
          | Some c \<Rightarrow>
              let count = c_count c - 1;
                  c = c\<lparr>c_count := count\<rparr>;
                  s = s\<lparr>cs_ctrls := (cs_ctrls s)(h \<mapsto> c)\<rparr>
              in if count = 0 then
                   let s = (case c_device c of
                              None \<Rightarrow> s
                            | Some dev \<Rightarrow> release_device dev (ctrl_mm_ptr (c_handle c)) (ctrl_mm_size (c_handle c)) s)
                   in remove_handle h s
                 else s)"

text \<open>\<open>regs\<close> are the registers behind the address \<open>mm_ptr\<close>, \<open>None\<close> if nothing is mapped there. Reading a
  register through such an address has no defined result, and no result is what the functions then give.\<close>

definition nvm_ctrl_init_handle ::
  "os \<Rightarrow> nvm_regs option \<Rightarrow> nat option \<Rightarrow> device_ops option \<Rightarrow> device_type \<Rightarrow> nat \<Rightarrow> u64 \<Rightarrow> 'a ctrl_state_scheme \<Rightarrow>
   (rc \<times> nat option \<times> 'a ctrl_state_scheme) option" where
  "nvm_ctrl_init_handle os regs dev ops type mm_ptr mm_size s =
     (case create_handle os dev ops type s of
        (None, s) \<Rightarrow> Some (ENOMEM, None, s)
      | (Some h, s) \<Rightarrow>
          if mm_size < NVM_CTRL_MEM_MINSIZE then Some (EINVAL, None, remove_handle h s)
          else
            let page_size = nvm_host_page_size os in
            if page_size = 0 then Some (ENOMEM, None, remove_handle h s)
            else
              case regs of
                None \<Rightarrow> None
              | Some regs \<Rightarrow>
                  let host_page_size = (ucast (encode_page_size page_size) :: u8);
                      max_page_size = (ucast (CAP_MPSMAX regs) :: u8);
                      min_page_size = (ucast (CAP_MPSMIN regs) :: u8)
                  in if \<not> (min_page_size \<le> host_page_size \<and> host_page_size \<le> max_page_size)
                     then Some (ERANGE, None, remove_handle h s)
                     else
                       let ctrl = \<lparr>ctrl_page_size = page_size, ctrl_dstrd = ucast (CAP_DSTRD regs),
                                   ctrl_timeout = CAP_TO regs * 500, ctrl_max_qs = ucast (CAP_MQES regs + 1),
                                   ctrl_mm_size = mm_size, ctrl_mm_ptr = mm_ptr\<rparr>
                       in Some (0, Some h, s\<lparr>cs_ctrls := (cs_ctrls s)(h :=
                             map_option (\<lambda>c. c\<lparr>c_handle := ctrl\<rparr>) (cs_ctrls s h))\<rparr>))"

definition nvm_ctrl_free :: "nat option \<Rightarrow> 'a ctrl_state_scheme \<Rightarrow> 'a ctrl_state_scheme" where
  "nvm_ctrl_free ctrl s = nvm_ctrl_put ctrl s"

definition nvm_raw_ctrl_init ::
  "os \<Rightarrow> nvm_regs option \<Rightarrow> nat \<Rightarrow> u64 \<Rightarrow> 'a ctrl_state_scheme \<Rightarrow> (rc \<times> nat option \<times> 'a ctrl_state_scheme) option" where
  "nvm_raw_ctrl_init os regs mm_ptr mm_size s =
     nvm_ctrl_init_handle os regs None None DEVICE_TYPE_UNKNOWN mm_ptr mm_size s"

text \<open>\<open>nvm_ctrl_init\<close> opens the controller behind a file descriptor. A failing \<open>mmap\<close> maps nothing and returns
  \<open>MAP_FAILED\<close>; the code compares its result with a null pointer only.\<close>

definition MAP_FAILED :: nat where
  "MAP_FAILED = 2 ^ 64 - 1"

definition nvm_ctrl_init ::
  "os \<Rightarrow> nvm_regs \<Rightarrow> 'a ctrl_state_scheme \<Rightarrow> (rc \<times> nat option \<times> 'a ctrl_state_scheme) option" where
  "nvm_ctrl_init os regs s =
     (case malloc s of
        (None, s) \<Rightarrow> Some (ENOMEM, None, s)
      | (Some dev, s) \<Rightarrow>
          let fd = os_dup os;
              s = s\<lparr>cs_devs := (cs_devs s)(dev \<mapsto> fd)\<rparr>
          in if fd < 0 then Some (os_errno os, None, s\<lparr>cs_devs := (cs_devs s)(dev := None)\<rparr>)
          else
            let s = s\<lparr>cs_fds := (cs_fds s)(fd := True)\<rparr>;
                closed = s\<lparr>cs_fds := (cs_fds s)(fd := False), cs_devs := (cs_devs s)(dev := None)\<rparr>
            in if os_fcntl os = -1 then Some (os_errno os, None, closed)
               else if os_mmap os = 0 then Some (os_errno os, None, closed)
               else
                 let mapped = (os_mmap os \<noteq> MAP_FAILED);
                     s = (if mapped then s\<lparr>cs_mmaps := (cs_mmaps s)(os_mmap os := True)\<rparr> else s)
                 in case nvm_ctrl_init_handle os (if mapped then Some regs else None) (Some dev)
                        (Some \<lparr>ops_release_device = True, ops_map_range = True, ops_unmap_range = True\<rparr>)
                        DEVICE_TYPE_IOCTL (os_mmap os) NVM_CTRL_MEM_MINSIZE s of
                      None \<Rightarrow> None
                    | Some (err, h, s) \<Rightarrow>
                        if err \<noteq> 0 then Some (err, None, release_device dev (os_mmap os) NVM_CTRL_MEM_MINSIZE s)
                        else Some (0, h, s))"

subsection \<open>Reset\<close>

datatype reg_write = W_CC u32 | W_AQA u32 | W_ACQ u64 | W_ASQ u64

text \<open>The status register as the controller presents it at the \<open>t\<close>-th read.\<close>

function wait_rdy :: "(nat \<Rightarrow> u32) \<Rightarrow> u64 \<Rightarrow> nat \<Rightarrow> u64 \<Rightarrow> rc \<times> nat" where
  "wait_rdy csts want t remaining =
     (if RB (ucast (csts t)) 0 0 \<noteq> want then
        if remaining = 0 then (ETIME, t + 1)
        else wait_rdy csts want (t + 1) (nvm_delay_remain remaining)
      else (0, t + 1))"
  by pat_completeness auto
termination
  by (relation "measure (\<lambda>(_, _, _, remaining). unat remaining)") (auto simp: nvm_delay_remain_le unat_gt_0)

declare wait_rdy.simps [simp del]

definition reset_cc :: "u64 \<Rightarrow> u64" where
  "reset_cc page_size =
     CC_IOCQES (ucast (encode_entry_size 16)) OR CC_IOSQES (ucast (encode_entry_size 64)) OR
     CC_MPS (ucast (encode_page_size page_size)) OR CC_CSS 0 OR CC_EN 1"

definition reset_aqa :: "u64 \<Rightarrow> u64" where
  "reset_aqa page_size =
     (let cq_max_entries = (ucast (page_size div 16 - 1) :: u32);
          sq_max_entries = (ucast (page_size div 64 - 1) :: u32)
      in AQA_ACQS (ucast cq_max_entries) OR AQA_ASQS (ucast sq_max_entries))"

definition nvm_raw_ctrl_reset ::
  "nvm_ctrl_t \<Rightarrow> u32 \<Rightarrow> (nat \<Rightarrow> u32) \<Rightarrow> u64 \<Rightarrow> u64 \<Rightarrow> rc \<times> reg_write list" where
  "nvm_raw_ctrl_reset ctrl cc csts acq_addr asq_addr =
     (let w1 = [W_CC (cc AND NOT 1)];
          tmo = ctrl_timeout ctrl * 1000000;
          (err, t) = wait_rdy csts 0 0 (nvm_delay_remain tmo)
      in if err \<noteq> 0 then (err, w1)
         else
           let w2 = w1 @ [W_AQA (ucast (reset_aqa (ctrl_page_size ctrl))), W_ACQ acq_addr, W_ASQ asq_addr,
                          W_CC (ucast (reset_cc (ctrl_page_size ctrl)))];
               (err, _) = wait_rdy csts 1 t (nvm_delay_remain tmo)
           in (err, w2))"

subsection \<open>Reference counting\<close>

definition ctrl_count :: "nat \<Rightarrow> 'a ctrl_state_scheme \<Rightarrow> nat option" where
  "ctrl_count h s = map_option (\<lambda>c. unat (c_count c)) (cs_ctrls s h)"

definition ctrl_live :: "nat \<Rightarrow> nat \<Rightarrow> 'a ctrl_state_scheme \<Rightarrow> bool" where
  "ctrl_live h dev s \<longleftrightarrow> (\<exists>c. cs_ctrls s h = Some c \<and> c_device c = Some dev \<and> 0 < unat (c_count c))"

lemma u32_dec: "unat (c :: u32) = Suc n \<Longrightarrow> unat (c - 1) = n"
  by (subst unat_minus_1) simp_all

interpretation ctrl_rc: refcounted
  "\<lambda>s. snd (nvm_ctrl_get (Some h) s)" "nvm_ctrl_put (Some h)" "ctrl_count h"
  "\<lambda>s. count_list (cs_released s) dev" "ctrl_live h dev" "2 ^ 32 - 1"
proof
  fix s :: "'a ctrl_state_scheme" and n
  assume live: "ctrl_live h dev s"
  then obtain c where c: "cs_ctrls s h = Some c" "c_device c = Some dev" "0 < unat (c_count c)"
    by (auto simp: ctrl_live_def)
  show "ctrl_count h (snd (nvm_ctrl_get (Some h) s)) = Some (Suc n)"
    if "ctrl_count h s = Some n" "0 < n" "n < 2 ^ 32 - 1"
    using that c by (simp add: nvm_ctrl_get_def ctrl_count_def unat_add_no_wrap)
  show "count_list (cs_released (snd (nvm_ctrl_get (Some h) s))) dev = count_list (cs_released s) dev"
    using c by (simp add: nvm_ctrl_get_def)
  show "ctrl_live h dev (snd (nvm_ctrl_get (Some h) s))"
    if "ctrl_count h s = Some n" "0 < n" "n < 2 ^ 32 - 1"
    using that c by (simp add: nvm_ctrl_get_def ctrl_live_def ctrl_count_def unat_add_no_wrap)
  show "ctrl_count h (nvm_ctrl_put (Some h) s) = None \<and>
      count_list (cs_released (nvm_ctrl_put (Some h) s)) dev = Suc (count_list (cs_released s) dev)"
    if "ctrl_count h s = Some 1"
  proof -
    have "c_count c = 1"
      using that c by (simp add: ctrl_count_def word_unat_eq_iff)
    then show ?thesis
      using c by (simp add: nvm_ctrl_put_def ctrl_count_def remove_handle_def release_device_def Let_def)
  qed
  show "ctrl_count h (nvm_ctrl_put (Some h) s) = Some (Suc n) \<and>
      count_list (cs_released (nvm_ctrl_put (Some h) s)) dev = count_list (cs_released s) dev \<and>
      ctrl_live h dev (nvm_ctrl_put (Some h) s)"
    if "ctrl_count h s = Some (Suc (Suc n))"
  proof -
    have "unat (c_count c - 1) = Suc n"
      using that c by (intro u32_dec) (simp add: ctrl_count_def)
    moreover from this have "c_count c - 1 \<noteq> 0"
      by (metis nat.distinct(1) unsigned_0)
    ultimately show ?thesis
      using c by (simp add: nvm_ctrl_put_def ctrl_count_def ctrl_live_def Let_def)
  qed
qed

subsection \<open>Properties\<close>

text \<open>C16: Counting controller references: whatever gets and puts follow the creation
  of a handle, as long as none follows the put that drops the last reference, the handle
  exists with the number of outstanding references as its count, and its device is
  released exactly once, by the put that drops the last one.\<close>

theorem nvm_ctrl_refcount:
  assumes "cs_ctrls s h = Some c" "c_device c = Some dev" "c_count c = 1"
    and "rc_spec 1 ops = Some m" "length ops < 2 ^ 32 - 1"
  shows "let s' = rc_run (\<lambda>s. snd (nvm_ctrl_get (Some h) s)) (nvm_ctrl_put (Some h)) ops s in
    ctrl_count h s' = (if m = 0 then None else Some m) \<and>
    count_list (cs_released s') dev = count_list (cs_released s) dev + (if m = 0 then 1 else 0)"
proof -
  have "ctrl_live h dev s" "ctrl_count h s = Some 1"
    using assms(1-3) by (simp_all add: ctrl_live_def ctrl_count_def)
  then show ?thesis
    using ctrl_rc.rc_run_correct[of h dev s 1 ops m] assms(4,5) by (simp add: Let_def)
qed

definition example_state :: ctrl_state where
  "example_state = \<lparr>cs_ctrls = (\<lambda>_. None), cs_devs = (\<lambda>_. None), cs_fds = (\<lambda>_. False),
     cs_mmaps = (\<lambda>_. False), cs_released = [], cs_next = 1, cs_oom = (\<lambda>_. False)\<rparr>"

theorem nvm_ctrl_refcount_witness:
  "let s = example_state\<lparr>cs_ctrls := [7 \<mapsto> \<lparr>c_count = 1, c_type = DEVICE_TYPE_IOCTL, c_device = Some 3,
         c_ops = no_ops, c_handle = zero_ctrl\<rparr>]\<rparr>;
       s' = rc_run (\<lambda>s. snd (nvm_ctrl_get (Some 7) s)) (nvm_ctrl_put (Some 7)) [True, False, False] s
   in ctrl_count 7 s' = None \<and> count_list (cs_released s') 3 = 1"
  using nvm_ctrl_refcount[of "example_state\<lparr>cs_ctrls := [7 \<mapsto> \<lparr>c_count = 1, c_type = DEVICE_TYPE_IOCTL, c_device = Some 3,
         c_ops = no_ops, c_handle = zero_ctrl\<rparr>]\<rparr>" 7 _ 3 "[True, False, False]" 0]
  by (simp add: Let_def example_state_def)

lemma create_handle_cases:
  "create_handle os dev ops type s = (r, s') \<Longrightarrow>
   (r = None \<and> (\<exists>n. s' = s\<lparr>cs_next := n\<rparr>)) \<or>
   (r = Some (cs_next s) \<and> s' = s\<lparr>cs_next := cs_next s + 1, cs_ctrls := (cs_ctrls s)(cs_next s \<mapsto>
      \<lparr>c_count = 1, c_type = type, c_device = dev,
       c_ops = (case ops of None \<Rightarrow> no_ops | Some o' \<Rightarrow> o'), c_handle = zero_ctrl\<rparr>)\<rparr>)"
  by (auto simp: create_handle_def malloc_def split: if_splits) (metis ctrl_state.surjective ctrl_state.update_convs(6))

lemma nvm_b2log_power:
  assumes "k < 32"
  shows "nvm_b2log (2 ^ k) = of_nat k"
proof -
  have p: "unat (2 ^ k :: u32) = 2 ^ k"
    using assms by (simp add: unat_power2)
  then have "(0 :: u32) < 2 ^ k"
    by (simp add: word_less_nat_alt)
  from nvm_b2log_spec[OF this] have "(2::nat) ^ unat (nvm_b2log (2 ^ k)) \<le> 2 ^ k"
    "(2::nat) ^ k < 2 ^ Suc (unat (nvm_b2log (2 ^ k)))"
    unfolding p by auto
  then have "unat (nvm_b2log (2 ^ k)) = k"
    by (simp add: power_increasing_iff power_strict_increasing_iff del: power_Suc)
  then show ?thesis
    using assms by (simp add: word_unat_eq_iff unat_of_nat take_bit_eq_mod)
qed

text \<open>What the handle says of the registers and of the host.\<close>

definition handle_of_regs :: "os \<Rightarrow> nvm_regs \<Rightarrow> nat \<Rightarrow> u64 \<Rightarrow> nvm_ctrl_t \<Rightarrow> bool" where
  "handle_of_regs os regs mm_ptr mm_size ctrl \<longleftrightarrow>
     int (unat (ctrl_page_size ctrl)) = os_sysconf_pagesize os mod 2 ^ 64 \<and> ctrl_page_size ctrl \<noteq> 0 \<and>
     unat (ctrl_max_qs ctrl) = unat (CAP regs) mod 2 ^ 16 + 1 \<and>
     unat (ctrl_timeout ctrl) = unat (CAP regs) div 2 ^ 24 mod 2 ^ 8 * 500 \<and>
     unat (ctrl_dstrd ctrl) = unat (CAP regs) div 2 ^ 32 mod 2 ^ 4 \<and>
     unat (CAP regs) div 2 ^ 48 mod 2 ^ 4 \<le> unat (ucast (encode_page_size (ctrl_page_size ctrl)) :: u8) \<and>
     unat (ucast (encode_page_size (ctrl_page_size ctrl)) :: u8) \<le> unat (CAP regs) div 2 ^ 52 mod 2 ^ 4 \<and>
     ctrl_mm_ptr ctrl = mm_ptr \<and> ctrl_mm_size ctrl = mm_size"

lemma small_mod:
  fixes x :: nat
  shows "x < 256 \<Longrightarrow> x * 500 mod 2 ^ 64 = x * 500" "x < 65536 \<Longrightarrow> (x + 1) mod 2 ^ 64 mod 2 ^ 32 = x + 1"
    "x < 16 \<Longrightarrow> x mod 2 ^ 8 = x"
  by simp_all

lemma CAP_fields:
  "unat (ucast (CAP_MQES regs + 1) :: u32) = unat (CAP regs) mod 2 ^ 16 + 1"
  "unat (CAP_TO regs * 500) = unat (CAP regs) div 2 ^ 24 mod 2 ^ 8 * 500"
  "unat (ucast (CAP_DSTRD regs) :: u8) = unat (CAP regs) div 2 ^ 32 mod 2 ^ 4"
  "unat (ucast (CAP_MPSMIN regs) :: u8) = unat (CAP regs) div 2 ^ 48 mod 2 ^ 4"
  "unat (ucast (CAP_MPSMAX regs) :: u8) = unat (CAP regs) div 2 ^ 52 mod 2 ^ 4"
proof -
  show "unat (ucast (CAP_MQES regs + 1) :: u32) = unat (CAP regs) mod 2 ^ 16 + 1"
    using small_mod(2)[of "unat (CAP regs) mod 2 ^ 16"]
    by (simp add: unat_ucast_mod unat_word_ariths CAP_MQES_def unat_RB del: One_nat_def)
  show "unat (CAP_TO regs * 500) = unat (CAP regs) div 2 ^ 24 mod 2 ^ 8 * 500"
    using small_mod(1)[of "unat (CAP regs) div 2 ^ 24 mod 2 ^ 8"]
    by (simp add: unat_word_ariths CAP_TO_def unat_RB)
qed (simp_all add: unat_ucast_mod CAP_DSTRD_def CAP_MPSMIN_def CAP_MPSMAX_def unat_RB small_mod)

lemma init_handle_unmapped:
  assumes "cs_ctrls s (cs_next s) = None"
  shows "nvm_ctrl_init_handle os None dev ops type mm_ptr mm_size s = None \<or>
    (\<exists>err n. err \<noteq> 0 \<and> nvm_ctrl_init_handle os None dev ops type mm_ptr mm_size s = Some (err, None, s\<lparr>cs_next := n\<rparr>))"
proof (cases "create_handle os dev ops type s")
  case (Pair h s1)
  have undo: "(cs_ctrls s)(cs_next s := None) = cs_ctrls s"
    using assms by auto
  show ?thesis
    using create_handle_cases[OF Pair]
    by (cases h) (auto simp: Pair nvm_ctrl_init_handle_def remove_handle_def undo Let_def)
qed

lemma nvm_ctrl_init_handle_cases:
  assumes "nvm_ctrl_init_handle os (Some regs) dev ops type mm_ptr mm_size s = res"
    and "cs_ctrls s (cs_next s) = None"
  obtains (fail) err n where "err \<noteq> 0" "res = Some (err, None, s\<lparr>cs_next := n\<rparr>)"
  | (success) c where "res = Some (0, Some (cs_next s), s\<lparr>cs_next := cs_next s + 1, cs_ctrls := (cs_ctrls s)(cs_next s \<mapsto> c)\<rparr>)"
      "c_count c = 1" "c_device c = dev" "c_type c = type" "c_ops c = (case ops of None \<Rightarrow> no_ops | Some o' \<Rightarrow> o')"
      "handle_of_regs os regs mm_ptr mm_size (c_handle c)"
proof (cases "create_handle os dev ops type s")
  case (Pair h s1)
  show ?thesis
  proof (cases h)
    case None
    then obtain n where "s1 = s\<lparr>cs_next := n\<rparr>"
      using create_handle_cases[OF Pair] by blast
    then show ?thesis
      using fail[of ENOMEM n] assms(1) Pair None by (auto simp: nvm_ctrl_init_handle_def)
  next
    case (Some a)
    have undo: "(cs_ctrls s)(cs_next s := None) = cs_ctrls s"
      using assms(2) by auto
    let ?c = "\<lparr>c_count = 1, c_type = type, c_device = dev, c_ops = (case ops of None \<Rightarrow> no_ops | Some o' \<Rightarrow> o'), c_handle = zero_ctrl\<rparr>"
    have s1: "a = cs_next s" "s1 = s\<lparr>cs_next := cs_next s + 1, cs_ctrls := (cs_ctrls s)(cs_next s \<mapsto> ?c)\<rparr>"
      using create_handle_cases[OF Pair] Some by auto
    let ?p = "nvm_host_page_size os" and ?min = "ucast (CAP_MPSMIN regs) :: u8" and ?max = "ucast (CAP_MPSMAX regs) :: u8"
    let ?e = "ucast (encode_page_size (nvm_host_page_size os)) :: u8"
    have removed: "remove_handle a s1 = s\<lparr>cs_next := cs_next s + 1\<rparr>"
      by (simp add: s1 remove_handle_def undo)
    show ?thesis
    proof (cases "mm_size < NVM_CTRL_MEM_MINSIZE \<or> ?p = 0 \<or> \<not> (?min \<le> ?e \<and> ?e \<le> ?max)")
      case True
      then obtain err where "err \<noteq> 0" "res = Some (err, None, s\<lparr>cs_next := cs_next s + 1\<rparr>)"
        using assms(1) Pair Some removed unfolding nvm_ctrl_init_handle_def by (auto simp: Let_def split: if_splits)
      then show ?thesis
        by (rule fail)
    next
      case False
      let ?ctrl = "\<lparr>ctrl_page_size = ?p, ctrl_dstrd = ucast (CAP_DSTRD regs), ctrl_timeout = CAP_TO regs * 500,
          ctrl_max_qs = ucast (CAP_MQES regs + 1), ctrl_mm_size = mm_size, ctrl_mm_ptr = mm_ptr\<rparr>"
      have "handle_of_regs os regs mm_ptr mm_size ?ctrl"
        using False by (auto simp: handle_of_regs_def CAP_fields word_le_nat_alt nvm_host_page_size_def unsigned_of_int take_bit_eq_mod split: if_splits)
      then show ?thesis
        using success[of "?c\<lparr>c_handle := ?ctrl\<rparr>"] assms(1) Pair Some False
        by (auto simp: nvm_ctrl_init_handle_def s1 Let_def)
    qed
  qed
qed

text \<open>C18: Opening a controller either gives a handle that holds one reference to an
  open device and says what the capability register says: the number of queue entries (one more than the
  zero-based field), the doorbell stride, the timeout in milliseconds and the host's page size, which lies
  between the smallest and the largest the controller supports; or it reports an error and undoes
  everything: no handle, device, descriptor or register mapping stays behind on any of
  the error paths. Only a failed \<open>mmap\<close> leaves it without a defined result.\<close>

theorem nvm_ctrl_init_all_or_nothing:
  assumes "\<forall>a\<ge>cs_next s. cs_ctrls s a = None \<and> cs_devs s a = None"
    and "\<not> cs_fds s (os_dup os)" "\<not> cs_mmaps s (os_mmap os)" "os_errno os \<noteq> 0"
  shows "case nvm_ctrl_init os regs s of
      None \<Rightarrow> os_mmap os = MAP_FAILED
    | Some (err, r, s') \<Rightarrow>
        if err = 0 then
          \<exists>a c. r = Some a \<and> cs_ctrls s' = (cs_ctrls s)(a \<mapsto> c) \<and> cs_ctrls s a = None \<and>
            c_count c = 1 \<and> c_device c = Some (cs_next s) \<and> c_type c = DEVICE_TYPE_IOCTL \<and>
            c_ops c = \<lparr>ops_release_device = True, ops_map_range = True, ops_unmap_range = True\<rparr> \<and>
            cs_devs s' = (cs_devs s)(cs_next s \<mapsto> os_dup os) \<and> cs_fds s' = (cs_fds s)(os_dup os := True) \<and>
            os_mmap os \<noteq> MAP_FAILED \<and> cs_mmaps s' = (cs_mmaps s)(os_mmap os := True) \<and>
            handle_of_regs os regs (os_mmap os) NVM_CTRL_MEM_MINSIZE (c_handle c)
        else r = None \<and> cs_ctrls s' = cs_ctrls s \<and> cs_devs s' = cs_devs s \<and> cs_fds s' = cs_fds s \<and>
          cs_mmaps s' = cs_mmaps s"
proof (cases "cs_oom s (cs_next s) \<or> os_dup os < 0 \<or> os_fcntl os = -1 \<or> os_mmap os = 0")
  case True
  then show ?thesis
    using assms by (auto simp: nvm_ctrl_init_def malloc_def Let_def fun_eq_iff)
next
  case early: False
  let ?n = "cs_next s" and ?ops = "\<lparr>ops_release_device = True, ops_map_range = True, ops_unmap_range = True\<rparr>"
  have undo: "(cs_devs s)(?n := None) = cs_devs s" "(cs_fds s)(os_dup os := False) = cs_fds s"
    "(cs_mmaps s)(os_mmap os := False) = cs_mmaps s"
    using assms by (auto simp: fun_eq_iff)
  show ?thesis
  proof (cases "os_mmap os = MAP_FAILED")
    case True
    let ?s = "s\<lparr>cs_next := ?n + 1, cs_devs := (cs_devs s)(?n \<mapsto> os_dup os), cs_fds := (cs_fds s)(os_dup os := True)\<rparr>"
    have "nvm_ctrl_init_handle os None (Some ?n) (Some ?ops) DEVICE_TYPE_IOCTL (os_mmap os) NVM_CTRL_MEM_MINSIZE ?s = None \<or>
        (\<exists>err n. err \<noteq> 0 \<and> nvm_ctrl_init_handle os None (Some ?n) (Some ?ops) DEVICE_TYPE_IOCTL (os_mmap os) NVM_CTRL_MEM_MINSIZE ?s =
          Some (err, None, ?s\<lparr>cs_next := n\<rparr>))"
      using assms(1) by (intro init_handle_unmapped) simp
    then show ?thesis
      using early True undo by (auto simp: nvm_ctrl_init_def malloc_def Let_def release_device_def)
  next
    case False
    let ?s = "s\<lparr>cs_next := ?n + 1, cs_devs := (cs_devs s)(?n \<mapsto> os_dup os), cs_fds := (cs_fds s)(os_dup os := True),
        cs_mmaps := (cs_mmaps s)(os_mmap os := True)\<rparr>"
    have fresh: "cs_ctrls ?s (cs_next ?s) = None"
      using assms(1) by simp
    show ?thesis
      using early False undo fresh
      by (cases rule: nvm_ctrl_init_handle_cases[OF refl fresh, of os regs "Some ?n" "Some ?ops" DEVICE_TYPE_IOCTL
            "os_mmap os" NVM_CTRL_MEM_MINSIZE])
        (auto simp: nvm_ctrl_init_def malloc_def Let_def release_device_def)
  qed
qed

definition example_os :: os where
  "example_os = \<lparr>os_sysconf_pagesize = 4096, os_mutex_init = 0, os_dup = 5, os_fcntl = 0,
     os_mmap = 0x7000, os_errno = ENOMEM\<rparr>"

definition example_regs :: nvm_regs where
  "example_regs = \<lparr>CAP = 0x0040000120FF03FF, VER = 0, CC = 0, CSTS = 0, AQA = 0, ASQ = 0, ACQ = 0\<rparr>"

theorem nvm_ctrl_init_all_or_nothing_witness:
  "(case nvm_ctrl_init example_os example_regs example_state of
      Some (err, Some a, s') \<Rightarrow> err = 0 \<and> cs_fds s' 5 \<and> (\<exists>c. cs_ctrls s' a = Some c \<and> unat (ctrl_max_qs (c_handle c)) = 1024 \<and>
        unat (ctrl_timeout (c_handle c)) = 16000 \<and> unat (ctrl_dstrd (c_handle c)) = 1)
    | _ \<Rightarrow> False) \<and>
   (case nvm_ctrl_init (example_os\<lparr>os_mutex_init := EAGAIN\<rparr>) example_regs example_state of
      Some (err, r, s') \<Rightarrow> err = ENOMEM \<and> r = None \<and> cs_fds s' = cs_fds example_state
    | None \<Rightarrow> False)"
proof -
  have "encode_page_size 4096 = 0"
    using nvm_b2log_power[of 0] by (simp add: encode_page_size_def)
  then have "case nvm_ctrl_init example_os example_regs example_state of Some (err, r, s') \<Rightarrow> err = 0 | None \<Rightarrow> False"
    by (simp add: example_state_def example_os_def nvm_ctrl_init_def nvm_ctrl_init_handle_def create_handle_def
      malloc_def Let_def MAP_FAILED_def nvm_host_page_size_def NVM_CTRL_MEM_MINSIZE_def example_regs_def CAP_MPSMIN_def
      CAP_MPSMAX_def RB_eq)
  moreover have "case nvm_ctrl_init (example_os\<lparr>os_mutex_init := EAGAIN\<rparr>) example_regs example_state of
      Some (err, r, s') \<Rightarrow> err = ENOMEM | None \<Rightarrow> False"
    by (simp add: example_state_def example_os_def nvm_ctrl_init_def nvm_ctrl_init_handle_def create_handle_def
      malloc_def Let_def MAP_FAILED_def)
  moreover have "\<forall>a\<ge>cs_next example_state. cs_ctrls example_state a = None \<and> cs_devs example_state a = None"
    "\<not> cs_fds example_state x" "\<not> cs_mmaps example_state y" for x y
    by (simp_all add: example_state_def)
  moreover have "os_errno example_os \<noteq> 0" "os_dup example_os = 5" "os_mmap example_os \<noteq> MAP_FAILED"
    by (simp_all add: example_os_def MAP_FAILED_def)
  ultimately show ?thesis
    using nvm_ctrl_init_all_or_nothing[of example_state example_os example_regs]
      nvm_ctrl_init_all_or_nothing[of example_state "example_os\<lparr>os_mutex_init := EAGAIN\<rparr>" example_regs]
    by (auto simp: handle_of_regs_def example_regs_def split: option.splits prod.splits)
qed

text \<open>Nothing stops \<open>nvm_ctrl_init\<close> when the registers cannot be mapped: it goes on to read them through the
  address \<open>MAP_FAILED\<close>.\<close>

lemma nvm_ctrl_init_map_failed:
  "nvm_ctrl_init (example_os\<lparr>os_mmap := MAP_FAILED\<rparr>) regs example_state = None"
  by (simp add: example_state_def example_os_def nvm_ctrl_init_def nvm_ctrl_init_handle_def create_handle_def
      malloc_def Let_def MAP_FAILED_def nvm_host_page_size_def NVM_CTRL_MEM_MINSIZE_def)

subsection \<open>Reset\<close>

lemma wait_rdy_result:
  "wait_rdy csts want t r = (err, t') \<Longrightarrow>
   (err = 0 \<and> t < t' \<and> RB (ucast (csts (t' - 1))) 0 0 = want) \<or>
   (err = ETIME \<and> (\<forall>i. t \<le> i \<and> i < t' \<longrightarrow> RB (ucast (csts i)) 0 0 \<noteq> want))"
proof (induction csts want t r rule: wait_rdy.induct)
  case (1 csts want t r)
  show ?case
  proof (cases "RB (ucast (csts t)) 0 0 \<noteq> want \<and> r \<noteq> 0")
    case True
    then have w: "wait_rdy csts want (t + 1) (nvm_delay_remain r) = (err, t')"
      using "1.prems" by (subst (asm) wait_rdy.simps) simp
    have "(err = 0 \<and> t + 1 < t' \<and> RB (ucast (csts (t' - 1))) 0 0 = want) \<or>
        (err = ETIME \<and> (\<forall>i. t + 1 \<le> i \<and> i < t' \<longrightarrow> RB (ucast (csts i)) 0 0 \<noteq> want))"
      using "1.IH" True w by blast
    moreover have "i = t \<or> t + 1 \<le> i" if "t \<le> i" for i
      using that by auto
    ultimately show ?thesis
      using True by auto
  next
    case False
    then show ?thesis
      using "1.prems" by (subst (asm) wait_rdy.simps) (auto split: if_splits simp: le_antisym dest: less_Suc_eq_le[THEN iffD1])
  qed
qed

lemma wait_rdy_in_time:
  assumes "RB (ucast (csts (t + j))) 0 0 = want" "j * 1000000 < unat r + 1000000"
  shows "fst (wait_rdy csts want t r) = 0"
  using assms
proof (induction j arbitrary: t r)
  case 0
  then show ?case by (simp add: wait_rdy.simps)
next
  case (Suc j)
  have "r \<noteq> 0" using Suc.prems(2) by auto
  moreover have "fst (wait_rdy csts want (t + 1) (nvm_delay_remain r)) = 0"
    using Suc.prems by (intro Suc.IH) (simp_all add: nvm_delay_remain_le)
  ultimately show ?case
    by (simp add: wait_rdy.simps[of csts want t])
qed

text \<open>C19: A reset programs the controller in the order the specification asks for: the
  queue attributes and both admin queue addresses are written after the controller has
  been disabled and seen not ready, and before it is enabled, with nothing written in
  between; a reset that fails does so by timing out, and one that times out on the way
  down never enables the controller.\<close>

theorem nvm_raw_ctrl_reset_order:
  "case nvm_raw_ctrl_reset ctrl cc csts acq asq of (err, ws) \<Rightarrow>
     (ws = [W_CC (cc AND NOT 1)] \<and> err = ETIME \<or>
      ws = [W_CC (cc AND NOT 1), W_AQA (ucast (reset_aqa (ctrl_page_size ctrl))), W_ACQ acq, W_ASQ asq,
            W_CC (ucast (reset_cc (ctrl_page_size ctrl)))] \<and>
      (\<exists>t. RB (ucast (csts t)) 0 0 = 0 \<and> (err = 0 \<and> (\<exists>t'>t. RB (ucast (csts t')) 0 0 = 1) \<or> err = ETIME)))"
proof -
  obtain e1 t1 where w1: "wait_rdy csts 0 0 (nvm_delay_remain (ctrl_timeout ctrl * 1000000)) = (e1, t1)"
    by fastforce
  obtain e2 t2 where w2: "wait_rdy csts 1 t1 (nvm_delay_remain (ctrl_timeout ctrl * 1000000)) = (e2, t2)"
    by fastforce
  show ?thesis
  proof (cases "e1 = 0")
    case True
    then have "RB (ucast (csts (t1 - 1))) 0 0 = 0" "0 < t1"
      using wait_rdy_result[OF w1] by auto
    moreover have "e2 = 0 \<and> (\<exists>t'>t1 - 1. RB (ucast (csts t')) 0 0 = 1) \<or> e2 = ETIME"
      using wait_rdy_result[OF w2] \<open>0 < t1\<close> by (metis One_nat_def Suc_pred diff_Suc_less less_imp_diff_less less_trans linorder_not_less not_less_eq order_less_le_trans)
    ultimately show ?thesis
      using True w1 w2 by (auto simp: nvm_raw_ctrl_reset_def Let_def)
  next
    case False
    then show ?thesis
      using wait_rdy_result[OF w1] w1 by (auto simp: nvm_raw_ctrl_reset_def Let_def)
  qed
qed

text \<open>C20: For a memory page of \<open>2^(12+k)\<close> bytes, up to 64 KiB, the reset announces admin
  queues of exactly one page (both sizes are zero-based), entries of 16 and 64 bytes, the
  page size itself and the enable bit.\<close>

theorem nvm_raw_ctrl_reset_fields:
  assumes "k \<le> 4" "ps = 2 ^ (12 + k)"
  shows "RB (reset_cc ps) 23 20 = 4 \<and> RB (reset_cc ps) 19 16 = 6 \<and> RB (reset_cc ps) 10 7 = of_nat k \<and>
    RB (reset_cc ps) 0 0 = 1 \<and>
    16 * (unat (RB (reset_aqa ps) 27 16) + 1) = unat ps \<and> 64 * (unat (RB (reset_aqa ps) 11 0) + 1) = unat ps"
proof -
  have b: "nvm_b2log 1 = 0" "nvm_b2log 2 = 1" "nvm_b2log 4 = 2" "nvm_b2log 8 = 3" "nvm_b2log 16 = 4" "nvm_b2log 64 = 6"
    using nvm_b2log_power[of 0] nvm_b2log_power[of 1] nvm_b2log_power[of 2] nvm_b2log_power[of 3]
      nvm_b2log_power[of 4] nvm_b2log_power[of 6] by simp_all
  consider "k = 0" | "k = 1" | "k = 2" | "k = 3" | "k = 4"
    using assms(1) by linarith
  then show ?thesis
    using assms(2)
    by cases (simp_all add: b reset_cc_def reset_aqa_def CC_IOCQES_def CC_IOSQES_def CC_MPS_def CC_CSS_def CC_EN_def
        AQA_ACQS_def AQA_ASQS_def encode_page_size_def encode_entry_size_def WB_def RB_def NVM_MASK_PART_def
        NVM_MASK_def Let_def)
qed

theorem nvm_raw_ctrl_reset_fields_witness:
  "RB (reset_cc 4096) 10 7 = 0 \<and> 16 * (unat (RB (reset_aqa 4096) 27 16) + 1) = 4096"
  using nvm_raw_ctrl_reset_fields[of 0 4096] by simp

end
