(* ===== verification/Dma.thy ===== *)
theory Dma
  imports Ctrl
begin

text \<open>
  DMA mappings: the reference counted mapping descriptors and handles of \<open>src/dma.cpp\<close>, and
  the Linux side of \<open>src/linux/dma.cpp\<close> and \<open>src/linux/device.cpp\<close> that allocates
  buffers and asks the kernel module to map them.

  The state extends that of the controller by the heap objects of these files and by the
  set of addresses the kernel currently has mapped. An address range is stored with the
  mapping descriptor around it, if it has one (\<open>nvm_dma_map\<close> makes a bare range). The
  answers of the \<open>ioctl\<close> calls are a parameter.
\<close>

subsection \<open>State\<close>

datatype mapping_type = MAP_TYPE_CUDA | MAP_TYPE_HOST | MAP_TYPE_API

datatype nvm_ioctl_type =
  NVM_MAP_HOST_MEMORY | NVM_MAP_DEVICE_MEMORY | NVM_UNMAP_MEMORY | NVM_QUERY_DEVICE_PHYS_ADDRS

record va_range =
  va_remote :: bool
  va_vaddr :: nat
  va_page_size :: nat
  va_n_pages :: nat

record ioctl_mapping =
  im_type :: mapping_type
  im_buffer :: nat
  im_range :: va_range

datatype va_object = Bare va_range | Mapping ioctl_mapping

primrec range_of :: "va_object \<Rightarrow> va_range" where
  "range_of (Bare va) = va"
| "range_of (Mapping md) = im_range md"

record nvm_dma_t =
  dma_vaddr :: nat
  dma_local :: bool
  dma_contiguous :: bool
  dma_page_size :: nat
  dma_n_ioaddrs :: nat
  dma_ioaddrs :: "u64 list"

record dmap =
  m_count :: u32
  m_ctrl :: nat
  m_va :: nat
  m_unmap :: bool

record container =
  d_map :: nat
  d_handle :: nvm_dma_t

record dma_state = ctrl_state +
  ds_vas :: "nat \<Rightarrow> va_object option"
  ds_buffers :: "nat \<Rightarrow> bool"
  ds_maps :: "nat \<Rightarrow> dmap option"
  ds_conts :: "nat \<Rightarrow> container option"
  ds_kmaps :: "nat \<Rightarrow> bool"
  ds_va_released :: "nat list"

text \<open>The kernel's answer to a map request: a negative number, or the bus addresses of
  the pages.\<close>

record kern =
  k_map :: "nvm_ioctl_type \<Rightarrow> nat \<Rightarrow> nat \<Rightarrow> int \<times> u64 list"
  k_memalign :: rc

subsection \<open>Mapping descriptors\<close>

definition n_ctrl_pages :: "nvm_ctrl_t \<Rightarrow> nat \<Rightarrow> nat \<Rightarrow> nat" where
  "n_ctrl_pages ctrl page_size n_pages = (page_size * n_pages) div unat (ctrl_page_size ctrl)"

definition create_map ::
  "os \<Rightarrow> nat \<Rightarrow> nat \<Rightarrow> 'a dma_state_scheme \<Rightarrow> rc \<times> nat option \<times> 'a dma_state_scheme" where
  "create_map os ctrl va s =
     (case nvm_ctrl_get (Some ctrl) s of
        (None, s) \<Rightarrow> (ENOSPC, None, s)
      | (Some ref, s) \<Rightarrow>
          case malloc s of
            (None, s) \<Rightarrow> (ENOMEM, None, nvm_ctrl_put (Some ref) s)
          | (Some m, s) \<Rightarrow>
              if os_mutex_init os \<noteq> 0 then (os_mutex_init os, None, nvm_ctrl_put (Some ref) s)
              else (0, Some m, s\<lparr>ds_maps := (ds_maps s)(m \<mapsto>
                     \<lparr>m_count = 1, m_ctrl = ref, m_va = va, m_unmap = False\<rparr>)\<rparr>))"

definition remove_map :: "nat \<Rightarrow> 'a dma_state_scheme \<Rightarrow> 'a dma_state_scheme" where
  "remove_map md s =
     (case ds_maps s md of
        None \<Rightarrow> s
      | Some m \<Rightarrow> (nvm_ctrl_put (Some (m_ctrl m)) s)\<lparr>ds_maps := (ds_maps s)(md := None)\<rparr>)"

definition page_ioaddr :: "nat \<Rightarrow> nat \<Rightarrow> u64 list \<Rightarrow> nat \<Rightarrow> u64" where
  "page_ioaddr ctrl_page page_size ioaddrs i =
     (let current_page = (i * ctrl_page) div page_size;
          offset_within_page = (i * ctrl_page) mod page_size
      in ioaddrs ! current_page + of_nat offset_within_page)"

definition populate_handle :: "nvm_dma_t \<Rightarrow> va_range \<Rightarrow> nvm_ctrl_t \<Rightarrow> u64 list \<Rightarrow> nvm_dma_t" where
  "populate_handle handle va ctrl ioaddrs =
     (let ps = unat (ctrl_page_size ctrl);
          n = n_ctrl_pages ctrl (va_page_size va) (va_n_pages va);
          addrs = map (page_ioaddr ps (va_page_size va) ioaddrs) [0..<n]
      in handle\<lparr>dma_vaddr := va_vaddr va, dma_page_size := ps, dma_n_ioaddrs := n,
           dma_ioaddrs := addrs,
           dma_contiguous := list_all (\<lambda>i. i = 0 \<or> addrs ! (i - 1) + of_nat ps = addrs ! i) [0..<n]\<rparr>)"

definition ioctl_map ::
  "os \<Rightarrow> kern \<Rightarrow> nat \<Rightarrow> 'a dma_state_scheme \<Rightarrow> rc \<times> u64 list \<times> 'a dma_state_scheme" where
  "ioctl_map os k va s =
     (case ds_vas s va of
        Some (Mapping m) \<Rightarrow>
          let type = (case im_type m of
                        MAP_TYPE_API \<Rightarrow> NVM_MAP_HOST_MEMORY
                      | MAP_TYPE_HOST \<Rightarrow> NVM_MAP_HOST_MEMORY
                      | MAP_TYPE_CUDA \<Rightarrow> NVM_MAP_DEVICE_MEMORY);
              (err, ioaddrs) = k_map k type (im_buffer m) (va_n_pages (im_range m))
          in if err < 0 then (os_errno os, [], s)
             else (0, ioaddrs, s\<lparr>ds_kmaps := (ds_kmaps s)(im_buffer m := True)\<rparr>)
      | _ \<Rightarrow> (EINVAL, [], s))"

definition ioctl_unmap :: "nat \<Rightarrow> 'a dma_state_scheme \<Rightarrow> 'a dma_state_scheme" where
  "ioctl_unmap va s =
     (case ds_vas s va of
        Some (Mapping m) \<Rightarrow> s\<lparr>ds_kmaps := (ds_kmaps s)(im_buffer m := False)\<rparr>
      | _ \<Rightarrow> s)"

definition remove_mapping_descriptor :: "nat \<Rightarrow> 'a dma_state_scheme \<Rightarrow> 'a dma_state_scheme" where
  "remove_mapping_descriptor va s =
     (case ds_vas s va of
        Some (Mapping m) \<Rightarrow>
          let s = (if im_type m = MAP_TYPE_API then s\<lparr>ds_buffers := (ds_buffers s)(im_buffer m := False)\<rparr> else s)
          in s\<lparr>ds_vas := (ds_vas s)(va := None)\<rparr>
      | _ \<Rightarrow> s\<lparr>ds_vas := (ds_vas s)(va := None)\<rparr>)"

text \<open>The release callback of a mapping: the descriptor and its buffer, or a plain
  \<open>free\<close> for a bare range.\<close>

definition release_va :: "nat \<Rightarrow> 'a dma_state_scheme \<Rightarrow> 'a dma_state_scheme" where
  "release_va va s = (remove_mapping_descriptor va s)\<lparr>ds_va_released := va # ds_va_released s\<rparr>"

definition dma_map ::
  "os \<Rightarrow> kern \<Rightarrow> nat \<Rightarrow> 'a dma_state_scheme \<Rightarrow> rc \<times> 'a dma_state_scheme" where
  "dma_map os k cont s =
     (case ds_conts s cont of
        None \<Rightarrow> (EINVAL, s)
      | Some c \<Rightarrow>
      case ds_maps s (d_map c) of
        None \<Rightarrow> (EINVAL, s)
      | Some md \<Rightarrow>
      case (cs_ctrls s (m_ctrl md), ds_vas s (m_va md)) of
        (Some ctrl, Some va) \<Rightarrow>
          if \<not> ops_map_range (c_ops ctrl) then (EINVAL, s)
          else
            (case malloc s of
               (None, s) \<Rightarrow> (ENOMEM, s)
             | (Some _, s) \<Rightarrow>
                 case ioctl_map os k (m_va md) s of
                   (err, ioaddrs, s) \<Rightarrow>
                     if err \<noteq> 0 then (err, s)
                     else (0, s\<lparr>ds_maps := (ds_maps s)(d_map c \<mapsto> md\<lparr>m_unmap := ops_unmap_range (c_ops ctrl)\<rparr>),
                            ds_conts := (ds_conts s)(cont \<mapsto>
                              c\<lparr>d_handle := populate_handle (d_handle c) (range_of va) (c_handle ctrl) ioaddrs\<rparr>)\<rparr>))
      | _ \<Rightarrow> (EINVAL, s))"

definition put_map :: "nat option \<Rightarrow> 'a dma_state_scheme \<Rightarrow> 'a dma_state_scheme" where
  "put_map md s =
     (case md of
        None \<Rightarrow> s
      | Some a \<Rightarrow>
      case ds_maps s a of
        None \<Rightarrow> s
      | Some m \<Rightarrow>
          let m = m\<lparr>m_count := m_count m - 1\<rparr>;
              s = s\<lparr>ds_maps := (ds_maps s)(a \<mapsto> m)\<rparr>
          in if m_count m = 0 then
               let s = (if m_unmap m then ioctl_unmap (m_va m) s else s);
                   s = release_va (m_va m) s
               in remove_map a s
             else s)"

definition get_map :: "nat option \<Rightarrow> 'a dma_state_scheme \<Rightarrow> rc \<times> 'a dma_state_scheme" where
  "get_map md s =
     (case md of
        None \<Rightarrow> (EINVAL, s)
      | Some a \<Rightarrow>
      case ds_maps s a of
        None \<Rightarrow> (EINVAL, s)
      | Some m \<Rightarrow> (0, s\<lparr>ds_maps := (ds_maps s)(a \<mapsto> m\<lparr>m_count := m_count m + 1\<rparr>)\<rparr>))"

definition empty_handle :: "bool \<Rightarrow> nvm_dma_t" where
  "empty_handle loc = \<lparr>dma_vaddr = 0, dma_local = loc, dma_contiguous = True, dma_page_size = 0,
     dma_n_ioaddrs = 0, dma_ioaddrs = []\<rparr>"

definition create_container ::
  "nat \<Rightarrow> 'a dma_state_scheme \<Rightarrow> rc \<times> nat option \<times> 'a dma_state_scheme" where
  "create_container md s =
     (case ds_maps s md of
        None \<Rightarrow> (EINVAL, None, s)
      | Some m \<Rightarrow>
      case (cs_ctrls s (m_ctrl m), ds_vas s (m_va m)) of
        (Some ctrl, Some va) \<Rightarrow>
          let page_size = va_page_size (range_of va);
              n_pages = va_n_pages (range_of va)
          in if page_size = 0 \<or> n_pages = 0 \<or>
                (page_size * n_pages) mod unat (ctrl_page_size (c_handle ctrl)) \<noteq> 0
             then (EINVAL, None, s)
             else
               (case malloc s of
                  (None, s) \<Rightarrow> (ENOMEM, None, s)
                | (Some c, s) \<Rightarrow>
                    (0, Some c, s\<lparr>ds_conts := (ds_conts s)(c \<mapsto>
                       \<lparr>d_map = md, d_handle = empty_handle (\<not> va_remote (range_of va))\<rparr>)\<rparr>))
      | _ \<Rightarrow> (EINVAL, None, s))"

definition remove_container :: "nat \<Rightarrow> 'a dma_state_scheme \<Rightarrow> 'a dma_state_scheme" where
  "remove_container cont s =
     (case ds_conts s cont of
        None \<Rightarrow> s
      | Some c \<Rightarrow> (put_map (Some (d_map c)) s)\<lparr>ds_conts := (ds_conts s)(cont := None)\<rparr>)"

definition nvm_dma_init ::
  "os \<Rightarrow> kern \<Rightarrow> nat \<Rightarrow> nat \<Rightarrow> 'a dma_state_scheme \<Rightarrow> rc \<times> nat option \<times> 'a dma_state_scheme" where
  "nvm_dma_init os k ctrl va s =
     (case create_map os ctrl va s of
        (err, None, s) \<Rightarrow> (err, None, s)
      | (_, Some m, s) \<Rightarrow>
      case create_container m s of
        (err, None, s) \<Rightarrow> (err, None, remove_map m s)
      | (_, Some c, s) \<Rightarrow>
      case dma_map os k c s of
        (err, s) \<Rightarrow>
          if err \<noteq> 0 then (err, None, (remove_map m s)\<lparr>ds_conts := (ds_conts s)(c := None)\<rparr>)
          else (0, Some c, s))"

definition nvm_dma_map ::
  "os \<Rightarrow> nat \<Rightarrow> nat \<Rightarrow> nat \<Rightarrow> nat \<Rightarrow> u64 list option \<Rightarrow> 'a dma_state_scheme \<Rightarrow>
   rc \<times> nat option \<times> 'a dma_state_scheme" where
  "nvm_dma_map os ctrl vaddr page_size n_pages ioaddrs s =
     (case ioaddrs of
        None \<Rightarrow> (EINVAL, None, s)
      | Some addrs \<Rightarrow>
      case malloc s of
        (None, s) \<Rightarrow> (ENOMEM, None, s)
      | (Some va, s) \<Rightarrow>
          let range = \<lparr>va_remote = False, va_vaddr = vaddr, va_page_size = page_size, va_n_pages = n_pages\<rparr>;
              s = s\<lparr>ds_vas := (ds_vas s)(va \<mapsto> Bare range)\<rparr>
          in case create_map os ctrl va s of
               (status, None, s) \<Rightarrow> (status, None, s\<lparr>ds_vas := (ds_vas s)(va := None)\<rparr>)
             | (_, Some m, s) \<Rightarrow>
             case create_container m s of
               (status, None, s) \<Rightarrow>
                 (status, None, (remove_map m s)\<lparr>ds_vas := (ds_vas s)(va := None)\<rparr>)
             | (_, Some c, s) \<Rightarrow>
                 (0, Some c,
                  s\<lparr>ds_conts := (ds_conts s)(c :=
                      map_option (\<lambda>co. co\<lparr>d_handle := populate_handle (d_handle co) range
                        (case cs_ctrls s ctrl of None \<Rightarrow> zero_ctrl | Some ct \<Rightarrow> c_handle ct) addrs\<rparr>)
                        (ds_conts s c))\<rparr>))"

definition nvm_dma_remap ::
  "nat \<Rightarrow> 'a dma_state_scheme \<Rightarrow> rc \<times> nat option \<times> 'a dma_state_scheme" where
  "nvm_dma_remap other s =
     (case ds_conts s other of
        None \<Rightarrow> (EINVAL, None, s)
      | Some oc \<Rightarrow>
      let m = d_map oc in
      case get_map (Some m) s of
        (status, s) \<Rightarrow>
          if status \<noteq> 0 then (status, None, s)
          else
            case create_container m s of
              (status, None, s) \<Rightarrow> (status, None, put_map (Some m) s)
            | (_, Some c, s) \<Rightarrow>
                (case ds_maps s m of
                   None \<Rightarrow> (EINVAL, None, s)
                 | Some md \<Rightarrow>
                   let range = \<lparr>va_remote = \<not> dma_local (d_handle oc),
                         va_vaddr = (case ds_vas s (m_va md) of None \<Rightarrow> 0 | Some v \<Rightarrow> va_vaddr (range_of v)),
                         va_page_size = dma_page_size (d_handle oc), va_n_pages = dma_n_ioaddrs (d_handle oc)\<rparr>
                   in (0, Some c,
                       s\<lparr>ds_conts := (ds_conts s)(c :=
                         map_option (\<lambda>co. co\<lparr>d_handle := populate_handle (d_handle co) range
                           (case cs_ctrls s (m_ctrl md) of None \<Rightarrow> zero_ctrl | Some ct \<Rightarrow> c_handle ct)
                           (dma_ioaddrs (d_handle oc))\<rparr>) (ds_conts s c))\<rparr>)))"

definition nvm_dma_unmap :: "nat option \<Rightarrow> 'a dma_state_scheme \<Rightarrow> 'a dma_state_scheme" where
  "nvm_dma_unmap handle s = (case handle of None \<Rightarrow> s | Some c \<Rightarrow> remove_container c s)"

definition nvm_ctrl_from_dma :: "nat option \<Rightarrow> 'a dma_state_scheme \<Rightarrow> nvm_ctrl_t option" where
  "nvm_ctrl_from_dma handle s =
     (case handle of None \<Rightarrow> None
      | Some h \<Rightarrow>
      case ds_conts s h of None \<Rightarrow> None
      | Some c \<Rightarrow>
      case ds_maps s (d_map c) of None \<Rightarrow> None
      | Some m \<Rightarrow> map_option c_handle (cs_ctrls s (m_ctrl m)))"

definition nvm_dma_va :: "nat option \<Rightarrow> 'a dma_state_scheme \<Rightarrow> va_range option" where
  "nvm_dma_va handle s =
     (case handle of None \<Rightarrow> None
      | Some h \<Rightarrow>
      case ds_conts s h of None \<Rightarrow> None
      | Some c \<Rightarrow>
      case ds_maps s (d_map c) of None \<Rightarrow> None
      | Some m \<Rightarrow> map_option range_of (ds_vas s (m_va m)))"

subsection \<open>Buffers\<close>

definition create_mapping_descriptor ::
  "u64 \<Rightarrow> mapping_type \<Rightarrow> nat \<Rightarrow> u64 \<Rightarrow> 'a dma_state_scheme \<Rightarrow> rc \<times> nat option \<times> 'a dma_state_scheme" where
  "create_mapping_descriptor page_size type buffer sz s =
     (let n_pages = NVM_PAGE_ALIGN sz page_size div page_size in
      if n_pages = 0 then (EINVAL, None, s)
      else
        case malloc s of
          (None, s) \<Rightarrow> (ENOMEM, None, s)
        | (Some md, s) \<Rightarrow>
            (0, Some md, s\<lparr>ds_vas := (ds_vas s)(md \<mapsto> Mapping
               \<lparr>im_type = type, im_buffer = buffer,
                im_range = \<lparr>va_remote = False, va_vaddr = buffer, va_page_size = unat page_size,
                            va_n_pages = unat n_pages\<rparr>\<rparr>)\<rparr>))"

definition ctrl_of :: "nat \<Rightarrow> 'a ctrl_state_scheme \<Rightarrow> controller" where
  "ctrl_of h s = (case cs_ctrls s h of Some c \<Rightarrow> c
     | None \<Rightarrow> \<lparr>c_count = 0, c_type = DEVICE_TYPE_UNKNOWN, c_device = None, c_ops = no_ops, c_handle = zero_ctrl\<rparr>)"

definition nvm_dma_create ::
  "os \<Rightarrow> kern \<Rightarrow> nat \<Rightarrow> u64 \<Rightarrow> 'a dma_state_scheme \<Rightarrow> rc \<times> nat option \<times> 'a dma_state_scheme" where
  "nvm_dma_create os k ctrl sz s =
     (let h = c_handle (ctrl_of ctrl s);
          sz = NVM_CTRL_ALIGN h sz
      in if sz = 0 then (EINVAL, None, s)
         else if c_type (ctrl_of ctrl s) \<noteq> DEVICE_TYPE_IOCTL then (EBADF, None, s)
         else if k_memalign k \<noteq> 0 then (k_memalign k, None, s)
         else
           let buffer = cs_next s;
               s = s\<lparr>cs_next := cs_next s + 1, ds_buffers := (ds_buffers s)(buffer := True)\<rparr>
           in case create_mapping_descriptor (ctrl_page_size h) MAP_TYPE_API buffer sz s of
                (err, None, s) \<Rightarrow> (err, None, s\<lparr>ds_buffers := (ds_buffers s)(buffer := False)\<rparr>)
              | (_, Some md, s) \<Rightarrow>
              case nvm_dma_init os k ctrl md s of
                (err, r, s) \<Rightarrow>
                  if err \<noteq> 0 then (err, None, remove_mapping_descriptor md s) else (0, r, s))"

definition nvm_dma_map_host ::
  "os \<Rightarrow> kern \<Rightarrow> nat \<Rightarrow> nat \<Rightarrow> u64 \<Rightarrow> 'a dma_state_scheme \<Rightarrow> rc \<times> nat option \<times> 'a dma_state_scheme" where
  "nvm_dma_map_host os k ctrl vaddr sz s =
     (let h = c_handle (ctrl_of ctrl s);
          sz = NVM_CTRL_ALIGN h sz
      in if sz = 0 then (EINVAL, None, s)
         else if c_type (ctrl_of ctrl s) \<noteq> DEVICE_TYPE_IOCTL then (EBADF, None, s)
         else
           case create_mapping_descriptor (ctrl_page_size h) MAP_TYPE_HOST vaddr sz s of
             (err, None, s) \<Rightarrow> (err, None, s)
           | (_, Some md, s) \<Rightarrow>
           case nvm_dma_init os k ctrl md s of
             (err, r, s) \<Rightarrow>
               if err \<noteq> 0 then (err, None, remove_mapping_descriptor md s) else (0, r, s))"

definition nvm_dma_map_device ::
  "os \<Rightarrow> kern \<Rightarrow> nat \<Rightarrow> nat \<Rightarrow> u64 \<Rightarrow> 'a dma_state_scheme \<Rightarrow> rc \<times> nat option \<times> 'a dma_state_scheme" where
  "nvm_dma_map_device os k ctrl devptr sz s =
     (if c_type (ctrl_of ctrl s) \<noteq> DEVICE_TYPE_IOCTL then (EBADF, None, s)
      else
        case create_mapping_descriptor (push_bit 16 1) MAP_TYPE_CUDA devptr sz s of
          (err, None, s) \<Rightarrow> (err, None, s)
        | (_, Some md, s) \<Rightarrow>
        case nvm_dma_init os k ctrl md s of
          (err, r, s) \<Rightarrow>
            if err \<noteq> 0 then (err, None, remove_mapping_descriptor md s) else (0, r, s))"

subsection \<open>Translation of addresses\<close>

lemma page_translation:
  fixes off cps ps :: nat
  assumes "0 < cps" "cps dvd ps"
  shows "(off div cps * cps) div ps = off div ps"
    and "(off div cps * cps) mod ps + off mod cps = off mod ps"
proof -
  obtain d where d: "ps = cps * d" using assms(2) by (auto simp: dvd_def)
  show "(off div cps * cps) div ps = off div ps"
    using assms(1) by (simp add: d div_mult2_eq mult.commute)
  have "(off div cps * cps) mod ps = cps * (off div cps mod d)"
    by (simp add: d mult.commute)
  then show "(off div cps * cps) mod ps + off mod cps = off mod ps"
    by (simp add: d mod_mult2_eq)
qed

lemma populate_handle_fields:
  "dma_n_ioaddrs (populate_handle h va ctrl io) = n_ctrl_pages ctrl (va_page_size va) (va_n_pages va)"
  "dma_ioaddrs (populate_handle h va ctrl io) =
     map (page_ioaddr (unat (ctrl_page_size ctrl)) (va_page_size va) io)
       [0..<n_ctrl_pages ctrl (va_page_size va) (va_n_pages va)]"
  "dma_page_size (populate_handle h va ctrl io) = unat (ctrl_page_size ctrl)"
  "dma_local (populate_handle h va ctrl io) = dma_local h"
  "dma_vaddr (populate_handle h va ctrl io) = va_vaddr va"
  by (simp_all add: populate_handle_def Let_def)

lemma contiguous_prefix:
  fixes xs :: "u64 list"
  assumes "list_all (\<lambda>i. i = 0 \<or> xs ! (i - 1) + p = xs ! i) [0..<length xs]" "i < length xs"
  shows "xs ! i = xs ! 0 + of_nat i * p"
  using assms(2)
proof (induction i)
  case (Suc i)
  then have "xs ! i + p = xs ! Suc i"
    using assms(1) by (auto simp: list_all_iff dest!: bspec[of _ _ "Suc i"])
  then show ?case
    using Suc by (simp add: algebra_simps)
qed simp

text \<open>C21: A DMA handle translates every byte of its buffer to the bus address the
  kernel reported for the page the byte is in: the controller-sized pages of the handle
  and the pages of the mapping (4 KiB of host memory, 64 KiB of GPU memory) describe the
  same region, and in a handle marked contiguous the bus addresses are one run.\<close>

theorem populate_handle_translates:
  assumes "0 < unat (ctrl_page_size ctrl)" "unat (ctrl_page_size ctrl) dvd va_page_size va"
    and "off < va_page_size va * va_n_pages va" "h = populate_handle h0 va ctrl ioaddrs"
  shows "off div dma_page_size h < dma_n_ioaddrs h \<and> dma_n_ioaddrs h = length (dma_ioaddrs h) \<and>
    dma_ioaddrs h ! (off div dma_page_size h) + of_nat (off mod dma_page_size h) =
      ioaddrs ! (off div va_page_size va) + of_nat (off mod va_page_size va) \<and>
    (dma_contiguous h \<longrightarrow>
      ioaddrs ! (off div va_page_size va) + of_nat (off mod va_page_size va) = dma_ioaddrs h ! 0 + of_nat off)"
proof -
  let ?c = "unat (ctrl_page_size ctrl)" and ?p = "va_page_size va" and ?n = "n_ctrl_pages ctrl (va_page_size va) (va_n_pages va)"
  have "?c * ?n = ?p * va_n_pages va"
    using assms(2) by (simp add: n_ctrl_pages_def)
  then have lt: "off div ?c < ?n"
    using assms(3) by (metis less_mult_imp_div_less mult.commute)
  note f = populate_handle_fields[of h0 va ctrl ioaddrs, folded assms(4)]
  have addr: "dma_ioaddrs h ! (off div ?c) + of_nat (off mod ?c) = ioaddrs ! (off div ?p) + of_nat (off mod ?p)"
    using lt page_translation[OF assms(1,2), of off]
    by (simp add: f page_ioaddr_def Let_def add.assoc flip: of_nat_add)
  have "dma_ioaddrs h ! (off div ?c) = dma_ioaddrs h ! 0 + of_nat (off div ?c) * of_nat ?c" if "dma_contiguous h"
    using that lt contiguous_prefix[of "dma_ioaddrs h" "of_nat ?c" "off div ?c"]
    by (simp add: assms(4) populate_handle_def Let_def)
  moreover have "of_nat (off div ?c) * of_nat ?c + of_nat (off mod ?c) = (of_nat off :: u64)"
    by (metis div_mult_mod_eq of_nat_add of_nat_mult)
  ultimately show ?thesis
    using lt addr by (auto simp: f add.assoc)
qed

theorem populate_handle_translates_witness:
  "let h = populate_handle (empty_handle True)
        \<lparr>va_remote = False, va_vaddr = 0x100000, va_page_size = 65536, va_n_pages = 2\<rparr>
        (zero_ctrl\<lparr>ctrl_page_size := 4096\<rparr>) [0x10000000, 0x20000000]
   in dma_ioaddrs h ! 18 + 5 = 0x20002005 \<and> dma_n_ioaddrs h = 32"
  using populate_handle_translates[of "zero_ctrl\<lparr>ctrl_page_size := 4096\<rparr>"
      "\<lparr>va_remote = False, va_vaddr = 0x100000, va_page_size = 65536, va_n_pages = 2\<rparr>" 73733 _ "empty_handle True"
      "[0x10000000, 0x20000000]"]
  by (simp add: Let_def populate_handle_fields n_ctrl_pages_def)

subsection \<open>Undo on error\<close>

definition dma_fresh :: "'a dma_state_scheme \<Rightarrow> bool" where
  "dma_fresh s \<longleftrightarrow> (\<forall>a\<ge>cs_next s. ds_vas s a = None \<and> \<not> ds_buffers s a \<and> ds_maps s a = None \<and> ds_conts s a = None)"

definition ctrl_usable :: "nat \<Rightarrow> 'a ctrl_state_scheme \<Rightarrow> bool" where
  "ctrl_usable h s \<longleftrightarrow> (\<exists>c. cs_ctrls s h = Some c \<and> c_count c \<noteq> 0)"

lemma ctrl_get_put:
  assumes "cs_ctrls s h = Some c" "c_count c \<noteq> 0"
  shows "nvm_ctrl_put (Some h) (s\<lparr>cs_ctrls := (cs_ctrls s)(h \<mapsto> c\<lparr>c_count := c_count c + 1\<rparr>), cs_next := n\<rparr>) =
    s\<lparr>cs_next := n\<rparr>"
proof -
  have "c\<lparr>c_count := c_count c\<rparr> = c" by (cases c) simp
  then show ?thesis
    using assms by (cases s) (simp add: nvm_ctrl_put_def fun_upd_idem)
qed

lemma create_map_cases:
  assumes "create_map os ctrl va s = (err, r, s')" "cs_ctrls s ctrl = Some c" "c_count c \<noteq> 0"
  shows "(err \<noteq> 0 \<and> r = None \<and> (\<exists>n. s' = s\<lparr>cs_next := n\<rparr>)) \<or>
    (err = 0 \<and> r = Some (cs_next s) \<and>
     s' = s\<lparr>cs_ctrls := (cs_ctrls s)(ctrl \<mapsto> c\<lparr>c_count := c_count c + 1\<rparr>), cs_next := cs_next s + 1, 
        ds_maps := (ds_maps s)(cs_next s \<mapsto> \<lparr>m_count = 1, m_ctrl = ctrl, m_va = va, m_unmap = False\<rparr>)\<rparr>)"
  using assms
  by (auto simp: create_map_def nvm_ctrl_get_def malloc_def ctrl_get_put split: if_splits)

lemma create_container_cases:
  assumes "create_container m s = (err, r, s')"
  shows "(err \<noteq> 0 \<and> r = None \<and> (\<exists>n. s' = s\<lparr>cs_next := n\<rparr>)) \<or>
    (err = 0 \<and> r = Some (cs_next s) \<and> (\<exists>loc. 
      s' = s\<lparr>cs_next := cs_next s + 1, ds_conts := (ds_conts s)(cs_next s \<mapsto> \<lparr>d_map = m, d_handle = empty_handle loc\<rparr>)\<rparr>))"
  using assms
  by (auto simp: create_container_def malloc_def Let_def split: option.splits if_splits) (cases s, auto)+

lemma dma_map_fails:
  assumes "dma_map os k cont s = (err, s')" "err \<noteq> 0"
  shows "\<exists>n. s' = s\<lparr>cs_next := n\<rparr>"
  using assms
  by (cases s) (auto simp: dma_map_def ioctl_map_def malloc_def Let_def split: option.splits if_splits
      va_object.splits prod.splits)

lemma remove_last_map:
  assumes "ds_maps s m = Some md" "m_ctrl md = ctrl" "cs_ctrls s ctrl = Some (c\<lparr>c_count := c_count c + 1\<rparr>)" "c_count c \<noteq> 0"
  shows "remove_map m s = s\<lparr>cs_ctrls := (cs_ctrls s)(ctrl \<mapsto> c), ds_maps := (ds_maps s)(m := None)\<rparr>"
proof -
  have "c\<lparr>c_count := c_count c\<rparr> = c" by (cases c) simp
  then show ?thesis
    using assms by (simp add: remove_map_def nvm_ctrl_put_def)
qed

lemma nvm_dma_init_undo:
  assumes "nvm_dma_init os k ctrl va s = (err, r, s')" "err \<noteq> 0" "dma_fresh s" "ctrl_usable ctrl s"
  shows "r = None \<and> (\<exists>n. s' = s\<lparr>cs_next := n\<rparr>)"
proof -
  obtain c where c: "cs_ctrls s ctrl = Some c" "c_count c \<noteq> 0"
    using assms(4) by (auto simp: ctrl_usable_def)
  obtain e1 r1 s1 where m: "create_map os ctrl va s = (e1, r1, s1)"
    by (metis prod_cases3)
  obtain e2 r2 s2 where cc: "create_container (cs_next s) s1 = (e2, r2, s2)"
    by (metis prod_cases3)
  obtain e3 s3 where dm: "dma_map os k (cs_next s1) s2 = (e3, s3)"
    by fastforce
  have undo: "(ds_maps s)(cs_next s := None) = ds_maps s" "(ds_conts s)(Suc (cs_next s) := None) = ds_conts s"
      "(cs_ctrls s)(ctrl \<mapsto> c) = cs_ctrls s"
    using assms(3) c by (auto simp: dma_fresh_def fun_eq_iff)
  show ?thesis
  proof (cases "e1 = 0")
    case False
    then show ?thesis
      using create_map_cases[OF m c] m assms(1) by (auto simp: nvm_dma_init_def)
  next
    case True
    then have s1: "r1 = Some (cs_next s)" "s1 = s\<lparr>cs_ctrls := (cs_ctrls s)(ctrl \<mapsto> c\<lparr>c_count := c_count c + 1\<rparr>), cs_next := cs_next s + 1, 
        ds_maps := (ds_maps s)(cs_next s \<mapsto> \<lparr>m_count = 1, m_ctrl = ctrl, m_va = va, m_unmap = False\<rparr>)\<rparr>"
      using create_map_cases[OF m c] by auto
    have rm: "remove_map (cs_next s) (s1\<lparr>cs_next := n, ds_conts := f\<rparr>) = s\<lparr>cs_next := n, ds_conts := f\<rparr>" for n f
    proof -
      let ?t = "s1\<lparr>cs_next := n, ds_conts := f\<rparr>"
      have "remove_map (cs_next s) ?t =
          ?t\<lparr>cs_ctrls := (cs_ctrls ?t)(ctrl \<mapsto> c), ds_maps := (ds_maps ?t)(cs_next s := None)\<rparr>"
        using c by (intro remove_last_map[where md = "\<lparr>m_count = 1, m_ctrl = ctrl, m_va = va, m_unmap = False\<rparr>"])
            (simp_all add: s1)
      also have "\<dots> = s\<lparr>cs_next := n, ds_conts := f\<rparr>"
        using undo by (cases s) (simp add: s1)
      finally show ?thesis .
    qed
    show ?thesis
    proof (cases "e2 = 0")
      case False
      then obtain n where s2: "s2 = s1\<lparr>cs_next := n\<rparr>" "r2 = None"
        using create_container_cases[OF cc] by auto
      then have "s2 = s1\<lparr>cs_next := n, ds_conts := ds_conts s\<rparr>"
        by (cases s) (simp add: s1)
      then have "remove_map (cs_next s) s2 = s\<lparr>cs_next := n\<rparr>"
        using rm[where n = n and f = "ds_conts s"] by (cases s) simp
      moreover have "r = None \<and> s' = remove_map (cs_next s) s2"
        using m s1(1) cc s2(2) True assms(1) by (auto simp: nvm_dma_init_def)
      ultimately show ?thesis by blast
    next
      case c0: True
      then obtain loc where s2: "r2 = Some (cs_next s1)" "s2 = s1\<lparr>cs_next := cs_next s1 + 1,
          ds_conts := (ds_conts s1)(cs_next s1 \<mapsto> \<lparr>d_map = cs_next s, d_handle = empty_handle loc\<rparr>)\<rparr>"
        using create_container_cases[OF cc] by auto
      have e3: "e3 = err" "err \<noteq> 0" "r = None"
          "s' = (remove_map (cs_next s) s3)\<lparr>ds_conts := (ds_conts s3)(cs_next s1 := None)\<rparr>"
        using m s1(1) cc s2(1) dm assms(1,2) True c0 by (auto simp: nvm_dma_init_def split: if_splits)
      obtain n where s3: "s3 = s2\<lparr>cs_next := n\<rparr>"
        using dma_map_fails[OF dm] e3 by auto
      then have "s3 = s1\<lparr>cs_next := n, ds_conts := ds_conts s3\<rparr>"
        by (cases s) (simp add: s1 s2)
      then have "remove_map (cs_next s) s3 = s\<lparr>cs_next := n, ds_conts := ds_conts s3\<rparr>"
        using rm[where n = n and f = "ds_conts s3"] by simp
      moreover have "(ds_conts s3)(cs_next s1 := None) = ds_conts s"
        using undo by (simp add: s3 s2 s1)
      ultimately show ?thesis
        using e3 by (cases s) auto
    qed
  qed
qed

lemma create_mapping_descriptor_cases:
  assumes "create_mapping_descriptor ps type buffer sz s = (err, r, s')"
  shows "(err \<noteq> 0 \<and> r = None \<and> (\<exists>n. s' = s\<lparr>cs_next := n\<rparr>)) \<or>
    (err = 0 \<and> r = Some (cs_next s) \<and> (\<exists>md. im_type md = type \<and> im_buffer md = buffer \<and>
      s' = s\<lparr>cs_next := cs_next s + 1, ds_vas := (ds_vas s)(cs_next s \<mapsto> Mapping md)\<rparr>))"
proof (cases "NVM_PAGE_ALIGN sz ps div ps = 0 \<or> cs_oom s (cs_next s)")
  case True
  then show ?thesis
    using assms by (auto simp: create_mapping_descriptor_def malloc_def Let_def split: if_splits) (cases s, auto)+
next
  case False
  define md where "md = \<lparr>im_type = type, im_buffer = buffer, im_range = \<lparr>va_remote = False, va_vaddr = buffer,
      va_page_size = unat ps, va_n_pages = unat (NVM_PAGE_ALIGN sz ps div ps)\<rparr>\<rparr>"
  have "im_type md = type" "im_buffer md = buffer" "err = 0" "r = Some (cs_next s)"
      "s' = s\<lparr>cs_next := cs_next s + 1, ds_vas := (ds_vas s)(cs_next s \<mapsto> Mapping md)\<rparr>"
    using False assms by (auto simp: create_mapping_descriptor_def malloc_def Let_def md_def)
  then show ?thesis by blast
qed

lemma remove_new_descriptor:
  assumes "ds_vas s a = None" "im_type md = MAP_TYPE_API \<Longrightarrow> \<not> ds_buffers s (im_buffer md)"
  shows "remove_mapping_descriptor a (s\<lparr>cs_next := n, ds_vas := (ds_vas s)(a \<mapsto> Mapping md),
      ds_buffers := (if im_type md = MAP_TYPE_API then (ds_buffers s)(im_buffer md := True) else ds_buffers s)\<rparr>) =
    s\<lparr>cs_next := n\<rparr>"
proof -
  have "(ds_vas s)(a := None) = ds_vas s"
    using assms by (auto simp: fun_eq_iff)
  moreover have "im_type md = MAP_TYPE_API \<Longrightarrow> (ds_buffers s)(im_buffer md := False) = ds_buffers s"
    using assms by (auto simp: fun_eq_iff)
  ultimately show ?thesis
    by (cases s) (simp add: remove_mapping_descriptor_def Let_def)
qed

lemma descriptor_init_undo:
  assumes "dma_fresh s" "ctrl_usable ctrl s" "ds_vas s a = None" "a < n" "cs_next s \<le> n"
    and "im_type md = MAP_TYPE_API \<Longrightarrow> \<not> ds_buffers s (im_buffer md) \<and> im_buffer md < n"
    and "t = s\<lparr>cs_next := n, ds_vas := (ds_vas s)(a \<mapsto> Mapping md),
      ds_buffers := (if im_type md = MAP_TYPE_API then (ds_buffers s)(im_buffer md := True) else ds_buffers s)\<rparr>"
    and "nvm_dma_init os k ctrl a t = (err, r, t')" "err \<noteq> 0"
  shows "r = None \<and> (\<exists>n. remove_mapping_descriptor a t' = s\<lparr>cs_next := n\<rparr>)"
proof -
  have "dma_fresh t" "ctrl_usable ctrl t"
    using assms(1-6) unfolding assms(7) by (auto simp: dma_fresh_def ctrl_usable_def)
  then obtain n' where "r = None" "t' = t\<lparr>cs_next := n'\<rparr>"
    using nvm_dma_init_undo[OF assms(8,9)] by auto
  then show ?thesis
    using remove_new_descriptor[of s a md n'] assms(3,6) by (cases s) (auto simp: assms(7))
qed

lemma map_user_undo:
  assumes "dma_fresh s" "ctrl_usable ctrl s" "type \<noteq> MAP_TYPE_API"
  shows "case (case create_mapping_descriptor ps type buffer sz s of
       (err, None, s) \<Rightarrow> (err, None, s)
     | (_, Some md, s) \<Rightarrow>
       case nvm_dma_init os k ctrl md s of
         (err, r, s) \<Rightarrow> if err \<noteq> 0 then (err, None, remove_mapping_descriptor md s) else (0, r, s)) of
     (err, r, s') \<Rightarrow> err \<noteq> 0 \<longrightarrow> r = None \<and> (\<exists>n. s' = s\<lparr>cs_next := n\<rparr>)"
proof -
  obtain e r t where cmd: "create_mapping_descriptor ps type buffer sz s = (e, r, t)"
    by (metis prod_cases3)
  show ?thesis
  proof (cases "e = 0")
    case False
    then show ?thesis
      using create_mapping_descriptor_cases[OF cmd] cmd by auto
  next
    case True
    then obtain md where md: "r = Some (cs_next s)" "im_type md = type"
      "t = s\<lparr>cs_next := cs_next s + 1, ds_vas := (ds_vas s)(cs_next s \<mapsto> Mapping md)\<rparr>"
      using create_mapping_descriptor_cases[OF cmd] by auto
    have t: "t = s\<lparr>cs_next := cs_next s + 1, ds_vas := (ds_vas s)(cs_next s \<mapsto> Mapping md),
      ds_buffers := (if im_type md = MAP_TYPE_API then (ds_buffers s)(im_buffer md := True) else ds_buffers s)\<rparr>"
      using assms(3) by (cases s) (simp add: md)
    obtain e' r' t' where i: "nvm_dma_init os k ctrl (cs_next s) t = (e', r', t')"
      by (metis prod_cases3)
    have "e' \<noteq> 0 \<longrightarrow> (\<exists>n. remove_mapping_descriptor (cs_next s) t' = s\<lparr>cs_next := n\<rparr>)"
      using descriptor_init_undo[OF assms(1,2) _ _ _ _ t i] assms(1,3) md(2) by (auto simp: dma_fresh_def)
    then show ?thesis
      by (simp add: cmd md(1) i)
  qed
qed

lemma nvm_dma_create_undo:
  assumes "dma_fresh s" "ctrl_usable ctrl s" "nvm_dma_create os k ctrl sz s = (err, r, s')" "err \<noteq> 0"
  shows "r = None \<and> (\<exists>n. s' = s\<lparr>cs_next := n\<rparr>)"
proof -
  let ?h = "c_handle (ctrl_of ctrl s)" and ?b = "cs_next s"
  define s1 where "s1 = s\<lparr>cs_next := ?b + 1, ds_buffers := (ds_buffers s)(?b := True)\<rparr>"
  obtain e q t where cmd: "create_mapping_descriptor (ctrl_page_size ?h) MAP_TYPE_API ?b (NVM_CTRL_ALIGN ?h sz) s1 = (e, q, t)"
    by (metis prod_cases3)
  obtain e' r' t' where i: "nvm_dma_init os k ctrl (?b + 1) t = (e', r', t')"
    by (metis prod_cases3)
  have undo: "(ds_buffers s)(?b := False) = ds_buffers s"
    using assms(1) by (auto simp: dma_fresh_def fun_eq_iff)
  have eq: "nvm_dma_create os k ctrl sz s =
    (if NVM_CTRL_ALIGN ?h sz = 0 then (EINVAL, None, s)
     else if c_type (ctrl_of ctrl s) \<noteq> DEVICE_TYPE_IOCTL then (EBADF, None, s)
     else if k_memalign k \<noteq> 0 then (k_memalign k, None, s)
     else case (e, q, t) of
        (err, None, s) \<Rightarrow> (err, None, s\<lparr>ds_buffers := (ds_buffers s)(?b := False)\<rparr>)
      | (_, Some md, s) \<Rightarrow> case nvm_dma_init os k ctrl md s of
          (err, r, s) \<Rightarrow> if err \<noteq> 0 then (err, None, remove_mapping_descriptor md s) else (0, r, s))"
    using cmd by (simp add: nvm_dma_create_def Let_def s1_def)
  have q: "(\<exists>n. s = s\<lparr>cs_next := n\<rparr>)"
    by (rule exI[of _ "cs_next s"]) (cases s, simp)
  show ?thesis
  proof (cases "e = 0")
    case False
    then obtain n where n: "q = None" "t = s1\<lparr>cs_next := n\<rparr>"
      using create_mapping_descriptor_cases[OF cmd] by auto
    then have tn: "t\<lparr>ds_buffers := (ds_buffers t)(?b := False)\<rparr> = s\<lparr>cs_next := n\<rparr>"
      using undo by (cases s) (simp add: s1_def)
    show ?thesis
      using assms(3) q unfolding eq n(1) by (auto simp: tn split: if_splits)
  next
    case True
    then obtain md where md: "q = Some (?b + 1)" "im_type md = MAP_TYPE_API" "im_buffer md = ?b"
      "t = s1\<lparr>cs_next := ?b + 2, ds_vas := (ds_vas s)(?b + 1 \<mapsto> Mapping md)\<rparr>"
      using create_mapping_descriptor_cases[OF cmd] by (auto simp: s1_def)
    have t: "t = s\<lparr>cs_next := ?b + 2, ds_vas := (ds_vas s)(?b + 1 \<mapsto> Mapping md),
      ds_buffers := (if im_type md = MAP_TYPE_API then (ds_buffers s)(im_buffer md := True) else ds_buffers s)\<rparr>"
      by (cases s) (simp add: md s1_def)
    have "e' \<noteq> 0 \<longrightarrow> (\<exists>n. remove_mapping_descriptor (?b + 1) t' = s\<lparr>cs_next := n\<rparr>)"
      using descriptor_init_undo[OF assms(1,2) _ _ _ _ t i] assms(1) md(3) by (auto simp: dma_fresh_def)
    then show ?thesis
      using assms(3,4) i md(1) q unfolding eq by (auto split: if_splits)
  qed
qed

text \<open>C13: The three ways to make memory visible to the controller, allocating a buffer,
  mapping host memory and mapping GPU memory, undo everything when they fail, whichever of
  their steps fails: no handle is returned and the state is as before the call, with the
  controller's reference count restored, nothing left mapped in the kernel and no
  descriptor or buffer leaked.\<close>

theorem nvm_dma_failure_undone:
  assumes "dma_fresh s" "ctrl_usable ctrl s"
  shows "(case nvm_dma_create os k ctrl sz s of (err, r, s') \<Rightarrow> err \<noteq> 0 \<longrightarrow> r = None \<and> (\<exists>n. s' = s\<lparr>cs_next := n\<rparr>)) \<and>
    (case nvm_dma_map_host os k ctrl vaddr sz s of (err, r, s') \<Rightarrow> err \<noteq> 0 \<longrightarrow> r = None \<and> (\<exists>n. s' = s\<lparr>cs_next := n\<rparr>)) \<and>
    (case nvm_dma_map_device os k ctrl vaddr sz s of (err, r, s') \<Rightarrow> err \<noteq> 0 \<longrightarrow> r = None \<and> (\<exists>n. s' = s\<lparr>cs_next := n\<rparr>))"
proof -
  have q: "(\<exists>n. s = s\<lparr>cs_next := n\<rparr>)"
    by (rule exI[of _ "cs_next s"]) (cases s, simp)
  show ?thesis
    using nvm_dma_create_undo[OF assms, of os k sz] q
      map_user_undo[OF assms, where type = MAP_TYPE_HOST and buffer = vaddr and os = os and k = k and
        ps = "ctrl_page_size (c_handle (ctrl_of ctrl s))" and sz = "NVM_CTRL_ALIGN (c_handle (ctrl_of ctrl s)) sz"]
      map_user_undo[OF assms, where type = MAP_TYPE_CUDA and buffer = vaddr and os = os and k = k and
        ps = "push_bit 16 1" and sz = sz]
    by (auto simp: nvm_dma_map_host_def nvm_dma_map_device_def Let_def)
qed

definition example_dma_state :: dma_state where
  "example_dma_state = \<lparr>cs_ctrls = [7 \<mapsto> \<lparr>c_count = 1, c_type = DEVICE_TYPE_IOCTL, c_device = Some 3,
       c_ops = \<lparr>ops_release_device = True, ops_map_range = True, ops_unmap_range = True\<rparr>,
       c_handle = zero_ctrl\<lparr>ctrl_page_size := 4096\<rparr>\<rparr>],
     cs_devs = [3 \<mapsto> 5], cs_fds = (\<lambda>f. f = 5), cs_mmaps = (\<lambda>_. False), cs_released = [], cs_next = 8,
     cs_oom = (\<lambda>_. False), ds_vas = (\<lambda>_. None), ds_buffers = (\<lambda>_. False), ds_maps = (\<lambda>_. None),
     ds_conts = (\<lambda>_. None), ds_kmaps = (\<lambda>_. False), ds_va_released = []\<rparr>"

theorem nvm_dma_failure_undone_witness:
  "case nvm_dma_create example_os \<lparr>k_map = (\<lambda>_ _ _. (-1, [])), k_memalign = 0\<rparr> 7 8192 example_dma_state of
     (err, r, s') \<Rightarrow> err \<noteq> 0 \<longrightarrow> r = None \<and> (\<exists>n. s' = example_dma_state\<lparr>cs_next := n\<rparr>)"
  using nvm_dma_failure_undone[of example_dma_state 7 example_os
      "\<lparr>k_map = (\<lambda>_ _ _. (-1, [])), k_memalign = 0\<rparr>" 8192 0]
  by (simp add: dma_fresh_def ctrl_usable_def example_dma_state_def)

subsection \<open>Life of a mapping\<close>

lemma dma_map_success:
  assumes "dma_map os k cont s = (0, s')" "os_errno os \<noteq> 0"
    and "ds_conts s cont = Some co" "ds_maps s (d_map co) = Some m" "cs_ctrls s (m_ctrl m) = Some c"
    and "ds_vas s (m_va m) = Some (Mapping md)"
  shows "\<exists>n io. s' = s\<lparr>cs_next := n, ds_kmaps := (ds_kmaps s)(im_buffer md := True),
      ds_maps := (ds_maps s)(d_map co \<mapsto> m\<lparr>m_unmap := ops_unmap_range (c_ops c)\<rparr>),
      ds_conts := (ds_conts s)(cont \<mapsto> co\<lparr>d_handle := populate_handle (d_handle co) (im_range md) (c_handle c) io\<rparr>)\<rparr>"
  using assms
  by (auto simp: dma_map_def ioctl_map_def malloc_def Let_def split: if_splits mapping_type.splits prod.splits)

lemma nvm_dma_init_success:
  assumes "nvm_dma_init os k ctrl va s = (0, r, s')" "os_errno os \<noteq> 0" "cs_ctrls s ctrl = Some c" "c_count c \<noteq> 0"
    and "ds_vas s va = Some (Mapping md)"
  shows "r = Some (cs_next s + 1) \<and> (\<exists>n h. s' = s\<lparr>cs_next := n,
      cs_ctrls := (cs_ctrls s)(ctrl \<mapsto> c\<lparr>c_count := c_count c + 1\<rparr>),
      ds_kmaps := (ds_kmaps s)(im_buffer md := True),
      ds_maps := (ds_maps s)(cs_next s \<mapsto> \<lparr>m_count = 1, m_ctrl = ctrl, m_va = va, m_unmap = ops_unmap_range (c_ops c)\<rparr>),
      ds_conts := (ds_conts s)(cs_next s + 1 \<mapsto> \<lparr>d_map = cs_next s, d_handle = h\<rparr>)\<rparr>)"
proof -
  obtain e1 r1 s1 where m: "create_map os ctrl va s = (e1, r1, s1)"
    by (metis prod_cases3)
  obtain e2 r2 s2 where cc: "create_container (cs_next s) s1 = (e2, r2, s2)"
    by (metis prod_cases3)
  obtain e3 s3 where dm: "dma_map os k (cs_next s + 1) s2 = (e3, s3)"
    by fastforce
  have e1: "e1 = 0"
    using create_map_cases[OF m assms(3,4)] m assms(1) by (auto simp: nvm_dma_init_def)
  then have s1: "r1 = Some (cs_next s)" "s1 = s\<lparr>cs_ctrls := (cs_ctrls s)(ctrl \<mapsto> c\<lparr>c_count := c_count c + 1\<rparr>),
      cs_next := cs_next s + 1, ds_maps := (ds_maps s)(cs_next s \<mapsto> \<lparr>m_count = 1, m_ctrl = ctrl, m_va = va, m_unmap = False\<rparr>)\<rparr>"
    using create_map_cases[OF m assms(3,4)] by auto
  have e2: "e2 = 0"
    using create_container_cases[OF cc] cc m s1(1) assms(1) by (auto simp: nvm_dma_init_def)
  then obtain loc where s2: "r2 = Some (cs_next s + 1)" "s2 = s1\<lparr>cs_next := cs_next s1 + 1,
      ds_conts := (ds_conts s1)(cs_next s + 1 \<mapsto> \<lparr>d_map = cs_next s, d_handle = empty_handle loc\<rparr>)\<rparr>"
    using create_container_cases[OF cc] by (auto simp: s1(2))
  have e3: "e3 = 0" "s' = s3" "r = Some (cs_next s + 1)"
    using m s1(1) cc s2(1) dm assms(1) by (auto simp: nvm_dma_init_def split: if_splits)
  have "\<exists>n io. s3 = s2\<lparr>cs_next := n, ds_kmaps := (ds_kmaps s2)(im_buffer md := True),
      ds_maps := (ds_maps s2)(cs_next s \<mapsto> \<lparr>m_count = 1, m_ctrl = ctrl, m_va = va, m_unmap = False\<rparr>
          \<lparr>m_unmap := ops_unmap_range (c_ops (c\<lparr>c_count := c_count c + 1\<rparr>))\<rparr>),
      ds_conts := (ds_conts s2)(cs_next s + 1 \<mapsto> \<lparr>d_map = cs_next s, d_handle = empty_handle loc\<rparr>
          \<lparr>d_handle := populate_handle (empty_handle loc) (im_range md) (c_handle (c\<lparr>c_count := c_count c + 1\<rparr>)) io\<rparr>)\<rparr>"
    using dma_map_success[OF dm[unfolded e3(1)] assms(2), of "\<lparr>d_map = cs_next s, d_handle = empty_handle loc\<rparr>"
      "\<lparr>m_count = 1, m_ctrl = ctrl, m_va = va, m_unmap = False\<rparr>" "c\<lparr>c_count := c_count c + 1\<rparr>" md] assms(5)
    by (simp add: s2 s1)
  then show ?thesis
    using e3 by (cases s) (auto simp: s2 s1)
qed

text \<open>C22: Unmapping the buffer that \<open>nvm_dma_create\<close> has made is the inverse of creating it:
  the kernel mapping is removed, buffer, descriptors and handle are freed, and the
  controller's reference is given back, so the state is the one before the call, apart from
  the record that the range was released, once.\<close>

theorem nvm_dma_create_unmap:
  assumes "dma_fresh s" "cs_ctrls s ctrl = Some c" "c_count c \<noteq> 0" "ops_unmap_range (c_ops c)"
    and "\<not> ds_kmaps s (cs_next s)" "os_errno os \<noteq> 0" "nvm_dma_create os k ctrl sz s = (0, r, s1)"
  shows "\<exists>n. nvm_dma_unmap r s1 = s\<lparr>cs_next := n, ds_va_released := (cs_next s + 1) # ds_va_released s\<rparr>"
proof -
  let ?h = "c_handle c" and ?b = "cs_next s"
  define s0 where "s0 = s\<lparr>cs_next := ?b + 1, ds_buffers := (ds_buffers s)(?b := True)\<rparr>"
  have ct: "ctrl_of ctrl s = c"
    using assms(2) by (simp add: ctrl_of_def)
  obtain e q t where cmd: "create_mapping_descriptor (ctrl_page_size ?h) MAP_TYPE_API ?b (NVM_CTRL_ALIGN ?h sz) s0 = (e, q, t)"
    by (metis prod_cases3)
  have e: "e = 0"
    using create_mapping_descriptor_cases[OF cmd] assms(7) cmd
    by (auto simp: nvm_dma_create_def ct Let_def s0_def split: if_splits)
  then obtain md where md: "q = Some (?b + 1)" "im_type md = MAP_TYPE_API" "im_buffer md = ?b"
      "t = s0\<lparr>cs_next := ?b + 2, ds_vas := (ds_vas s)(?b + 1 \<mapsto> Mapping md)\<rparr>"
    using create_mapping_descriptor_cases[OF cmd] by (auto simp: s0_def)
  have init: "nvm_dma_init os k ctrl (?b + 1) t = (0, r, s1)"
    using assms(7) cmd md(1) by (auto simp: nvm_dma_create_def ct Let_def s0_def split: if_splits prod.splits)
  have t: "cs_ctrls t ctrl = Some c" "ds_vas t (?b + 1) = Some (Mapping md)" "cs_next t = ?b + 2"
    using assms(2) by (simp_all add: md(4) s0_def)
  obtain n h where s1: "r = Some (?b + 3)" "s1 = t\<lparr>cs_next := n,
      cs_ctrls := (cs_ctrls t)(ctrl \<mapsto> c\<lparr>c_count := c_count c + 1\<rparr>),
      ds_kmaps := (ds_kmaps t)(im_buffer md := True),
      ds_maps := (ds_maps t)(?b + 2 \<mapsto> \<lparr>m_count = 1, m_ctrl = ctrl, m_va = ?b + 1, m_unmap = ops_unmap_range (c_ops c)\<rparr>),
      ds_conts := (ds_conts t)(?b + 3 \<mapsto> \<lparr>d_map = ?b + 2, d_handle = h\<rparr>)\<rparr>"
    using nvm_dma_init_success[OF init assms(6) t(1) assms(3) t(2)] by (auto simp: t(3) numeral_3_eq_3)
  have undo: "(ds_buffers s)(?b := False) = ds_buffers s" "(ds_vas s)(Suc ?b := None) = ds_vas s"
      "(ds_maps s)(Suc (Suc ?b) := None) = ds_maps s" "(ds_conts s)(?b + 3 := None) = ds_conts s"
      "(ds_kmaps s)(?b := False) = ds_kmaps s" "(cs_ctrls s)(ctrl \<mapsto> c) = cs_ctrls s" "c\<lparr>c_count := c_count c\<rparr> = c"
    using assms(1,2,5) by (auto simp: dma_fresh_def fun_eq_iff)
  show ?thesis
    using assms(2-4) undo
    by (cases s) (simp add: s1 md s0_def nvm_dma_unmap_def remove_container_def put_map_def ioctl_unmap_def release_va_def
        remove_mapping_descriptor_def remove_map_def nvm_ctrl_put_def Let_def)
qed

theorem nvm_dma_create_unmap_witness:
  "\<exists>r s1 n. nvm_dma_create example_os \<lparr>k_map = (\<lambda>_ _ n. (0, map of_nat [0..<n])), k_memalign = 0\<rparr> 7 8192
       example_dma_state = (0, r, s1) \<and>
     nvm_dma_unmap r s1 = example_dma_state\<lparr>cs_next := n, ds_va_released := [9]\<rparr>"
proof -
  let ?k = "\<lparr>k_map = (\<lambda>_ _ n. (0, map of_nat [0..<n])), k_memalign = 0\<rparr>"
  have "fst (nvm_dma_create example_os ?k 7 8192 example_dma_state) = 0"
    by (simp add: nvm_dma_create_def example_dma_state_def ctrl_of_def NVM_CTRL_ALIGN_def NVM_PAGE_ALIGN_def
        NVM_PAGE_MASK_def create_mapping_descriptor_def malloc_def nvm_dma_init_def create_map_def nvm_ctrl_get_def
        example_os_def create_container_def dma_map_def ioctl_map_def zero_ctrl_def Let_def)
  then obtain r s1 where c: "nvm_dma_create example_os ?k 7 8192 example_dma_state = (0, r, s1)"
    by (metis fst_conv prod_cases3)
  have "\<exists>n. nvm_dma_unmap r s1 = example_dma_state\<lparr>cs_next := n,
      ds_va_released := (cs_next example_dma_state + 1) # ds_va_released example_dma_state\<rparr>"
    by (rule nvm_dma_create_unmap[where c = "the (cs_ctrls example_dma_state 7)", OF _ _ _ _ _ _ c])
      (simp_all add: dma_fresh_def example_dma_state_def example_os_def)
  then show ?thesis
    using c by (auto simp: example_dma_state_def)
qed

lemma nvm_dma_map_device_unmap:
  assumes "dma_fresh s" "cs_ctrls s ctrl = Some c" "c_count c \<noteq> 0" "ops_unmap_range (c_ops c)"
    and "\<not> ds_kmaps s devptr" "os_errno os \<noteq> 0" "nvm_dma_map_device os k ctrl devptr sz s = (0, r, s1)"
  shows "(\<exists>a co. r = Some a \<and> ds_conts s1 a = Some co) \<and> ds_kmaps s1 devptr \<and>
    (\<exists>n. nvm_dma_unmap r s1 = s\<lparr>cs_next := n, ds_va_released := cs_next s # ds_va_released s\<rparr>)"
proof -
  let ?b = "cs_next s"
  have ct: "ctrl_of ctrl s = c"
    using assms(2) by (simp add: ctrl_of_def)
  obtain e q t where cmd: "create_mapping_descriptor (push_bit 16 1) MAP_TYPE_CUDA devptr sz s = (e, q, t)"
    by (metis prod_cases3)
  have e: "e = 0"
    using create_mapping_descriptor_cases[OF cmd] assms(7) cmd
    by (auto simp: nvm_dma_map_device_def ct split: if_splits)
  then obtain md where md: "q = Some ?b" "im_type md = MAP_TYPE_CUDA" "im_buffer md = devptr"
      "t = s\<lparr>cs_next := ?b + 1, ds_vas := (ds_vas s)(?b \<mapsto> Mapping md)\<rparr>"
    using create_mapping_descriptor_cases[OF cmd] by auto
  have init: "nvm_dma_init os k ctrl ?b t = (0, r, s1)"
    using assms(7) cmd md(1) by (auto simp: nvm_dma_map_device_def ct split: if_splits prod.splits)
  have t: "cs_ctrls t ctrl = Some c" "ds_vas t ?b = Some (Mapping md)" "cs_next t = ?b + 1"
    using assms(2) by (simp_all add: md(4))
  obtain n h where s1: "r = Some (?b + 2)" "s1 = t\<lparr>cs_next := n,
      cs_ctrls := (cs_ctrls t)(ctrl \<mapsto> c\<lparr>c_count := c_count c + 1\<rparr>),
      ds_kmaps := (ds_kmaps t)(im_buffer md := True),
      ds_maps := (ds_maps t)(?b + 1 \<mapsto> \<lparr>m_count = 1, m_ctrl = ctrl, m_va = ?b, m_unmap = ops_unmap_range (c_ops c)\<rparr>),
      ds_conts := (ds_conts t)(?b + 2 \<mapsto> \<lparr>d_map = ?b + 1, d_handle = h\<rparr>)\<rparr>"
    using nvm_dma_init_success[OF init assms(6) t(1) assms(3) t(2)] by (auto simp: t(3) numeral_2_eq_2)
  have undo: "(ds_vas s)(?b := None) = ds_vas s"
      "(ds_maps s)(Suc ?b := None) = ds_maps s" "(ds_conts s)(Suc (Suc ?b) := None) = ds_conts s"
      "(ds_kmaps s)(devptr := False) = ds_kmaps s" "(cs_ctrls s)(ctrl \<mapsto> c) = cs_ctrls s" "c\<lparr>c_count := c_count c\<rparr> = c"
    using assms(1,2,5) by (auto simp: dma_fresh_def fun_eq_iff)
  have "\<exists>n. nvm_dma_unmap r s1 = s\<lparr>cs_next := n, ds_va_released := ?b # ds_va_released s\<rparr>"
    using assms(2-4) undo
    by (cases s) (simp add: s1 md nvm_dma_unmap_def remove_container_def put_map_def ioctl_unmap_def release_va_def
        remove_mapping_descriptor_def remove_map_def nvm_ctrl_put_def Let_def)
  then show ?thesis
    by (auto simp: s1 md)
qed

definition map_count :: "nat \<Rightarrow> 'a dma_state_scheme \<Rightarrow> nat option" where
  "map_count a s = map_option (\<lambda>m. unat (m_count m)) (ds_maps s a)"

definition map_live :: "nat \<Rightarrow> nat \<Rightarrow> 'a dma_state_scheme \<Rightarrow> bool" where
  "map_live a va s \<longleftrightarrow> (\<exists>m. ds_maps s a = Some m \<and> m_va m = va \<and> 0 < unat (m_count m))"

text \<open>A mapping that is in force: it is to be unmapped by its last reference, its descriptor exists and the kernel
  has its buffer mapped.\<close>

definition map_held :: "nat \<Rightarrow> nat \<Rightarrow> ioctl_mapping \<Rightarrow> 'a dma_state_scheme \<Rightarrow> bool" where
  "map_held a va md s \<longleftrightarrow> (\<exists>m. ds_maps s a = Some m \<and> m_va m = va \<and> 0 < unat (m_count m) \<and> m_unmap m) \<and>
     ds_vas s va = Some (Mapping md) \<and> ds_kmaps s (im_buffer md)"

definition map_gone :: "nat \<Rightarrow> ioctl_mapping \<Rightarrow> 'a dma_state_scheme \<Rightarrow> bool" where
  "map_gone va md s \<longleftrightarrow> ds_vas s va = None \<and> \<not> ds_kmaps s (im_buffer md) \<and>
     (im_type md = MAP_TYPE_API \<longrightarrow> \<not> ds_buffers s (im_buffer md))"

lemma nvm_ctrl_put_keeps:
  "ds_va_released (nvm_ctrl_put h s) = ds_va_released s" "ds_vas (nvm_ctrl_put h s) = ds_vas s"
  "ds_kmaps (nvm_ctrl_put h s) = ds_kmaps s" "ds_buffers (nvm_ctrl_put h s) = ds_buffers s"
  by (simp_all add: nvm_ctrl_put_def remove_handle_def release_device_def Let_def split: option.splits)

lemma get_map_counts:
  assumes "ds_maps s a = Some m" "unat (m_count m) < 2 ^ 32 - 1"
  shows "snd (get_map (Some a) s) = s\<lparr>ds_maps := (ds_maps s)(a \<mapsto> m\<lparr>m_count := m_count m + 1\<rparr>)\<rparr>"
    "unat (m_count m + 1) = Suc (unat (m_count m))"
  using assms by (simp_all add: get_map_def unat_add_no_wrap)

lemma put_map_more:
  assumes "ds_maps s a = Some m" "unat (m_count m) = Suc (Suc n)"
  shows "put_map (Some a) s = s\<lparr>ds_maps := (ds_maps s)(a \<mapsto> m\<lparr>m_count := m_count m - 1\<rparr>)\<rparr>" "unat (m_count m - 1) = Suc n"
proof -
  show n: "unat (m_count m - 1) = Suc n"
    using assms(2) by (rule u32_dec)
  then have "m_count m - 1 \<noteq> 0"
    by (metis nat.distinct(1) unsigned_0)
  then show "put_map (Some a) s = s\<lparr>ds_maps := (ds_maps s)(a \<mapsto> m\<lparr>m_count := m_count m - 1\<rparr>)\<rparr>"
    using assms(1) by (simp add: put_map_def Let_def)
qed

lemma put_map_last:
  assumes "ds_maps s a = Some m" "unat (m_count m) = 1"
  shows "ds_maps (put_map (Some a) s) a = None \<and> ds_va_released (put_map (Some a) s) = m_va m # ds_va_released s \<and>
    (m_unmap m \<longrightarrow> ds_vas s (m_va m) = Some (Mapping md) \<longrightarrow> map_gone (m_va m) md (put_map (Some a) s))"
proof -
  let ?s = "s\<lparr>ds_maps := (ds_maps s)(a \<mapsto> m\<lparr>m_count := 0\<rparr>)\<rparr>"
  define t where "t = release_va (m_va m) (if m_unmap m then ioctl_unmap (m_va m) ?s else ?s)"
  have "ds_maps t = ds_maps ?s" "ds_va_released t = m_va m # ds_va_released s"
    by (auto simp: t_def release_va_def remove_mapping_descriptor_def ioctl_unmap_def Let_def
        split: option.splits va_object.splits)
  moreover have "map_gone (m_va m) md t" if "m_unmap m" "ds_vas s (m_va m) = Some (Mapping md)"
    using that by (simp add: t_def map_gone_def release_va_def remove_mapping_descriptor_def ioctl_unmap_def Let_def)
  moreover have "m_count m = 1"
    using assms(2) by (simp add: word_unat_eq_iff)
  then have "put_map (Some a) s = remove_map a t"
    using assms(1) by (simp add: put_map_def t_def Let_def)
  ultimately show ?thesis
    by (simp add: remove_map_def map_gone_def nvm_ctrl_put_keeps)
qed

interpretation map_rc: refcounted
  "\<lambda>s. snd (get_map (Some a) s)" "put_map (Some a)" "map_count a"
  "\<lambda>s. count_list (ds_va_released s) va" "map_live a va" "2 ^ 32 - 1"
proof
  fix s :: "'a dma_state_scheme" and n
  assume live: "map_live a va s"
  then obtain m where m: "ds_maps s a = Some m" "m_va m = va" "0 < unat (m_count m)"
    by (auto simp: map_live_def)
  show "map_count a (snd (get_map (Some a) s)) = Some (Suc n)"
    if "map_count a s = Some n" "0 < n" "n < 2 ^ 32 - 1"
    using that get_map_counts[OF m(1)] m(1) by (simp add: map_count_def)
  show "count_list (ds_va_released (snd (get_map (Some a) s))) va = count_list (ds_va_released s) va"
    using m by (simp add: get_map_def)
  show "map_live a va (snd (get_map (Some a) s))"
    if "map_count a s = Some n" "0 < n" "n < 2 ^ 32 - 1"
    using that get_map_counts[OF m(1)] m by (simp add: map_live_def map_count_def)
  show "map_count a (put_map (Some a) s) = None \<and>
      count_list (ds_va_released (put_map (Some a) s)) va = Suc (count_list (ds_va_released s) va)"
    if "map_count a s = Some 1"
    using that put_map_last[OF m(1)] m by (simp add: map_count_def)
  show "map_count a (put_map (Some a) s) = Some (Suc n) \<and>
      count_list (ds_va_released (put_map (Some a) s)) va = count_list (ds_va_released s) va \<and>
      map_live a va (put_map (Some a) s)"
    if "map_count a s = Some (Suc (Suc n))"
    using that put_map_more[OF m(1)] m by (simp add: map_count_def map_live_def)
qed

text \<open>The same contract, with the mapping itself as the object that is released.\<close>

interpretation held_rc: refcounted
  "\<lambda>s. snd (get_map (Some a) s)" "put_map (Some a)" "map_count a"
  "\<lambda>s. if map_gone va md s then 1 else 0" "map_held a va md" "2 ^ 32 - 1"
proof
  fix s :: "'a dma_state_scheme" and n
  assume held: "map_held a va md s"
  then obtain m where m: "ds_maps s a = Some m" "m_va m = va" "0 < unat (m_count m)" "m_unmap m"
    by (auto simp: map_held_def)
  have va: "ds_vas s va = Some (Mapping md)" "ds_kmaps s (im_buffer md)" "\<not> map_gone va md s"
    using held by (simp_all add: map_held_def map_gone_def)
  show "map_count a (snd (get_map (Some a) s)) = Some (Suc n)"
    if "map_count a s = Some n" "0 < n" "n < 2 ^ 32 - 1"
    using that get_map_counts[OF m(1)] m(1) by (simp add: map_count_def)
  show "(if map_gone va md (snd (get_map (Some a) s)) then 1 else 0 :: nat) = (if map_gone va md s then 1 else 0)"
    using m(1) by (simp add: get_map_def map_gone_def)
  show "map_held a va md (snd (get_map (Some a) s))"
    if "map_count a s = Some n" "0 < n" "n < 2 ^ 32 - 1"
    using that get_map_counts[OF m(1)] m va by (simp add: map_held_def map_count_def)
  show "map_count a (put_map (Some a) s) = None \<and>
      (if map_gone va md (put_map (Some a) s) then 1 else 0) = Suc (if map_gone va md s then 1 else 0)"
    if "map_count a s = Some 1"
    using that put_map_last[OF m(1), of md] m va by (simp add: map_count_def)
  show "map_count a (put_map (Some a) s) = Some (Suc n) \<and>
      (if map_gone va md (put_map (Some a) s) then 1 else 0 :: nat) = (if map_gone va md s then 1 else 0) \<and>
      map_held a va md (put_map (Some a) s)"
    if "map_count a s = Some (Suc (Suc n))"
    using that put_map_more[OF m(1)] m va by (simp add: map_count_def map_held_def map_gone_def)
qed

text \<open>C17: A mapping shared between several handles stays mapped as long as one of them
  is left: after any sequence of remaps and removals in which none follows the removal of
  the last one, the address range has been released, once, exactly if no handle is
  left. A mapping in force is then gone, unmapped in the kernel, its descriptor freed and, if the library allocated
  it, its buffer freed; as long as a handle is left, it is still in force.\<close>

theorem map_released_once:
  assumes "ds_maps s a = Some m" "m_va m = va" "m_count m = 1" "rc_spec 1 ops = Some left" "length ops < 2 ^ 32 - 1"
  shows "let s' = rc_run (\<lambda>s. snd (get_map (Some a) s)) (put_map (Some a)) ops s in
    map_count a s' = (if left = 0 then None else Some left) \<and>
    count_list (ds_va_released s') va = count_list (ds_va_released s) va + (if left = 0 then 1 else 0) \<and>
    (m_unmap m \<and> ds_vas s va = Some (Mapping md) \<and> ds_kmaps s (im_buffer md) \<longrightarrow>
      (if left = 0
       then ds_vas s' va = None \<and> \<not> ds_kmaps s' (im_buffer md) \<and> (im_type md = MAP_TYPE_API \<longrightarrow> \<not> ds_buffers s' (im_buffer md))
       else ds_vas s' va = Some (Mapping md) \<and> ds_kmaps s' (im_buffer md)))"
proof -
  have 1: "map_live a va s" "map_count a s = Some 1"
    using assms(1-3) by (simp_all add: map_live_def map_count_def)
  have 2: "if left = 0 then map_gone va md (rc_run (\<lambda>s. snd (get_map (Some a) s)) (put_map (Some a)) ops s)
      else map_held a va md (rc_run (\<lambda>s. snd (get_map (Some a) s)) (put_map (Some a)) ops s)"
    if "m_unmap m" "ds_vas s va = Some (Mapping md)" "ds_kmaps s (im_buffer md)"
  proof -
    have "map_held a va md s"
      using that assms(1-3) by (simp add: map_held_def)
    then show ?thesis
      using held_rc.rc_run_correct[of a va md s 1 ops left] 1(2) assms(4,5) by (auto split: if_splits)
  qed
  show ?thesis
    using map_rc.rc_run_correct[of a va s 1 ops left] 1 2 assms(4,5)
    by (auto simp: Let_def map_gone_def map_held_def)
qed

definition example_held_state :: dma_state where
  "example_held_state = example_dma_state\<lparr>ds_maps := [9 \<mapsto> \<lparr>m_count = 1, m_ctrl = 7, m_va = 4, m_unmap = True\<rparr>],
     ds_vas := [4 \<mapsto> Mapping \<lparr>im_type = MAP_TYPE_HOST, im_buffer = 0x100000,
        im_range = \<lparr>va_remote = False, va_vaddr = 0x100000, va_page_size = 4096, va_n_pages = 2\<rparr>\<rparr>],
     ds_kmaps := (\<lambda>b. b = 0x100000)\<rparr>"

theorem map_released_once_witness:
  "(let s' = rc_run (\<lambda>s. snd (get_map (Some 9) s)) (put_map (Some 9)) [True, True, False] example_held_state
    in map_count 9 s' = Some 2 \<and> count_list (ds_va_released s') 4 = 0 \<and> ds_kmaps s' 0x100000) \<and>
   (let s' = rc_run (\<lambda>s. snd (get_map (Some 9) s)) (put_map (Some 9)) [True, False, False] example_held_state
    in map_count 9 s' = None \<and> count_list (ds_va_released s') 4 = 1 \<and> \<not> ds_kmaps s' 0x100000 \<and> ds_vas s' 4 = None)"
proof -
  have "rc_spec 1 [True, True, False] = Some 2" "rc_spec 1 [True, False, False] = Some 0"
    by (simp_all add: numeral_2_eq_2)
  then show ?thesis
    using map_released_once[of example_held_state 9 _ 4 "[True, True, False]" 2 "case ds_vas example_held_state 4 of Some (Mapping md) \<Rightarrow> md"]
      map_released_once[of example_held_state 9 _ 4 "[True, False, False]" 0 "case ds_vas example_held_state 4 of Some (Mapping md) \<Rightarrow> md"]
    by (simp add: Let_def example_held_state_def example_dma_state_def del: rc_run.simps)
qed

lemma populate_same_pages:
  assumes "va_page_size va = unat (ctrl_page_size ctrl)" "0 < va_page_size va" "length io = va_n_pages va"
  shows "dma_ioaddrs (populate_handle h va ctrl io) = io"
  using assms by (simp add: populate_handle_fields n_ctrl_pages_def page_ioaddr_def list_eq_iff_nth_eq)

text \<open>A handle made from another one by \<open>nvm_dma_remap\<close> shares its mapping and has the same
  bus addresses; the mapping then counts one more reference.\<close>

theorem nvm_dma_remap_same:
  assumes "nvm_dma_remap other s = (0, r, s')" "ds_conts s other = Some oc" "ds_maps s (d_map oc) = Some m"
    and "cs_ctrls s (m_ctrl m) = Some ct" "0 < dma_page_size (d_handle oc)"
    and "dma_page_size (d_handle oc) = unat (ctrl_page_size (c_handle ct))"
    and "length (dma_ioaddrs (d_handle oc)) = dma_n_ioaddrs (d_handle oc)"
  shows "\<exists>a c. r = Some a \<and> ds_conts s' a = Some c \<and> d_map c = d_map oc \<and>
    dma_ioaddrs (d_handle c) = dma_ioaddrs (d_handle oc) \<and>
    ds_maps s' (d_map oc) = Some (m\<lparr>m_count := m_count m + 1\<rparr>)"
proof -
  let ?s1 = "s\<lparr>ds_maps := (ds_maps s)(d_map oc \<mapsto> m\<lparr>m_count := m_count m + 1\<rparr>)\<rparr>"
  obtain e q t where cc: "create_container (d_map oc) ?s1 = (e, q, t)"
    by (metis prod_cases3)
  have e: "e = 0"
    using create_container_cases[OF cc] cc assms(1-3) by (auto simp: nvm_dma_remap_def get_map_def Let_def)
  then obtain loc where t: "q = Some (cs_next s)" "t = ?s1\<lparr>cs_next := cs_next s + 1,
      ds_conts := (ds_conts s)(cs_next s \<mapsto> \<lparr>d_map = d_map oc, d_handle = empty_handle loc\<rparr>)\<rparr>"
    using create_container_cases[OF cc] by auto
  show ?thesis
    using assms cc t by (auto simp: nvm_dma_remap_def get_map_def Let_def populate_same_pages)
qed

definition example_mapped_state :: dma_state where
  "example_mapped_state = example_dma_state\<lparr>cs_next := 11,
     ds_vas := [4 \<mapsto> Bare \<lparr>va_remote = False, va_vaddr = 0x100000, va_page_size = 4096, va_n_pages = 2\<rparr>],
     ds_maps := [9 \<mapsto> \<lparr>m_count = 1, m_ctrl = 7, m_va = 4, m_unmap = False\<rparr>],
     ds_conts := [10 \<mapsto> \<lparr>d_map = 9, d_handle = \<lparr>dma_vaddr = 0x100000, dma_local = True, dma_contiguous = False,
        dma_page_size = 4096, dma_n_ioaddrs = 2, dma_ioaddrs = [0x1000, 0x5000]\<rparr>\<rparr>]\<rparr>"

theorem nvm_dma_remap_same_witness:
  "\<exists>a c s'. nvm_dma_remap 10 example_mapped_state = (0, Some a, s') \<and> ds_conts s' a = Some c \<and>
     dma_ioaddrs (d_handle c) = [0x1000, 0x5000]"
proof -
  have "fst (nvm_dma_remap 10 example_mapped_state) = 0"
    by (simp add: example_mapped_state_def example_dma_state_def nvm_dma_remap_def get_map_def create_container_def
        malloc_def Let_def)
  then obtain r s' where r: "nvm_dma_remap 10 example_mapped_state = (0, r, s')"
    by (metis fst_conv prod_cases3)
  show ?thesis
    using nvm_dma_remap_same[OF r, of "the (ds_conts example_mapped_state 10)" "the (ds_maps example_mapped_state 9)"
        "the (cs_ctrls example_mapped_state 7)"] r
    by (auto simp: example_mapped_state_def example_dma_state_def)
qed

end
