(* ===== verification/Rpc.thy ===== *)
theory Rpc
  imports Dma
begin

text \<open>
  Admin queue references and the execution of admin commands, \<open>src/rpc.cpp\<close>.

  A reference owns a controller reference, the binding handles of its clients and, if
  it is local, the descriptor of the admin queue pair. The list of handles is a list in
  the order of its \<open>next\<close> pointers; an operation that would follow a null pointer has no
  result (\<open>None\<close>). Executing a command returns the effects it has on memory and
  doorbells, in order, and creating the admin queues the memory it clears and the registers
  it writes. The contents of the completion queue at each poll, and when
  the completion is copied, are parameters, as is the memory an uninitialised queue
  descriptor is found in. The locks are initialised when they are taken, and taking one does not fail.
\<close>

subsection \<open>State\<close>

record local_admin =
  la_qmem :: nat
  la_acq :: nvm_queue_t
  la_asq :: nvm_queue_t
  la_timeout :: u64

datatype rpc_stub = Stub_execute_command | Stub_remote nat

datatype rpc_data = Data_local local_admin | Data_remote nat

record nvm_admin_reference =
  ar_ctrl :: nat
  ar_handles :: "(u32 \<times> nat) list"
  ar_data :: "rpc_data option"
  ar_release :: bool
  ar_stub :: "rpc_stub option"

record rpc_state = dma_state +
  rs_refs :: "nat \<Rightarrow> nvm_admin_reference option"
  rs_handles_released :: "(u32 \<times> nat) list"

datatype effect = Write_cmd nat nvm_cmd_t | Doorbell nat u32

datatype aq_effect = Clear_memory nat nat | Write_reg reg_write

subsection \<open>Binding handles\<close>

fun handle_append :: "u32 \<Rightarrow> nat \<Rightarrow> (u32 \<times> nat) list \<Rightarrow> (u32 \<times> nat) list option" where
  "handle_append key data [] = Some [(key, data)]"
| "handle_append key data (h # hs) =
     (if fst h = key then None else map_option (Cons h) (handle_append key data hs))"

definition nvm_rpc_handle_insert ::
  "nat \<Rightarrow> u32 \<Rightarrow> nat option \<Rightarrow> bool \<Rightarrow> 'a rpc_state_scheme \<Rightarrow> rc \<times> 'a rpc_state_scheme" where
  "nvm_rpc_handle_insert ref key data release s =
     (if data = None \<or> \<not> release then (EINVAL, s)
      else
        case malloc s of
          (None, s) \<Rightarrow> (ENOMEM, s)
        | (Some _, s) \<Rightarrow>
          case rs_refs s ref of
            None \<Rightarrow> (EINVAL, s)
          | Some r \<Rightarrow>
            (case handle_append key (the data) (ar_handles r) of
               None \<Rightarrow> (EINVAL, s)
             | Some hs \<Rightarrow> (0, s\<lparr>rs_refs := (rs_refs s)(ref \<mapsto> r\<lparr>ar_handles := hs\<rparr>)\<rparr>)))"

text \<open>Unlinking: the list without the entry of the key, and the entry. When there is no
  such entry the code reads the successor of a null pointer.\<close>

fun handle_unlink :: "u32 \<Rightarrow> (u32 \<times> nat) list \<Rightarrow> ((u32 \<times> nat) list \<times> (u32 \<times> nat)) option" where
  "handle_unlink key [] = None"
| "handle_unlink key (h # hs) =
     (if fst h = key then Some (hs, h)
      else map_option (\<lambda>(hs', e). (h # hs', e)) (handle_unlink key hs))"

definition nvm_rpc_handle_remove :: "nat \<Rightarrow> u32 \<Rightarrow> 'a rpc_state_scheme \<Rightarrow> 'a rpc_state_scheme option" where
  "nvm_rpc_handle_remove ref key s =
     (case rs_refs s ref of
        None \<Rightarrow> None
      | Some r \<Rightarrow>
        map_option (\<lambda>(hs, e).
          s\<lparr>rs_refs := (rs_refs s)(ref \<mapsto> r\<lparr>ar_handles := hs\<rparr>),
            rs_handles_released := e # rs_handles_released s\<rparr>) (handle_unlink key (ar_handles r)))"

fun release_handles_loop :: "(u32 \<times> nat) list \<Rightarrow> (u32 \<times> nat) list \<Rightarrow> (u32 \<times> nat) list" where
  "release_handles_loop [] released = released"
| "release_handles_loop (h # hs) released = release_handles_loop hs (h # released)"

definition release_handles :: "nat \<Rightarrow> 'a rpc_state_scheme \<Rightarrow> 'a rpc_state_scheme" where
  "release_handles ref s =
     (case rs_refs s ref of
        None \<Rightarrow> s
      | Some r \<Rightarrow>
          s\<lparr>rs_handles_released := release_handles_loop (ar_handles r) (rs_handles_released s),
            rs_refs := (rs_refs s)(ref \<mapsto> r\<lparr>ar_handles := []\<rparr>)\<rparr>)"

subsection \<open>References\<close>

definition nvm_ref_get ::
  "os \<Rightarrow> nat option \<Rightarrow> 'a rpc_state_scheme \<Rightarrow> rc \<times> nat option \<times> 'a rpc_state_scheme" where
  "nvm_ref_get os ctrl s =
     (case nvm_ctrl_get ctrl s of
        (None, s) \<Rightarrow> (ENOTTY, None, s)
      | (Some cref, s) \<Rightarrow>
        case malloc s of
          (None, s) \<Rightarrow> (ENOMEM, None, nvm_ctrl_put (Some cref) s)
        | (Some ref, s) \<Rightarrow>
            if os_mutex_init os \<noteq> 0 then (os_mutex_init os, None, nvm_ctrl_put (Some cref) s)
            else (0, Some ref, s\<lparr>rs_refs := (rs_refs s)(ref \<mapsto>
                   \<lparr>ar_ctrl = cref, ar_handles = [], ar_data = None, ar_release = False, ar_stub = None\<rparr>)\<rparr>))"

definition remove_admin :: "rpc_data option \<Rightarrow> 'a rpc_state_scheme \<Rightarrow> 'a rpc_state_scheme" where
  "remove_admin data s =
     (case data of
        Some (Data_local admin) \<Rightarrow> nvm_dma_unmap (Some (la_qmem admin)) s
      | _ \<Rightarrow> s)"

definition nvm_ref_put :: "nat option \<Rightarrow> 'a rpc_state_scheme \<Rightarrow> 'a rpc_state_scheme" where
  "nvm_ref_put ref s =
     (case ref of
        None \<Rightarrow> s
      | Some a \<Rightarrow>
        case rs_refs s a of
          None \<Rightarrow> s
        | Some r \<Rightarrow>
            let s = release_handles a s;
                s = (if ar_release r then remove_admin (ar_data r) s else s);
                s = nvm_ctrl_put (Some (ar_ctrl r)) s
            in s\<lparr>rs_refs := (rs_refs s)(a := None)\<rparr>)"

subsection \<open>Commands\<close>

definition execute_command ::
  "local_admin \<Rightarrow> nvm_cmd_t \<Rightarrow> (nat \<Rightarrow> cpl_mem) \<Rightarrow> cpl_mem \<Rightarrow>
   rc \<times> nvm_cpl_t option \<times> local_admin \<times> effect list" where
  "execute_command admin cmd mem copied =
     (case nvm_sq_enqueue (la_asq admin) of
        (None, _) \<Rightarrow> (EAGAIN, None, admin, [])
      | (Some in_queue_cmd, asq) \<Rightarrow>
          let in_queue_id = NVM_DEFAULT_CID asq;
              local_copy = NVM_CMD_CID_write cmd in_queue_id;
              (asq, dbs) = nvm_sq_submit asq;
              effects = Write_cmd in_queue_cmd local_copy # map (\<lambda>(a, v). Doorbell a v) dbs
          in case nvm_cq_dequeue_block mem (la_acq admin) (la_timeout admin) of
               (None, acq) \<Rightarrow> (ETIME, None, admin\<lparr>la_asq := asq, la_acq := acq\<rparr>, effects)
             | (Some in_queue_cpl, acq) \<Rightarrow>
                 let asq = nvm_sq_update asq;
                     cpl = copied in_queue_cpl;
                     (acq, dbs) = nvm_cq_update acq
                 in (0, Some cpl, admin\<lparr>la_asq := asq, la_acq := acq\<rparr>,
                     effects @ map (\<lambda>(a, v). Doorbell a v) dbs))"

definition NVM_DMA_OFFSET :: "nvm_dma_t \<Rightarrow> nat \<Rightarrow> nat" where
  "NVM_DMA_OFFSET dma pageno = dma_vaddr dma + dma_page_size dma * pageno"

definition create_admin ::
  "nvm_queue_t \<Rightarrow> nvm_queue_t \<Rightarrow> controller \<Rightarrow> nat \<Rightarrow> 'a rpc_state_scheme \<Rightarrow>
   rc \<times> local_admin option \<times> aq_effect list \<times> 'a rpc_state_scheme" where
  "create_admin uninit_acq uninit_asq ctrl window s =
     (case ds_conts s window of
        None \<Rightarrow> (EINVAL, None, [], s)
      | Some w \<Rightarrow>
        if unat (ctrl_page_size (c_handle ctrl)) \<noteq> dma_page_size (d_handle w) then (EINVAL, None, [], s)
        else if dma_n_ioaddrs (d_handle w) < 2 then (ERANGE, None, [], s)
        else if dma_vaddr (d_handle w) = 0 then (EINVAL, None, [], s)
        else
          case nvm_dma_remap window s of
            (status, r, s) \<Rightarrow>
              if status \<noteq> 0 then (status, None, [], s)
              else
                case malloc s of
                  (None, s) \<Rightarrow> (ENOMEM, None, [], nvm_dma_unmap r s)
                | (Some _, s) \<Rightarrow>
                    (case r of
                       None \<Rightarrow> (EINVAL, None, [], s)
                     | Some copy \<Rightarrow>
                       case ds_conts s copy of
                         None \<Rightarrow> (EINVAL, None, [], s)
                       | Some c \<Rightarrow>
                         let h = c_handle ctrl;
                             q = d_handle c;
                             cleared = [Clear_memory (dma_vaddr q) (2 * dma_page_size q)];
                             acq = snd (nvm_queue_clear uninit_acq h True 0 (ucast (ctrl_page_size h div 16))
                               (dma_local q) (dma_vaddr q) (dma_ioaddrs q ! 0));
                             asq = snd (nvm_queue_clear uninit_asq h False 0 (ucast (ctrl_page_size h div 64))
                               (dma_local q) (NVM_DMA_OFFSET q 1) (dma_ioaddrs q ! 1))
                         in (0, Some \<lparr>la_qmem = copy, la_acq = acq, la_asq = asq,
                                      la_timeout = ctrl_timeout h\<rparr>, cleared, s)))"

definition qmem_ioaddrs :: "local_admin \<Rightarrow> 'a dma_state_scheme \<Rightarrow> u64 list" where
  "qmem_ioaddrs admin s =
     (case ds_conts s (la_qmem admin) of None \<Rightarrow> [] | Some c \<Rightarrow> dma_ioaddrs (d_handle c))"

text \<open>\<open>nvm_aq_create\<close>: the result of the controller reset is not looked at.\<close>

definition nvm_aq_create ::
  "os \<Rightarrow> nvm_queue_t \<Rightarrow> nvm_queue_t \<Rightarrow> u32 \<Rightarrow> (nat \<Rightarrow> u32) \<Rightarrow> nat \<Rightarrow> nat \<Rightarrow> 'a rpc_state_scheme \<Rightarrow>
   rc \<times> nat option \<times> aq_effect list \<times> 'a rpc_state_scheme" where
  "nvm_aq_create os uninit_acq uninit_asq cc csts ctrl window s =
     (case nvm_ref_get os (Some ctrl) s of
        (err, None, s) \<Rightarrow> (err, None, [], s)
      | (_, Some ref, s) \<Rightarrow>
        case create_admin uninit_acq uninit_asq (ctrl_of ctrl s) window s of
          (err, None, eff, s) \<Rightarrow> (err, None, eff, nvm_ref_put (Some ref) s)
        | (_, Some admin, eff, s) \<Rightarrow>
            let s = s\<lparr>rs_refs := (rs_refs s)(ref :=
                      map_option (\<lambda>r. r\<lparr>ar_data := Some (Data_local admin), ar_stub := Some Stub_execute_command,
                                        ar_release := True\<rparr>) (rs_refs s ref))\<rparr>;
                (_, ws) = nvm_raw_ctrl_reset (c_handle (ctrl_of ctrl s)) cc csts
                            (qmem_ioaddrs admin s ! 0) (qmem_ioaddrs admin s ! 1)
            in (0, Some ref, eff @ map Write_reg ws, s))"

definition nvm_aq_destroy :: "nat option \<Rightarrow> 'a rpc_state_scheme \<Rightarrow> 'a rpc_state_scheme" where
  "nvm_aq_destroy ref s = (case ref of None \<Rightarrow> s | Some r \<Rightarrow> nvm_ref_put (Some r) s)"

definition nvm_rpc_unbind :: "nat option \<Rightarrow> 'a rpc_state_scheme \<Rightarrow> 'a rpc_state_scheme" where
  "nvm_rpc_unbind ref s = (case ref of None \<Rightarrow> s | Some r \<Rightarrow> nvm_ref_put (Some r) s)"

definition nvm_ctrl_from_aq_ref :: "nat option \<Rightarrow> 'a rpc_state_scheme \<Rightarrow> nvm_ctrl_t option" where
  "nvm_ctrl_from_aq_ref ref s =
     (case ref of None \<Rightarrow> None
      | Some a \<Rightarrow>
      case rs_refs s a of None \<Rightarrow> None
      | Some r \<Rightarrow> map_option c_handle (cs_ctrls s (ar_ctrl r)))"

definition nvm_rpc_bind ::
  "nat \<Rightarrow> rpc_data option \<Rightarrow> bool \<Rightarrow> rpc_stub option \<Rightarrow> 'a rpc_state_scheme \<Rightarrow> rc \<times> 'a rpc_state_scheme" where
  "nvm_rpc_bind ref data release stub s =
     (case rs_refs s ref of
        None \<Rightarrow> (EINVAL, s)
      | Some r \<Rightarrow>
          if ar_data r \<noteq> None \<or> ar_stub r \<noteq> None then (EINVAL, s)
          else (0, s\<lparr>rs_refs := (rs_refs s)(ref \<mapsto> r\<lparr>ar_data := data, ar_release := release, ar_stub := stub\<rparr>)\<rparr>))"

text \<open>A remote stub is code outside this library: \<open>remote\<close> gives its answer.\<close>

definition run_stub ::
  "(nat \<Rightarrow> nvm_cmd_t \<Rightarrow> rc \<times> nvm_cpl_t option) \<Rightarrow> (nat \<Rightarrow> cpl_mem) \<Rightarrow> cpl_mem \<Rightarrow>
   rpc_stub \<Rightarrow> rpc_data option \<Rightarrow> nvm_cmd_t \<Rightarrow> rc \<times> nvm_cpl_t option \<times> rpc_data option \<times> effect list" where
  "run_stub remote mem copied stub data cmd =
     (case (stub, data) of
        (Stub_execute_command, Some (Data_local admin)) \<Rightarrow>
          (case execute_command admin cmd mem copied of
             (err, cpl, admin', eff) \<Rightarrow> (err, cpl, Some (Data_local admin'), eff))
      | (Stub_remote n, d) \<Rightarrow> (case remote n cmd of (err, cpl) \<Rightarrow> (err, cpl, d, []))
      | (_, d) \<Rightarrow> (EINVAL, None, d, []))"

definition nvm_raw_rpc ::
  "(nat \<Rightarrow> nvm_cmd_t \<Rightarrow> rc \<times> nvm_cpl_t option) \<Rightarrow> (nat \<Rightarrow> cpl_mem) \<Rightarrow> cpl_mem \<Rightarrow>
   nat \<Rightarrow> nvm_cmd_t \<Rightarrow> nvm_cpl_t \<Rightarrow> 'a rpc_state_scheme \<Rightarrow> rc \<times> nvm_cpl_t \<times> effect list \<times> 'a rpc_state_scheme" where
  "nvm_raw_rpc remote mem copied ref cmd cpl0 s =
     (case rs_refs s ref of
        None \<Rightarrow> (EINVAL, cpl0, [], s)
      | Some r \<Rightarrow>
        case ar_stub r of
          None \<Rightarrow> (NVM_ERR_PACK None EINVAL, cpl0, [], s)
        | Some stub \<Rightarrow>
          (case run_stub remote mem copied stub (ar_data r) cmd of
             (err, cpl, data, eff) \<Rightarrow>
               let c = (case cpl of None \<Rightarrow> cpl0 | Some c \<Rightarrow> c)
               in (NVM_ERR_PACK (Some c) err, c, eff, s\<lparr>rs_refs := (rs_refs s)(ref \<mapsto> r\<lparr>ar_data := data\<rparr>)\<rparr>)))"

definition nvm_local_admin ::
  "(nat \<Rightarrow> cpl_mem) \<Rightarrow> cpl_mem \<Rightarrow> nat \<Rightarrow> nvm_cmd_t \<Rightarrow> nvm_cpl_t \<Rightarrow> 'a rpc_state_scheme \<Rightarrow>
   rc \<times> nvm_cpl_t \<times> effect list \<times> 'a rpc_state_scheme" where
  "nvm_local_admin mem copied ref cmd cpl0 s =
     (case rs_refs s ref of
        None \<Rightarrow> (EINVAL, cpl0, [], s)
      | Some r \<Rightarrow>
        if ar_stub r \<noteq> Some Stub_execute_command then (NVM_ERR_PACK None EINVAL, cpl0, [], s)
        else
          case ar_data r of
            Some (Data_local admin) \<Rightarrow>
              (case execute_command admin cmd mem copied of
                 (err, cpl, admin', eff) \<Rightarrow>
                   (NVM_ERR_PACK None err, (case cpl of None \<Rightarrow> cpl0 | Some c \<Rightarrow> c), eff,
                    s\<lparr>rs_refs := (rs_refs s)(ref \<mapsto> r\<lparr>ar_data := Some (Data_local admin')\<rparr>)\<rparr>))
          | _ \<Rightarrow> (EINVAL, cpl0, [], s))"

subsection \<open>Handle lists\<close>

lemma handle_append_spec:
  "handle_append key data hs = (if key \<in> fst ` set hs then None else Some (hs @ [(key, data)]))"
  by (induction hs) auto

lemma handle_unlink_spec:
  assumes "distinct (map fst hs)"
  shows "handle_unlink key hs =
    (case map_of hs key of None \<Rightarrow> None | Some d \<Rightarrow> Some (filter (\<lambda>h. fst h \<noteq> key) hs, (key, d)))"
  using assms
proof (induction hs)
  case (Cons h hs)
  show ?case
  proof (cases "fst h = key")
    case True
    then have "filter (\<lambda>h. fst h \<noteq> key) hs = hs"
      using Cons.prems by (intro filter_True) (metis distinct.simps(2) image_eqI list.simps(9) set_map)
    then show ?thesis
      using True by (cases h) simp
  next
    case False
    then show ?thesis
      using Cons by (cases h) (simp split: option.splits)
  qed
qed simp

lemma release_handles_loop_eq: "release_handles_loop hs rel = rev hs @ rel"
  by (induction hs arbitrary: rel) simp_all

text \<open>C29: The binding handles of a reference are a finite map from keys: inserting a key
  that is present is refused and changes nothing, a new key is appended, and removing it
  again releases exactly its entry and leaves the handles that were there before, in their
  order. Removing a key that is absent has no defined result: the code follows a null
  pointer.\<close>

theorem rpc_handles_map:
  assumes "rs_refs s ref = Some r" "distinct (map fst (ar_handles r))" "\<not> cs_oom s (cs_next s)"
  shows "(case nvm_rpc_handle_insert ref key (Some d) True s of (err, s') \<Rightarrow>
      if key \<in> fst ` set (ar_handles r) then err = EINVAL \<and> rs_refs s' = rs_refs s
      else err = 0 \<and> rs_refs s' ref = Some (r\<lparr>ar_handles := ar_handles r @ [(key, d)]\<rparr>) \<and>
        (\<exists>s''. nvm_rpc_handle_remove ref key s' = Some s'' \<and> rs_refs s'' = rs_refs s \<and>
           rs_handles_released s'' = (key, d) # rs_handles_released s)) \<and>
    (key \<notin> fst ` set (ar_handles r) \<longrightarrow> nvm_rpc_handle_remove ref key s = None)"
proof -
  let ?hs = "ar_handles r @ [(key, d)]"
  have upd: "(rs_refs s)(ref \<mapsto> r\<lparr>ar_handles := ar_handles r\<rparr>) = rs_refs s"
    using assms(1) by (cases r) (simp add: fun_upd_idem)
  have none: "map_of (ar_handles r) key = None" if "key \<notin> fst ` set (ar_handles r)"
    using that by (simp add: map_of_eq_None_iff)
  have "handle_unlink key ?hs = Some (ar_handles r, (key, d))" if new: "key \<notin> fst ` set (ar_handles r)"
  proof -
    have "filter (\<lambda>h. fst h \<noteq> key) (ar_handles r) = ar_handles r"
      using new by (intro filter_True) force
    then show ?thesis
      using handle_unlink_spec[of ?hs key] assms(2) new none[OF new] by (auto simp: map_add_def)
  qed
  then show ?thesis
    using assms upd none handle_unlink_spec[OF assms(2), of key]
    by (auto simp: nvm_rpc_handle_insert_def nvm_rpc_handle_remove_def malloc_def handle_append_spec)
qed

subsection \<open>Executing commands\<close>

definition admin_ok :: "local_admin \<Rightarrow> bool" where
  "admin_ok a \<longleftrightarrow> sq_wf (la_asq a) \<and> q_last (la_asq a) = q_tail (la_asq a) \<and> sq_count (la_asq a) = 0 \<and>
     cq_wf (la_acq a) \<and> 2 \<le> unat (q_qs (la_acq a)) \<and> q_last (la_acq a) = q_head (la_acq a) \<and>
     q_db (la_acq a) \<noteq> None"

lemma ring_succ_neq:
  fixes h n :: nat
  assumes "h < n" "2 \<le> n"
  shows "(h + 1) mod n \<noteq> h"
  using assms ring_succ[OF assms(1)] by (auto split: if_splits)

text \<open>The slot after \<open>i\<close> in the ring of a queue.\<close>

definition ring_next :: "nvm_queue_t \<Rightarrow> u32 \<Rightarrow> u32" where
  "ring_next q i = (if i + 1 = q_qs q then 0 else i + 1)"

text \<open>The command \<open>cmd'\<close> is \<open>cmd\<close> with the identifier \<open>cid\<close>: the opcode and flags in the low half of the first
  word and all other words are those of \<open>cmd\<close>.\<close>

definition cmd_with_cid :: "u16 \<Rightarrow> nvm_cmd_t \<Rightarrow> nvm_cmd_t \<Rightarrow> bool" where
  "cmd_with_cid cid cmd cmd' \<longleftrightarrow> length cmd' = length cmd \<and> NVM_CMD_CID cmd' = cid \<and>
     take_bit 16 (cmd' ! 0) = take_bit 16 (cmd ! 0) \<and> tl cmd' = tl cmd"

lemma cmd_with_cid_write: "cmd \<noteq> [] \<Longrightarrow> cmd_with_cid cid cmd (NVM_CMD_CID_write cmd cid)"
proof -
  assume ne: "cmd \<noteq> []"
  have "take_bit 16 (NVM_CMD_CID_write cmd cid ! 0) = take_bit 16 (cmd ! 0)"
  proof (rule bit_word_eqI)
    fix n
    show "bit (take_bit 16 (NVM_CMD_CID_write cmd cid ! 0)) n \<longleftrightarrow> bit (take_bit 16 (cmd ! 0)) n"
      using ne mask_eq_exp_minus_1[of 16, where ?'a = u32] bit_mask_iff[of 16 n, where ?'a = u32]
      by (auto simp: NVM_CMD_CID_write_def bit_simps)
  qed
  moreover have "tl (NVM_CMD_CID_write cmd cid) = tl cmd" "length (NVM_CMD_CID_write cmd cid) = length cmd"
    by (cases cmd) (simp_all add: NVM_CMD_CID_write_def)
  ultimately show "cmd_with_cid cid cmd (NVM_CMD_CID_write cmd cid)"
    using ne by (simp add: cmd_with_cid_def NVM_CMD_CID_write_read)
qed

text \<open>The identifier of the next admin command: the position of the new tail, the queue size more in every other
  lap.\<close>

definition next_cid :: "nvm_queue_t \<Rightarrow> u16" where
  "next_cid q = (let t = ring_next q (q_tail q) in ucast (if (t = 0) = q_phase q then t + q_qs q else t))"

lemma admin_submit:
  assumes "admin_ok a"
  obtains asq db where "nvm_sq_enqueue (la_asq a) = (Some (queue_entry (la_asq a) (q_tail (la_asq a))), asq)"
    and "q_db (la_asq a) = Some db"
    and "nvm_sq_submit asq = (asq\<lparr>q_last := q_tail asq\<rparr>, [(db, q_tail asq)])"
    and "sq_wf asq" "sq_count asq = 1" "q_tail asq = ring_next (la_asq a) (q_tail (la_asq a))"
    and "NVM_DEFAULT_CID asq = next_cid (la_asq a)"
proof -
  let ?o = "la_asq a"
  have wf: "sq_wf ?o" and c0: "sq_count ?o = 0" and last: "q_last ?o = q_tail ?o"
    using assms by (simp_all add: admin_ok_def)
  have q2: "2 \<le> unat (q_qs ?o)"
    using wf by (simp add: sq_wf_def)
  obtain db where db: "q_db ?o = Some db"
    using wf by (auto simp: sq_wf_def)
  have ne: "sq_count ?o \<noteq> unat (q_qs ?o) - 1"
    using c0 q2 by simp
  let ?t = "ring_next ?o (q_tail ?o)"
  let ?q = "?o\<lparr>q_tail := ?t, q_phase := if q_tail ?o + 1 = q_qs ?o then \<not> q_phase ?o else q_phase ?o\<rparr>"
  have e: "nvm_sq_enqueue ?o = (Some (queue_entry ?o (q_tail ?o)), ?q)"
    using nvm_sq_enqueue_eq[OF wf ne] by (simp add: ring_next_def)
  have t: "unat ?t = (unat (q_tail ?o) + 1) mod unat (q_qs ?o)"
    using u32_succ_wrap[OF sq_wfD(5)[OF wf]] by (simp add: ring_next_def)
  then have "?t \<noteq> q_tail ?o"
    using ring_succ_neq[OF sq_wfD(3)[OF wf] q2] by auto
  then have "nvm_sq_submit ?q = (?q\<lparr>q_last := q_tail ?q\<rparr>, [(db, q_tail ?q)])"
    using db last by (simp add: nvm_sq_submit_def)
  moreover have "sq_wf ?q" "sq_count ?q = 1"
    using sq_enq_contents[OF wf ne t] c0 length_sq_slots[of ?q] length_sq_slots[of ?o] by simp_all
  moreover have "?t = 0 \<longleftrightarrow> q_tail ?o + 1 = q_qs ?o"
    using unat_plus_1[OF sq_wfD(5)[OF wf]] by (auto simp: ring_next_def word_unat_eq_iff)
  then have "NVM_DEFAULT_CID ?q = next_cid ?o"
    by (simp add: NVM_DEFAULT_CID_def next_cid_def Let_def)
  ultimately show ?thesis
    using that e db by simp
qed

lemma admin_retire:
  assumes "sq_wf asq" "sq_count asq = 1" 
  shows "sq_wf (nvm_sq_update (asq\<lparr>q_last := q_tail asq\<rparr>))"
    "sq_count (nvm_sq_update (asq\<lparr>q_last := q_tail asq\<rparr>)) = 0"
    "q_last (nvm_sq_update (asq\<lparr>q_last := q_tail asq\<rparr>)) = q_tail (nvm_sq_update (asq\<lparr>q_last := q_tail asq\<rparr>))"
proof -
  let ?q = "asq\<lparr>q_last := q_tail asq\<rparr>"
  have wf: "sq_wf ?q" and c: "sq_count ?q = 1"
    using assms by (simp_all add: sq_wf_def sq_count_def)
  then have "sq_slots ?q \<noteq> []"
    by (simp add: sq_slots_def)
  then show "sq_wf (nvm_sq_update ?q)" "sq_count (nvm_sq_update ?q) = 0"
    using sqf.deq_inv[OF wf] sqf.deq_content[OF wf] c length_sq_slots[of "nvm_sq_update ?q"] length_sq_slots[of ?q]
    by simp_all
  show "q_last (nvm_sq_update ?q) = q_tail (nvm_sq_update ?q)"
    by (simp add: nvm_sq_update_def Let_def)
qed

lemma admin_complete:
  assumes "admin_ok a" "nvm_cq_poll (la_acq a) m = Some x"
  obtains acq db where "nvm_cq_dequeue (la_acq a) m = (Some (queue_entry (la_acq a) (q_head (la_acq a))), acq)"
    and "q_db (la_acq a) = Some db"
    and "nvm_cq_update acq = (acq\<lparr>q_last := q_head acq, q_tail := q_head acq\<rparr>, [(db, q_head acq)])"
    and "cq_wf acq" "q_qs acq = q_qs (la_acq a)" "q_db acq = Some db" "q_head acq = ring_next (la_acq a) (q_head (la_acq a))"
proof -
  have wf: "cq_wf (la_acq a)" "q_last (la_acq a) = q_head (la_acq a)" "2 \<le> unat (q_qs (la_acq a))"
    using assms by (simp_all add: admin_ok_def)
  obtain db where db: "q_db (la_acq a) = Some db"
    using assms by (auto simp: admin_ok_def)
  let ?h = "q_head (la_acq a)" and ?n = "q_qs (la_acq a)"
  define acq where "acq = (la_acq a)\<lparr>q_head := if ?h + 1 = ?n then 0 else ?h + 1,
      q_phase := if ?h + 1 = ?n then \<not> q_phase (la_acq a) else q_phase (la_acq a)\<rparr>"
  have "x = queue_entry (la_acq a) ?h"
    using assms(2) by (auto simp: nvm_cq_poll_def Let_def split: if_splits)
  then have deq: "nvm_cq_dequeue (la_acq a) m = (Some (queue_entry (la_acq a) ?h), acq)"
    using assms(2) by (simp add: nvm_cq_dequeue_def acq_def Let_def)
  have h: "unat (q_head acq) = (unat ?h + 1) mod unat ?n"
    using u32_succ_wrap[of ?h ?n] wf by (simp add: acq_def cq_wf_def)
  have lt: "unat ?h < unat ?n"
    using wf by (simp add: cq_wf_def word_less_nat_alt)
  have ne: "q_head acq \<noteq> ?h"
    using h ring_succ_neq[OF lt wf(3)] by auto
  have "cq_wf acq"
    using h wf lt by (simp add: cq_wf_def word_less_nat_alt) (simp add: acq_def)
  moreover have "nvm_cq_update acq = (acq\<lparr>q_last := q_head acq, q_tail := q_head acq\<rparr>, [(db, q_head acq)])"
    using db wf ne by (simp add: nvm_cq_update_def) (simp add: acq_def)
  ultimately show ?thesis
    using that deq db by (simp add: acq_def ring_next_def)
qed

text \<open>C15: An admin command on an idle queue pair: the command, its identifier replaced by the one of the next
  slot and otherwise unchanged, is in its queue slot before the doorbell announces the new tail, the first completion
  that appears within the timeout is returned, and both queues are idle again with the
  controller told the new head of the completion queue. Without a completion in time the call
  reports a timeout after writing the same command and ringing the same doorbell once; the command stays outstanding
  and the completion queue is as before.\<close>

theorem execute_command_spec:
  assumes "admin_ok a" "unat (la_timeout a) * 1000000 < 2 ^ 64" "cmd \<noteq> []"
  shows "\<exists>cmd' sqdb cqdb. q_db (la_asq a) = Some sqdb \<and> q_db (la_acq a) = Some cqdb \<and>
    cmd_with_cid (next_cid (la_asq a)) cmd cmd' \<and>
    (let slot = queue_entry (la_asq a) (q_tail (la_asq a)); tail = ring_next (la_asq a) (q_tail (la_asq a));
         cpl = queue_entry (la_acq a) (q_head (la_acq a)); head = ring_next (la_acq a) (q_head (la_acq a))
     in (\<forall>j\<le>unat (la_timeout a). (\<forall>i<j. nvm_cq_poll (la_acq a) (mem i) = None) \<and> nvm_cq_poll (la_acq a) (mem j) \<noteq> None \<longrightarrow>
          (\<exists>a'. execute_command a cmd mem copied =
               (0, Some (copied cpl), a', [Write_cmd slot cmd', Doorbell sqdb tail, Doorbell cqdb head]) \<and>
             admin_ok a' \<and> q_tail (la_asq a') = tail \<and> q_head (la_acq a') = head)) \<and>
        ((\<forall>j\<le>unat (la_timeout a). nvm_cq_poll (la_acq a) (mem j) = None) \<longrightarrow>
          (\<exists>a'. execute_command a cmd mem copied = (ETIME, None, a', [Write_cmd slot cmd', Doorbell sqdb tail]) \<and>
             sq_count (la_asq a') = 1 \<and> q_tail (la_asq a') = tail \<and> la_acq a' = la_acq a)))"
proof -
  obtain asq sqdb where sub: "nvm_sq_enqueue (la_asq a) = (Some (queue_entry (la_asq a) (q_tail (la_asq a))), asq)"
    "q_db (la_asq a) = Some sqdb" "nvm_sq_submit asq = (asq\<lparr>q_last := q_tail asq\<rparr>, [(sqdb, q_tail asq)])"
    "sq_wf asq" "sq_count asq = 1" "q_tail asq = ring_next (la_asq a) (q_tail (la_asq a))"
    "NVM_DEFAULT_CID asq = next_cid (la_asq a)"
    using admin_submit[OF assms(1)] by blast
  define cmd' where "cmd' = NVM_CMD_CID_write cmd (next_cid (la_asq a))"
  have stamped: "cmd_with_cid (next_cid (la_asq a)) cmd cmd'"
    unfolding cmd'_def by (rule cmd_with_cid_write[OF assms(3)])
  obtain cqdb where cqdb: "q_db (la_acq a) = Some cqdb"
    using assms(1) by (auto simp: admin_ok_def)
  note block = dequeue_block_first[OF assms(2), of "la_acq a" mem]
  let ?slot = "queue_entry (la_asq a) (q_tail (la_asq a))" and ?cpl = "queue_entry (la_acq a) (q_head (la_acq a))"
  let ?tail = "ring_next (la_asq a) (q_tail (la_asq a))" and ?head = "ring_next (la_acq a) (q_head (la_acq a))"
  have found: "\<exists>a'. execute_command a cmd mem copied =
        (0, Some (copied ?cpl), a', [Write_cmd ?slot cmd', Doorbell sqdb ?tail, Doorbell cqdb ?head]) \<and>
      admin_ok a' \<and> q_tail (la_asq a') = ?tail \<and> q_head (la_acq a') = ?head"
    if j: "j \<le> unat (la_timeout a)" "(\<forall>i<j. nvm_cq_poll (la_acq a) (mem i) = None) \<and> nvm_cq_poll (la_acq a) (mem j) \<noteq> None" for j
  proof -
    obtain x where x: "nvm_cq_poll (la_acq a) (mem j) = Some x"
      using j by auto
    obtain acq where com: "nvm_cq_dequeue (la_acq a) (mem j) = (Some ?cpl, acq)"
      "nvm_cq_update acq = (acq\<lparr>q_last := q_head acq, q_tail := q_head acq\<rparr>, [(cqdb, q_head acq)])"
      "cq_wf acq" "q_qs acq = q_qs (la_acq a)" "q_db acq = Some cqdb" "q_head acq = ?head"
      using admin_complete[OF assms(1) x] cqdb by (metis option.inject)
    let ?a = "a\<lparr>la_asq := nvm_sq_update (asq\<lparr>q_last := q_tail asq\<rparr>), la_acq := acq\<lparr>q_last := q_head acq, q_tail := q_head acq\<rparr>\<rparr>"
    have "nvm_cq_dequeue_block mem (la_acq a) (la_timeout a) = (Some ?cpl, acq)"
      using block j com(1) by metis
    then have "execute_command a cmd mem copied =
           (0, Some (copied ?cpl), ?a, [Write_cmd ?slot cmd', Doorbell sqdb ?tail, Doorbell cqdb ?head])"
      using sub(1,3,6,7) com(2,6) by (simp add: execute_command_def cmd'_def Let_def)
    moreover have "admin_ok ?a"
      using assms(1) admin_retire[OF sub(4,5)] com(3-5) by (simp add: admin_ok_def cq_wf_def)
    moreover have "q_tail (la_asq ?a) = ?tail" "q_head (la_acq ?a) = ?head"
      using sub(6) com(6) by (simp_all add: nvm_sq_update_def Let_def)
    ultimately show ?thesis by blast
  qed
  have timeout: "\<exists>a'. execute_command a cmd mem copied = (ETIME, None, a', [Write_cmd ?slot cmd', Doorbell sqdb ?tail]) \<and>
      sq_count (la_asq a') = 1 \<and> q_tail (la_asq a') = ?tail \<and> la_acq a' = la_acq a"
    if none: "\<forall>j\<le>unat (la_timeout a). nvm_cq_poll (la_acq a) (mem j) = None"
  proof -
    have "nvm_cq_dequeue_block mem (la_acq a) (la_timeout a) = (None, la_acq a)"
      using block none by simp
    then show ?thesis
      using sub(1,3,5-7) by (simp add: execute_command_def sq_count_def cmd'_def Let_def)
  qed
  show ?thesis
    unfolding Let_def
  proof (rule exI[of _ cmd'], rule exI[of _ sqdb], rule exI[of _ cqdb], intro conjI sub(2) cqdb stamped)
  qed ((intro allI impI, rule found, assumption+), rule impI, rule timeout)
qed

definition example_rpc_state :: rpc_state where
  "example_rpc_state = dma_state.extend example_mapped_state \<lparr>rs_refs = [2 \<mapsto>
     \<lparr>ar_ctrl = 7, ar_handles = [(1, 100)], ar_data = None, ar_release = False, ar_stub = None\<rparr>],
     rs_handles_released = []\<rparr>"

definition example_admin :: local_admin where
  "example_admin =
     \<lparr>la_qmem = 10,
      la_acq = snd (nvm_queue_clear zero_queue (zero_ctrl\<lparr>ctrl_max_qs := 1024\<rparr>) True 0 256 True 0x8000 0),
      la_asq = snd (nvm_queue_clear zero_queue (zero_ctrl\<lparr>ctrl_max_qs := 1024\<rparr>) False 0 64 True 0x9000 0),
      la_timeout = 500\<rparr>"

theorem rpc_handles_map_witness:
  "(case nvm_rpc_handle_insert 2 5 (Some 50) True example_rpc_state of (err, s') \<Rightarrow> err = 0) \<and>
   nvm_rpc_handle_remove 2 5 example_rpc_state = None"
  using rpc_handles_map[of example_rpc_state 2 _ 5 50]
  by (auto simp: example_rpc_state_def example_mapped_state_def example_dma_state_def dma_state.extend_def)

lemma example_admin_ok: "admin_ok example_admin"
  by (simp add: admin_ok_def example_admin_def nvm_queue_clear_def zero_ctrl_def sq_wf_def cq_wf_def sq_count_def
      ring_count_def)

theorem execute_command_spec_witness:
  "\<exists>a' cmd' sqdb cqdb. execute_command example_admin (replicate 16 6)
      (\<lambda>t a. if t < 2 then [0, 0, 0, 0] else [0, 0, 0, 0x10000]) (\<lambda>a. [0, 0, 0, 0x10000]) =
      (0, Some [0, 0, 0, 0x10000], a', [Write_cmd 0x9000 cmd', Doorbell sqdb 1, Doorbell cqdb 1]) \<and>
    cmd_with_cid 1 (replicate 16 6) cmd'"
proof -
  let ?m = "\<lambda>t::nat. \<lambda>a::nat. if t < 2 then [0, 0, 0, 0] else [0, 0, 0, 0x10000 :: u32]"
  have "nvm_cq_poll (la_acq example_admin) (\<lambda>a. [0, 0, 0, 0]) = None"
    "nvm_cq_poll (la_acq example_admin) (\<lambda>a. [0, 0, 0, 0x10000]) = Some 0x8000"
    by (simp_all add: example_admin_def nvm_queue_clear_def zero_ctrl_def nvm_cq_poll_def cpl_phase_def bitfield_simps
        RB_def NVM_MASK_PART_def queue_entry_def Let_def)
  then have "\<forall>i<2. nvm_cq_poll (la_acq example_admin) (?m i) = None" "nvm_cq_poll (la_acq example_admin) (?m 2) \<noteq> None"
    by auto
  moreover have "la_timeout example_admin = 500" "queue_entry (la_asq example_admin) (q_tail (la_asq example_admin)) = 0x9000"
    "ring_next (la_asq example_admin) (q_tail (la_asq example_admin)) = 1" "next_cid (la_asq example_admin) = 1"
    "ring_next (la_acq example_admin) (q_head (la_acq example_admin)) = 1"
    by (simp_all add: example_admin_def nvm_queue_clear_def zero_ctrl_def queue_entry_def ring_next_def next_cid_def Let_def)
  ultimately show ?thesis
    using execute_command_spec[OF example_admin_ok, of "replicate 16 6" ?m "\<lambda>a. [0, 0, 0, 0x10000]"]
    unfolding Let_def by (auto dest!: spec[of _ 2])
qed

text \<open>The completion is not compared with the command: one that belongs to another command, such as the late
  completion of a command that timed out, is returned as the result.\<close>

theorem execute_command_foreign_completion:
  "case execute_command example_admin (replicate 16 0) (\<lambda>_ _. [0, 0, 0, 0x1002a]) (\<lambda>_. [0, 0, 0, 0x1002a]) of
     (err, cpl, _, eff) \<Rightarrow> err = 0 \<and> map_option NVM_CPL_CID cpl = Some 42 \<and>
       (\<exists>a cmd. hd eff = Write_cmd a cmd \<and> NVM_CMD_CID cmd = 1)"
  by (simp add: execute_command_def example_admin_def nvm_queue_clear_def zero_ctrl_def nvm_sq_enqueue_def
      nvm_cq_dequeue_block_def nvm_cq_dequeue_def nvm_cq_poll_def cpl_phase_def bitfield_simps RB_def NVM_MASK_PART_def
      queue_entry_def block_loop_found nvm_sq_submit_def nvm_cq_update_def NVM_CMD_CID_write_def NVM_DEFAULT_CID_def
      zero_queue_def Let_def)

subsection \<open>Creating and destroying admin queues\<close>

lemma dmap_count_idem: "(m :: dmap)\<lparr>m_count := m_count m\<rparr> = m"
  by (cases m) simp

lemma nvm_dma_remap_cases:
  assumes "nvm_dma_remap w s = (st, r, s')" "ds_conts s w = Some oc" "ds_maps s (d_map oc) = Some m" "m_count m \<noteq> 0"
    and "ds_conts s (cs_next s) = None"
  shows "(st \<noteq> 0 \<and> r = None \<and> (\<exists>n. s' = s\<lparr>cs_next := n\<rparr>)) \<or>
    (st = 0 \<and> r = Some (cs_next s) \<and> (\<exists>h. s' = s\<lparr>ds_maps := (ds_maps s)(d_map oc \<mapsto> m\<lparr>m_count := m_count m + 1\<rparr>),
        cs_next := cs_next s + 1, ds_conts := (ds_conts s)(cs_next s \<mapsto> \<lparr>d_map = d_map oc, d_handle = h\<rparr>)\<rparr>))"
proof -
  let ?s1 = "s\<lparr>ds_maps := (ds_maps s)(d_map oc \<mapsto> m\<lparr>m_count := m_count m + 1\<rparr>)\<rparr>"
  have put: "put_map (Some (d_map oc)) (?s1\<lparr>cs_next := n\<rparr>) = s\<lparr>cs_next := n\<rparr>" for n
    using assms(3,4) by (cases s) (simp add: put_map_def dmap_count_idem fun_upd_idem Let_def)
  obtain e q t where cc: "create_container (d_map oc) ?s1 = (e, q, t)"
    by (metis prod_cases3)
  show ?thesis
  proof (cases "e = 0")
    case False
    then obtain n where "q = None" "t = ?s1\<lparr>cs_next := n\<rparr>"
      using create_container_cases[OF cc] by auto
    then show ?thesis
      using assms(1-3) cc False by (auto simp: nvm_dma_remap_def get_map_def put Let_def)
  next
    case True
    then obtain loc where t: "q = Some (cs_next s)" "t = ?s1\<lparr>cs_next := cs_next s + 1,
      ds_conts := (ds_conts s)(cs_next s \<mapsto> \<lparr>d_map = d_map oc, d_handle = empty_handle loc\<rparr>)\<rparr>"
      using create_container_cases[OF cc] by auto
    show ?thesis
      using assms(1-3) cc t by (auto simp: nvm_dma_remap_def get_map_def Let_def)
  qed
qed

lemma remap_unmap:
  assumes "ds_maps s (d_map oc) = Some m" "m_count m \<noteq> 0" "ds_conts s a = None"
  shows "nvm_dma_unmap (Some a) (s\<lparr>ds_maps := (ds_maps s)(d_map oc \<mapsto> m\<lparr>m_count := m_count m + 1\<rparr>),
      cs_next := n, ds_conts := (ds_conts s)(a \<mapsto> \<lparr>d_map = d_map oc, d_handle = h\<rparr>)\<rparr>) = s\<lparr>cs_next := n\<rparr>"
proof -
  have "(ds_conts s)(a := None) = ds_conts s"
    using assms(3) by (auto simp: fun_eq_iff)
  then show ?thesis
    using assms by (cases s) (simp add: nvm_dma_unmap_def remove_container_def put_map_def dmap_count_idem fun_upd_idem Let_def)
qed

lemma create_admin_cases:
  assumes "create_admin ua us ctrl w s = (err, r, eff, s')" "ds_conts s w = Some oc" "ds_maps s (d_map oc) = Some m"
    and "m_count m \<noteq> 0" "ds_conts s (cs_next s) = None"
  shows "(err \<noteq> 0 \<and> r = None \<and> eff = [] \<and> (\<exists>n. s' = s\<lparr>cs_next := n\<rparr>)) \<or>
    (err = 0 \<and> (\<exists>admin h. r = Some admin \<and> la_qmem admin = cs_next s \<and>
       eff = [Clear_memory (dma_vaddr h) (2 * dma_page_size h)] \<and>
       s' = s\<lparr>ds_maps := (ds_maps s)(d_map oc \<mapsto> m\<lparr>m_count := m_count m + 1\<rparr>),
        cs_next := cs_next s + 2, ds_conts := (ds_conts s)(cs_next s \<mapsto> \<lparr>d_map = d_map oc, d_handle = h\<rparr>)\<rparr>))"
proof -
  obtain st q t where rm: "nvm_dma_remap w s = (st, q, t)"
    by (metis prod_cases3)
  have id: "s\<lparr>cs_next := cs_next s\<rparr> = s"
    by (cases s) simp
  let ?early = "unat (ctrl_page_size (c_handle ctrl)) \<noteq> dma_page_size (d_handle oc) \<or>
      dma_n_ioaddrs (d_handle oc) < 2 \<or> dma_vaddr (d_handle oc) = 0"
  show ?thesis
  proof (cases ?early)
    case True
    then have "err \<noteq> 0" "r = None" "eff = []" "s' = s"
      using assms(1,2) by (auto simp: create_admin_def split: if_splits)
    then show ?thesis
      using id by metis
  next
    case early: False
    consider "st \<noteq> 0" "q = None" "\<exists>n. t = s\<lparr>cs_next := n\<rparr>"
    | h where "st = 0" "q = Some (cs_next s)" "t = s\<lparr>ds_maps := (ds_maps s)(d_map oc \<mapsto> m\<lparr>m_count := m_count m + 1\<rparr>),
        cs_next := cs_next s + 1, ds_conts := (ds_conts s)(cs_next s \<mapsto> \<lparr>d_map = d_map oc, d_handle = h\<rparr>)\<rparr>"
      using nvm_dma_remap_cases[OF rm assms(2-5)] by blast
    then show ?thesis
    proof cases
      case 1
      then show ?thesis
        using assms(1,2) rm early by (auto simp: create_admin_def)
    next
      case 2
      have um: "nvm_dma_unmap (Some (cs_next s)) (t\<lparr>cs_next := n\<rparr>) = s\<lparr>cs_next := n\<rparr>" for n
        using remap_unmap[OF assms(3-5), where n = n and h = h] by (cases s) (simp add: 2)
      show ?thesis
      proof (cases "cs_oom t (cs_next t)")
        case True
        then show ?thesis
          using assms(1,2) rm 2(1,2) early by (auto simp: create_admin_def malloc_def um)
      next
        case False
        have c: "ds_conts t (cs_next s) = Some \<lparr>d_map = d_map oc, d_handle = h\<rparr>"
          by (simp add: 2(3))
        have eq: "t\<lparr>cs_next := Suc (cs_next t)\<rparr> = s\<lparr>ds_maps := (ds_maps s)(d_map oc \<mapsto> m\<lparr>m_count := m_count m + 1\<rparr>),
            cs_next := cs_next s + 2, ds_conts := (ds_conts s)(cs_next s \<mapsto> \<lparr>d_map = d_map oc, d_handle = h\<rparr>)\<rparr>"
          by (cases s) (simp add: 2(3))
        show ?thesis
          using assms(1,2) rm 2(1,2) early False c by (auto simp: create_admin_def malloc_def Let_def eq)
      qed
    qed
  qed
qed

lemma ctrl_count_idem: "(c :: controller)\<lparr>c_count := c_count c\<rparr> = c"
  by (cases c) simp

lemma nvm_ref_get_cases:
  assumes "nvm_ref_get os (Some ctrl) s = (err, r, s')" "cs_ctrls s ctrl = Some c" "c_count c \<noteq> 0"
  shows "(err \<noteq> 0 \<and> r = None \<and> (\<exists>n. s' = s\<lparr>cs_next := n\<rparr>)) \<or>
    (err = 0 \<and> r = Some (cs_next s) \<and> s' = s\<lparr>cs_ctrls := (cs_ctrls s)(ctrl \<mapsto> c\<lparr>c_count := c_count c + 1\<rparr>),
       cs_next := cs_next s + 1, rs_refs := (rs_refs s)(cs_next s \<mapsto>
         \<lparr>ar_ctrl = ctrl, ar_handles = [], ar_data = None, ar_release = False, ar_stub = None\<rparr>)\<rparr>)"
proof -
  have put: "nvm_ctrl_put (Some ctrl) (s\<lparr>cs_ctrls := (cs_ctrls s)(ctrl \<mapsto> c\<lparr>c_count := c_count c + 1\<rparr>),
      cs_next := n\<rparr>) = s\<lparr>cs_next := n\<rparr>" for n
    using assms(2,3) by (cases s) (simp add: nvm_ctrl_put_def ctrl_count_idem fun_upd_idem Let_def)
  show ?thesis
    using assms(1,2) by (auto simp: nvm_ref_get_def nvm_ctrl_get_def malloc_def put split: if_splits)
qed

definition aq_ready :: "nat \<Rightarrow> nat \<Rightarrow> 'a rpc_state_scheme \<Rightarrow> bool" where
  "aq_ready ctrl window s \<longleftrightarrow>
     (case cs_ctrls s ctrl of None \<Rightarrow> False | Some c \<Rightarrow> c_count c \<noteq> 0) \<and>
     (case ds_conts s window of None \<Rightarrow> False
      | Some w \<Rightarrow> (case ds_maps s (d_map w) of None \<Rightarrow> False | Some m \<Rightarrow> m_count m \<noteq> 0)) \<and>
     ds_conts s (cs_next s + 1) = None \<and> rs_refs s (cs_next s) = None"

lemma ref_put_undo:
  assumes "cs_ctrls s ctrl = Some c" "c_count c \<noteq> 0" "rs_refs s a = None"
  shows "nvm_ref_put (Some a) (s\<lparr>cs_ctrls := (cs_ctrls s)(ctrl \<mapsto> c\<lparr>c_count := c_count c + 1\<rparr>), cs_next := n,
      rs_refs := (rs_refs s)(a \<mapsto>
         \<lparr>ar_ctrl = ctrl, ar_handles = [], ar_data = None, ar_release = False, ar_stub = None\<rparr>)\<rparr>) = s\<lparr>cs_next := n\<rparr>"
proof -
  have "(rs_refs s)(a := None) = rs_refs s"
    using assms(3) by (auto simp: fun_eq_iff)
  then show ?thesis
    using assms by (cases s) (simp add: nvm_ref_put_def release_handles_def nvm_ctrl_put_def ctrl_count_idem
        fun_upd_idem Let_def)
qed

lemma aq_put_undo:
  assumes "cs_ctrls s ctrl = Some c" "c_count c \<noteq> 0" "rs_refs s a = None" "ds_maps s (d_map oc) = Some m"
    and "m_count m \<noteq> 0" "ds_conts s (la_qmem admin) = None"
  shows "nvm_ref_put (Some a) (s\<lparr>cs_ctrls := (cs_ctrls s)(ctrl \<mapsto> c\<lparr>c_count := c_count c + 1\<rparr>), cs_next := n,
      ds_maps := (ds_maps s)(d_map oc \<mapsto> m\<lparr>m_count := m_count m + 1\<rparr>),
      ds_conts := (ds_conts s)(la_qmem admin \<mapsto> \<lparr>d_map = d_map oc, d_handle = h\<rparr>),
      rs_refs := (rs_refs s)(a \<mapsto> \<lparr>ar_ctrl = ctrl, ar_handles = [], ar_data = Some (Data_local admin),
         ar_release = True, ar_stub = st\<rparr>)\<rparr>) = s\<lparr>cs_next := n\<rparr>"
proof -
  have "(rs_refs s)(a := None) = rs_refs s" "(ds_conts s)(la_qmem admin := None) = ds_conts s"
    using assms(3,6) by (auto simp: fun_eq_iff)
  then show ?thesis
    using assms by (cases s) (simp add: nvm_ref_put_def release_handles_def nvm_ctrl_put_def ctrl_count_idem
        dmap_count_idem remove_admin_def nvm_dma_unmap_def remove_container_def put_map_def fun_upd_idem Let_def)
qed

text \<open>C14: Creating an admin queue pair either fails and undoes everything (the controller
  reference, the duplicated DMA mapping and the reference itself are given back, no memory has been
  cleared and no register written), or succeeds, and destroying the reference it returns gives
  back exactly what creating it took.\<close>

theorem nvm_aq_create_destroy:
  assumes "aq_ready ctrl window s"
  shows "case nvm_aq_create os ua us cc csts ctrl window s of (err, r, eff, s') \<Rightarrow>
    (case r of
       None \<Rightarrow> err \<noteq> 0 \<and> eff = [] \<and> (\<exists>n. s' = s\<lparr>cs_next := n\<rparr>)
     | Some ref \<Rightarrow> err = 0 \<and> (\<exists>n. nvm_aq_destroy (Some ref) s' = s\<lparr>cs_next := n\<rparr>))"
proof -
  obtain c oc m where st: "cs_ctrls s ctrl = Some c" "c_count c \<noteq> 0" "ds_conts s window = Some oc"
    "ds_maps s (d_map oc) = Some m" "m_count m \<noteq> 0" "ds_conts s (cs_next s + 1) = None" "rs_refs s (cs_next s) = None"
    using assms by (auto simp: aq_ready_def split: option.splits)
  obtain e r s1 where g: "nvm_ref_get os (Some ctrl) s = (e, r, s1)"
    by (metis prod_cases3)
  let ?ref = "\<lparr>ar_ctrl = ctrl, ar_handles = [], ar_data = None, ar_release = False, ar_stub = None\<rparr>"
  consider "e \<noteq> 0" "r = None" "\<exists>n. s1 = s\<lparr>cs_next := n\<rparr>"
  | "e = 0" "r = Some (cs_next s)" "s1 = s\<lparr>cs_ctrls := (cs_ctrls s)(ctrl \<mapsto> c\<lparr>c_count := c_count c + 1\<rparr>),
       cs_next := cs_next s + 1, rs_refs := (rs_refs s)(cs_next s \<mapsto> ?ref)\<rparr>"
    using nvm_ref_get_cases[OF g st(1,2)] by blast
  then show ?thesis
  proof cases
    case 1
    then show ?thesis
      using g by (simp add: nvm_aq_create_def)
  next
    case 2
    obtain e2 ad eff s2 where a: "create_admin ua us (ctrl_of ctrl s1) window s1 = (e2, ad, eff, s2)"
      by (metis prod_cases4)
    have "ds_conts s1 window = Some oc" "ds_maps s1 (d_map oc) = Some m" "ds_conts s1 (cs_next s1) = None"
      using st 2 by simp_all
    note cases = create_admin_cases[OF a this(1,2) st(5) this(3)]
    show ?thesis
    proof (cases ad)
      case None
      then obtain n where n: "e2 \<noteq> 0" "s2 = s1\<lparr>cs_next := n\<rparr>" "eff = []"
        using cases by auto
      have "nvm_ref_put (Some (cs_next s)) s2 = s\<lparr>cs_next := n\<rparr>"
        using ref_put_undo[OF st(1,2,7), of n] by (cases s) (simp add: n 2(3))
      then show ?thesis
        using g a 2(2) None n(1,3) by (simp add: nvm_aq_create_def) blast
    next
      case (Some admin)
      then obtain h where h: "la_qmem admin = cs_next s + 1" "e2 = 0"
        "s2 = s1\<lparr>ds_maps := (ds_maps s1)(d_map oc \<mapsto> m\<lparr>m_count := m_count m + 1\<rparr>), cs_next := cs_next s1 + 2,
           ds_conts := (ds_conts s1)(cs_next s1 \<mapsto> \<lparr>d_map = d_map oc, d_handle = h\<rparr>)\<rparr>"
        using cases 2(3) by auto
      let ?s3 = "s2\<lparr>rs_refs := (rs_refs s2)(cs_next s := map_option (\<lambda>r. r\<lparr>ar_data := Some (Data_local admin),
          ar_stub := Some Stub_execute_command, ar_release := True\<rparr>) (rs_refs s2 (cs_next s)))\<rparr>"
      have "nvm_ref_put (Some (cs_next s)) ?s3 = s\<lparr>cs_next := Suc (Suc (Suc (cs_next s)))\<rparr>"
        using aq_put_undo[OF st(1,2,7,4,5), where admin = admin and n = "Suc (Suc (Suc (cs_next s)))" and h = h and
            st = "Some Stub_execute_command"] st(6) h(1)
        by (cases s) (simp add: h(3) 2(3))
      then show ?thesis
        using g a 2(2) Some by (auto simp: nvm_aq_create_def nvm_aq_destroy_def Let_def split: prod.split)
    qed
  qed
qed

theorem nvm_aq_create_destroy_witness:
  "case nvm_aq_create example_os zero_queue zero_queue 1 (\<lambda>_. 0) 7 10 example_rpc_state of (err, r, eff, s') \<Rightarrow>
    (case r of
       None \<Rightarrow> err \<noteq> 0 \<and> eff = [] \<and> (\<exists>n. s' = example_rpc_state\<lparr>cs_next := n\<rparr>)
     | Some ref \<Rightarrow> err = 0 \<and> (\<exists>n. nvm_aq_destroy (Some ref) s' = example_rpc_state\<lparr>cs_next := n\<rparr>))"
  by (rule nvm_aq_create_destroy)
    (simp add: aq_ready_def example_rpc_state_def dma_state.defs example_mapped_state_def example_dma_state_def)

text \<open>The result of the reset is ignored: when the ready bit never clears the reset times out,
  and the reference to the admin queues is returned as if the controller were ready.\<close>

theorem nvm_aq_create_ignores_reset:
  "fst (nvm_raw_ctrl_reset zero_ctrl cc (\<lambda>_. 1) acq asq) = ETIME \<and>
   (let create = (\<lambda>csts. nvm_aq_create os ua us cc csts ctrl window s)
    in fst (create (\<lambda>_. 1)) = fst (create csts) \<and> fst (snd (create (\<lambda>_. 1))) = fst (snd (create csts)))"
proof
  show "fst (nvm_raw_ctrl_reset zero_ctrl cc (\<lambda>_. 1) acq asq) = ETIME"
    using wait_rdy.simps[of "\<lambda>_. 1" 0 0 0]
    by (simp add: nvm_raw_ctrl_reset_def zero_ctrl_def nvm_delay_remain_def RB_def NVM_MASK_PART_def NVM_MASK_def)
qed (simp add: nvm_aq_create_def Let_def split: prod.split option.split)

end
