(* ===== verification/Admin.thy ===== *)
theory Admin
  imports Rpc
begin

text \<open>
  The admin commands of \<open>src/admin.cpp\<close>: the builders of the command words and the
  operations that check their arguments, run a command through \<open>nvm_raw_rpc\<close> and interpret
  its completion.

  What answers a command is a parameter: the memory the completion queue is polled from,
  or the remote end of a reference (\<open>rpc_env\<close>). The data the controller writes into the
  identify buffer is the function \<open>bytes\<close> from byte offsets, the content of the buffer when
  the code reads it. An operation returns its packed error, what it stores through
  its out-parameters, the effects on memory and doorbells in order, and the state.
\<close>

subsection \<open>Command builders\<close>

definition admin_cq_create :: "nvm_cmd_t \<Rightarrow> nvm_queue_t \<Rightarrow> u64 \<Rightarrow> bool \<Rightarrow> nvm_cmd_t" where
  "admin_cq_create cmd cq ioaddr need_prp =
     (let cmd = nvm_cmd_header cmd 0 (admin_opcode NVM_ADMIN_CREATE_CQ) 0;
          cmd = nvm_cmd_data_ptr cmd ioaddr 0
      in cmd[10 := push_bit 16 (q_qs cq - 1) OR ucast (q_no cq),
             11 := (if need_prp then 0 else 1)])"

definition admin_cq_delete :: "nvm_cmd_t \<Rightarrow> nvm_queue_t \<Rightarrow> nvm_cmd_t" where
  "admin_cq_delete cmd cq =
     (nvm_cmd_header cmd 0 (admin_opcode NVM_ADMIN_DELETE_CQ) 0)[10 := ucast (q_no cq) AND 0xffff]"

definition admin_sq_create :: "nvm_cmd_t \<Rightarrow> nvm_queue_t \<Rightarrow> nvm_queue_t \<Rightarrow> u64 \<Rightarrow> bool \<Rightarrow> nvm_cmd_t" where
  "admin_sq_create cmd sq cq ioaddr need_prp =
     (let cmd = nvm_cmd_header cmd 0 (admin_opcode NVM_ADMIN_CREATE_SQ) 0;
          cmd = nvm_cmd_data_ptr cmd ioaddr 0
      in cmd[10 := push_bit 16 (q_qs sq - 1) OR ucast (q_no sq),
             11 := push_bit 16 (ucast (q_no cq)) OR (if need_prp then 0 else 1)])"

definition admin_sq_delete :: "nvm_cmd_t \<Rightarrow> nvm_queue_t \<Rightarrow> nvm_cmd_t" where
  "admin_sq_delete cmd sq =
     (nvm_cmd_header cmd 0 (admin_opcode NVM_ADMIN_DELETE_SQ) 0)[10 := ucast (q_no sq) AND 0xffff]"

text \<open>The counts are promoted to \<open>int\<close> before 1 is taken off, so 0 would give a word of ones.\<close>

definition admin_current_num_queues :: "nvm_cmd_t \<Rightarrow> bool \<Rightarrow> u16 \<Rightarrow> u16 \<Rightarrow> nvm_cmd_t" where
  "admin_current_num_queues cmd setf n_cqs n_sqs =
     (let cmd = nvm_cmd_header cmd 0
                  (admin_opcode (if setf then NVM_ADMIN_SET_FEATURES else NVM_ADMIN_GET_FEATURES)) 0;
          cmd = nvm_cmd_data_ptr cmd 0 0
      in cmd[10 := 0x07,
             11 := (if setf then push_bit 16 (ucast n_cqs - 1) OR (ucast n_sqs - 1) else 0)])"

definition admin_identify_ctrl :: "nvm_cmd_t \<Rightarrow> u64 \<Rightarrow> nvm_cmd_t" where
  "admin_identify_ctrl cmd ioaddr =
     (let cmd = nvm_cmd_header cmd 0 (admin_opcode NVM_ADMIN_IDENTIFY) 0;
          cmd = nvm_cmd_data_ptr cmd ioaddr 0
      in cmd[10 := 0x01, 11 := 0])"

definition admin_identify_ns :: "nvm_cmd_t \<Rightarrow> u32 \<Rightarrow> u64 \<Rightarrow> nvm_cmd_t" where
  "admin_identify_ns cmd ns_id ioaddr =
     (let cmd = nvm_cmd_header cmd 0 (admin_opcode NVM_ADMIN_IDENTIFY) ns_id;
          cmd = nvm_cmd_data_ptr cmd ioaddr 0
      in cmd[10 := 0x00, 11 := 0])"

definition admin_get_log_page :: "nvm_cmd_t \<Rightarrow> u32 \<Rightarrow> u64 \<Rightarrow> u8 \<Rightarrow> u64 \<Rightarrow> nvm_cmd_t" where
  "admin_get_log_page cmd ns_id ioaddr log_id log_offset =
     (let cmd = nvm_cmd_header cmd 0 (admin_opcode NVM_ADMIN_GET_LOG_PAGE) ns_id;
          cmd = nvm_cmd_data_ptr cmd ioaddr 0
      in cmd[10 := push_bit 16 1024 OR ucast log_id, 11 := 0,
             12 := ucast log_offset, 13 := ucast (drop_bit 32 log_offset)])"

definition admin_format_nvm :: "nvm_cmd_t \<Rightarrow> u32 \<Rightarrow> u8 \<Rightarrow> u8 \<Rightarrow> u8 \<Rightarrow> u8 \<Rightarrow> u8 \<Rightarrow> nvm_cmd_t" where
  "admin_format_nvm cmd ns_id ses lbaf mset pi pil =
     (let cmd = nvm_cmd_header cmd 0 (admin_opcode NVM_ADMIN_FORMAT_NVM) ns_id;
          cmd = nvm_cmd_data_ptr cmd 0 0;
          dword10 = (0 :: u32);
          dword10 = dword10 OR (ucast lbaf AND 0x0f);
          dword10 = dword10 OR push_bit 4 (ucast mset AND 0x01);
          dword10 = dword10 OR push_bit 5 (ucast pi AND 0x07);
          dword10 = dword10 OR push_bit 8 (ucast pil AND 0x01);
          dword10 = dword10 OR push_bit 9 (ucast ses AND 0x07)
      in cmd[10 := dword10])"

subsection \<open>Operations\<close>

record rpc_env =
  re_remote :: "nat \<Rightarrow> nvm_cmd_t \<Rightarrow> rc \<times> nvm_cpl_t option"
  re_mem :: "nat \<Rightarrow> cpl_mem"
  re_copied :: cpl_mem

definition zero_cmd :: nvm_cmd_t where "zero_cmd = replicate 16 0"

definition zero_cpl :: nvm_cpl_t where "zero_cpl = replicate 4 0"

abbreviation raw_rpc ::
  "rpc_env \<Rightarrow> nat \<Rightarrow> nvm_cmd_t \<Rightarrow> 'a rpc_state_scheme \<Rightarrow> rc \<times> nvm_cpl_t \<times> effect list \<times> 'a rpc_state_scheme" where
  "raw_rpc env ref cmd s \<equiv> nvm_raw_rpc (re_remote env) (re_mem env) (re_copied env) ref cmd zero_cpl s"

record nvm_ctrl_info =
  ci_nvme_version :: u32
  ci_page_size :: u64
  ci_db_stride :: u64
  ci_timeout :: u64
  ci_contiguous :: bool
  ci_max_entries :: u16
  ci_pci_vendor :: "u8 list"
  ci_serial_no :: "u8 list"
  ci_model_no :: "u8 list"
  ci_firmware :: "u8 list"
  ci_max_data_size :: u64
  ci_max_data_pages :: u64
  ci_cq_entry_size :: u64
  ci_sq_entry_size :: u64
  ci_max_out_cmds :: u64
  ci_max_n_ns :: u64

record nvm_ns_info =
  ni_ns_id :: u32
  ni_size :: u64
  ni_capacity :: u64
  ni_utilization :: u64
  ni_lba_data_size :: u64
  ni_metadata_size :: u64

definition zero_ctrl_info :: nvm_ctrl_info where
  "zero_ctrl_info = \<lparr>ci_nvme_version = 0, ci_page_size = 0, ci_db_stride = 0, ci_timeout = 0, ci_contiguous = False,
     ci_max_entries = 0, ci_pci_vendor = replicate 4 0, ci_serial_no = replicate 20 0, ci_model_no = replicate 40 0,
     ci_firmware = replicate 8 0, ci_max_data_size = 0, ci_max_data_pages = 0, ci_cq_entry_size = 0,
     ci_sq_entry_size = 0, ci_max_out_cmds = 0, ci_max_n_ns = 0\<rparr>"

definition zero_ns_info :: nvm_ns_info where
  "zero_ns_info = \<lparr>ni_ns_id = 0, ni_size = 0, ni_capacity = 0, ni_utilization = 0, ni_lba_data_size = 0,
     ni_metadata_size = 0\<rparr>"

text \<open>Little-endian reads at a byte offset.\<close>

definition le16 :: "(nat \<Rightarrow> u8) \<Rightarrow> nat \<Rightarrow> u16" where
  "le16 b k = ucast (b k) OR push_bit 8 (ucast (b (k + 1)))"

definition le32 :: "(nat \<Rightarrow> u8) \<Rightarrow> nat \<Rightarrow> u32" where
  "le32 b k = ucast (le16 b k) OR push_bit 16 (ucast (le16 b (k + 2)))"

definition le64 :: "(nat \<Rightarrow> u8) \<Rightarrow> nat \<Rightarrow> u64" where
  "le64 b k = ucast (le32 b k) OR push_bit 32 (ucast (le32 b (k + 4)))"

text \<open>The register part of the controller information, filled in before the command is sent.\<close>

definition ctrl_info_regs :: "nvm_regs \<Rightarrow> nvm_ctrl_t \<Rightarrow> nvm_ctrl_info" where
  "ctrl_info_regs regs ctrl = zero_ctrl_info
     \<lparr>ci_nvme_version := VER regs, ci_page_size := ctrl_page_size ctrl,
      ci_db_stride := push_bit (unat (ctrl_dstrd ctrl)) 1, ci_timeout := CAP_TO regs * 500,
      ci_contiguous := (CAP_CQR regs \<noteq> 0), ci_max_entries := ucast (CAP_MQES regs + 1)\<rparr>"

definition ctrl_info_bytes :: "nvm_regs \<Rightarrow> (nat \<Rightarrow> u8) \<Rightarrow> nvm_ctrl_info \<Rightarrow> nvm_ctrl_info" where
  "ctrl_info_bytes regs bytes info =
     (let mds = push_bit (unat (bytes 77)) 1 * push_bit (12 + unat (CAP_MPSMIN regs)) 1
      in info
        \<lparr>ci_pci_vendor := map bytes [0..<4], ci_serial_no := map bytes [4..<24],
         ci_model_no := map bytes [24..<64], ci_firmware := map bytes [64..<72],
         ci_max_data_size := mds, ci_max_data_pages := mds div ci_page_size info,
         ci_sq_entry_size := push_bit (unat (RB (ucast (bytes 512)) 3 0)) 1,
         ci_cq_entry_size := push_bit (unat (RB (ucast (bytes 513)) 3 0)) 1,
         ci_max_out_cmds := ucast (le16 bytes 514), ci_max_n_ns := ucast (le32 bytes 516)\<rparr>)"

text \<open>A null controller is dereferenced: no result.\<close>

definition nvm_admin_ctrl_info ::
  "rpc_env \<Rightarrow> nvm_regs \<Rightarrow> (nat \<Rightarrow> u8) \<Rightarrow> nat \<Rightarrow> nvm_ctrl_info option \<Rightarrow> nat \<Rightarrow> u64 \<Rightarrow> 'a rpc_state_scheme \<Rightarrow>
   (rc \<times> nvm_ctrl_info option \<times> effect list \<times> 'a rpc_state_scheme) option" where
  "nvm_admin_ctrl_info env regs bytes ref info ptr ioaddr s =
     (if info = None \<or> ptr = 0 \<or> ioaddr = 0 then Some (NVM_ERR_PACK None EINVAL, info, [], s)
      else
        case nvm_ctrl_from_aq_ref (Some ref) s of
          None \<Rightarrow> None
        | Some ctrl \<Rightarrow>
          let info = ctrl_info_regs regs ctrl;
              command = admin_identify_ctrl zero_cmd ioaddr
          in case raw_rpc env ref command s of
               (err, _, eff, s) \<Rightarrow>
                 if \<not> nvm_ok err then Some (err, Some info, eff, s)
                 else Some (NVM_ERR_PACK None 0, Some (ctrl_info_bytes regs bytes info), eff, s))"

text \<open>The block size is a shift of the \<open>int\<close> 1, widened with its sign; a shift by 32 or more, which C leaves
  undefined, gives 0 here.\<close>

definition nvm_admin_ns_info ::
  "rpc_env \<Rightarrow> (nat \<Rightarrow> u8) \<Rightarrow> nat \<Rightarrow> nvm_ns_info option \<Rightarrow> u32 \<Rightarrow> nat \<Rightarrow> u64 \<Rightarrow> 'a rpc_state_scheme \<Rightarrow>
   rc \<times> nvm_ns_info option \<times> effect list \<times> 'a rpc_state_scheme" where
  "nvm_admin_ns_info env bytes ref info ns_id ptr ioaddr s =
     (if info = None \<or> ptr = 0 \<or> ioaddr = 0 then (NVM_ERR_PACK None EINVAL, info, [], s)
      else
        let info = zero_ns_info\<lparr>ni_ns_id := ns_id\<rparr>
        in case raw_rpc env ref (admin_identify_ns zero_cmd ns_id ioaddr) s of
             (err, _, eff, s) \<Rightarrow>
               if \<not> nvm_ok err then (err, Some info, eff, s)
               else
                 let format_idx = (ucast (RB (ucast (bytes 26)) 3 0) :: u8);
                     lba_format = le32 bytes (128 + 4 * unat format_idx)
                 in (NVM_ERR_PACK None 0,
                     Some (info\<lparr>ni_size := le64 bytes 0, ni_capacity := le64 bytes 8,
                       ni_utilization := le64 bytes 16,
                       ni_lba_data_size := scast (push_bit (unat (RB (ucast lba_format) 23 16)) (1 :: u32)),
                       ni_metadata_size := RB (ucast lba_format) 15 0\<rparr>), eff, s))"

definition nvm_admin_get_log_page ::
  "rpc_env \<Rightarrow> nat \<Rightarrow> u32 \<Rightarrow> u64 \<Rightarrow> u8 \<Rightarrow> u64 \<Rightarrow> 'a rpc_state_scheme \<Rightarrow> rc \<times> effect list \<times> 'a rpc_state_scheme" where
  "nvm_admin_get_log_page env ref ns_id ioaddr log_id log_offset s =
     (case raw_rpc env ref (admin_get_log_page zero_cmd ns_id ioaddr log_id log_offset) s of
        (err, _, eff, s) \<Rightarrow> if \<not> nvm_ok err then (err, eff, s) else (NVM_ERR_PACK None 0, eff, s))"

definition nvm_admin_format ::
  "rpc_env \<Rightarrow> nat \<Rightarrow> u32 \<Rightarrow> u8 \<Rightarrow> u8 \<Rightarrow> u8 \<Rightarrow> u8 \<Rightarrow> u8 \<Rightarrow> 'a rpc_state_scheme \<Rightarrow>
   rc \<times> effect list \<times> 'a rpc_state_scheme" where
  "nvm_admin_format env ref ns_id ses lbaf mset pi pil s =
     (case raw_rpc env ref (admin_format_nvm zero_cmd ns_id ses lbaf mset pi pil) s of
        (err, _, eff, s) \<Rightarrow> if \<not> nvm_ok err then (err, eff, s) else (NVM_ERR_PACK None 0, eff, s))"

text \<open>\<open>nvm_admin_cq_create\<close> and \<open>nvm_admin_sq_create\<close> work on an uninitialised local
  descriptor (\<open>queue\<close>) and copy it to the caller's (\<open>cq\<close>, \<open>sq\<close>) at the end.\<close>

definition nvm_admin_cq_create ::
  "rpc_env \<Rightarrow> nvm_queue_t \<Rightarrow> nat option \<Rightarrow> nvm_queue_t \<Rightarrow> u16 \<Rightarrow> nvm_dma_t \<Rightarrow> nat \<Rightarrow> nat \<Rightarrow> bool \<Rightarrow> 'a rpc_state_scheme \<Rightarrow>
   rc \<times> nvm_queue_t \<times> effect list \<times> 'a rpc_state_scheme" where
  "nvm_admin_cq_create env queue ref cq no dma offset qs need_prp s =
     (if no = 0 then (NVM_ERR_PACK None EINVAL, cq, [], s)
      else
        case nvm_ctrl_from_aq_ref ref s of
          None \<Rightarrow> (NVM_ERR_PACK None ENOTTY, cq, [], s)
        | Some ctrl \<Rightarrow>
          let qs = (if qs = 0 then min (dma_page_size dma div 16) (unat (ctrl_max_qs ctrl)) else qs)
          in if qs < 2 \<or> qs > 0x10000 \<or> qs > unat (ctrl_max_qs ctrl) then (NVM_ERR_PACK None EINVAL, cq, [], s)
             else
               let n_pages = unat (NVM_CQ_PAGES (ctrl_page_size ctrl) (of_nat qs))
               in if dma_vaddr dma = 0 then (NVM_ERR_PACK None EINVAL, cq, [], s)
                  else if n_pages = 0 \<or> n_pages > dma_n_ioaddrs dma \<or> offset > dma_n_ioaddrs dma \<or>
                    offset + n_pages > dma_n_ioaddrs dma then (NVM_ERR_PACK None EINVAL, cq, [], s)
                  else
                    case nvm_queue_clear queue ctrl True no (of_nat qs) (dma_local dma) (NVM_DMA_OFFSET dma offset)
                      (dma_ioaddrs dma ! offset) of
                      (err, queue) \<Rightarrow>
                        if err \<noteq> 0 then (NVM_ERR_PACK None err, cq, [], s)
                        else
                          case raw_rpc env (the ref)
                            (admin_cq_create zero_cmd queue (dma_ioaddrs dma ! offset) need_prp) s of
                            (err, _, eff, s) \<Rightarrow>
                              if \<not> nvm_ok err then (err, cq, eff, s)
                              else (NVM_ERR_PACK None 0, queue, eff, s))"

definition nvm_admin_cq_delete ::
  "rpc_env \<Rightarrow> nat \<Rightarrow> nvm_queue_t \<Rightarrow> 'a rpc_state_scheme \<Rightarrow> rc \<times> nvm_queue_t \<times> effect list \<times> 'a rpc_state_scheme" where
  "nvm_admin_cq_delete env ref cq s =
     (if q_db cq = None then (NVM_ERR_PACK None EINVAL, cq, [], s)
      else
        case raw_rpc env ref (admin_cq_delete zero_cmd cq) s of
          (err, _, eff, s) \<Rightarrow>
            if \<not> nvm_ok err then (err, cq, eff, s)
            else (NVM_ERR_PACK None 0, cq\<lparr>q_db := None\<rparr>, eff, s))"

definition nvm_admin_sq_create ::
  "rpc_env \<Rightarrow> nvm_queue_t \<Rightarrow> nat option \<Rightarrow> nvm_queue_t \<Rightarrow> nvm_queue_t \<Rightarrow> u16 \<Rightarrow> nvm_dma_t \<Rightarrow> nat \<Rightarrow> nat \<Rightarrow> bool \<Rightarrow>
   'a rpc_state_scheme \<Rightarrow> rc \<times> nvm_queue_t \<times> effect list \<times> 'a rpc_state_scheme" where
  "nvm_admin_sq_create env queue ref sq cq no dma offset qs need_prp s =
     (if no = 0 then (NVM_ERR_PACK None EINVAL, sq, [], s)
      else
        case nvm_ctrl_from_aq_ref ref s of
          None \<Rightarrow> (NVM_ERR_PACK None ENOTTY, sq, [], s)
        | Some ctrl \<Rightarrow>
          let qs = (if qs = 0 then min (dma_page_size dma div 64) (unat (ctrl_max_qs ctrl)) else qs)
          in if qs < 2 \<or> qs > 0x10000 \<or> qs > unat (ctrl_max_qs ctrl) then (NVM_ERR_PACK None EINVAL, sq, [], s)
             else
               let n_pages = unat (NVM_SQ_PAGES (ctrl_page_size ctrl) (of_nat qs))
               in if dma_vaddr dma = 0 then (NVM_ERR_PACK None EINVAL, sq, [], s)
                  else if n_pages = 0 \<or> n_pages > dma_n_ioaddrs dma \<or> offset > dma_n_ioaddrs dma \<or>
                    offset + n_pages > dma_n_ioaddrs dma then (NVM_ERR_PACK None EINVAL, sq, [], s)
                  else
                    case nvm_queue_clear queue ctrl False no (of_nat qs) (dma_local dma) (NVM_DMA_OFFSET dma offset)
                      (dma_ioaddrs dma ! offset) of
                      (err, queue) \<Rightarrow>
                        if err \<noteq> 0 then (NVM_ERR_PACK None err, sq, [], s)
                        else
                          case raw_rpc env (the ref)
                            (admin_sq_create zero_cmd queue cq (dma_ioaddrs dma ! offset) need_prp) s of
                            (err, _, eff, s) \<Rightarrow>
                              if \<not> nvm_ok err then (err, sq, eff, s)
                              else (NVM_ERR_PACK None 0, queue, eff, s))"

definition nvm_admin_sq_delete ::
  "rpc_env \<Rightarrow> nat \<Rightarrow> nvm_queue_t \<Rightarrow> nvm_queue_t option \<Rightarrow> 'a rpc_state_scheme \<Rightarrow>
   rc \<times> nvm_queue_t \<times> effect list \<times> 'a rpc_state_scheme" where
  "nvm_admin_sq_delete env ref sq cq s =
     (if (case cq of None \<Rightarrow> True | Some c \<Rightarrow> q_db c = None) then (NVM_ERR_PACK None EINVAL, sq, [], s)
      else if q_db sq = None then (NVM_ERR_PACK None EINVAL, sq, [], s)
      else
        case raw_rpc env ref (admin_sq_delete zero_cmd sq) s of
          (err, _, eff, s) \<Rightarrow>
            if \<not> nvm_ok err then (err, sq, eff, s)
            else (NVM_ERR_PACK None 0, sq\<lparr>q_db := None\<rparr>, eff, s))"

definition nvm_admin_get_num_queues ::
  "rpc_env \<Rightarrow> nat \<Rightarrow> u16 \<Rightarrow> u16 \<Rightarrow> 'a rpc_state_scheme \<Rightarrow> rc \<times> (u16 \<times> u16) \<times> effect list \<times> 'a rpc_state_scheme" where
  "nvm_admin_get_num_queues env ref n_cqs n_sqs s =
     (case raw_rpc env ref (admin_current_num_queues zero_cmd False 0 0) s of
        (err, cpl, eff, s) \<Rightarrow>
          if \<not> nvm_ok err then (err, (n_cqs, n_sqs), eff, s)
          else
            let n_sqs = ucast (drop_bit 16 (cpl ! 0) + 1);
                n_cqs = ucast ((cpl ! 0 AND 0xffff) + 1)
            in (NVM_ERR_PACK None 0, (n_cqs, n_sqs), eff, s))"

definition nvm_admin_request_num_queues ::
  "rpc_env \<Rightarrow> nat \<Rightarrow> u16 \<Rightarrow> u16 \<Rightarrow> 'a rpc_state_scheme \<Rightarrow> rc \<times> (u16 \<times> u16) \<times> effect list \<times> 'a rpc_state_scheme" where
  "nvm_admin_request_num_queues env ref n_cqs n_sqs s =
     (if n_cqs = 0 \<or> n_sqs = 0 then (NVM_ERR_PACK None EINVAL, (n_cqs, n_sqs), [], s)
      else
        case raw_rpc env ref (admin_current_num_queues zero_cmd True n_cqs n_sqs) s of
          (err, cpl, eff, s) \<Rightarrow>
            if err \<noteq> 0 then (err, (n_cqs, n_sqs), eff, s)
            else
              let n_sqs = ucast (drop_bit 16 (cpl ! 0) + 1);
                  n_cqs = ucast ((cpl ! 0 AND 0xffff) + 1)
              in (NVM_ERR_PACK None 0, (n_cqs, n_sqs), eff, s))"

definition nvm_admin_set_num_queues ::
  "rpc_env \<Rightarrow> nat \<Rightarrow> u16 \<Rightarrow> u16 \<Rightarrow> 'a rpc_state_scheme \<Rightarrow> rc \<times> effect list \<times> 'a rpc_state_scheme" where
  "nvm_admin_set_num_queues env ref n_cqs n_sqs s =
     (case nvm_admin_request_num_queues env ref n_cqs n_sqs s of (err, _, eff, s) \<Rightarrow> (err, eff, s))"

subsection \<open>What the controller reads in the commands\<close>

definition cmd_qid :: "nvm_cmd_t \<Rightarrow> u16" where "cmd_qid cmd = ucast (cmd ! 10)"
definition cmd_qsize :: "nvm_cmd_t \<Rightarrow> nat" where "cmd_qsize cmd = unat (drop_bit 16 (cmd ! 10)) + 1"
definition cmd_pc :: "nvm_cmd_t \<Rightarrow> bool" where "cmd_pc cmd = bit (cmd ! 11) 0"
definition cmd_cqid :: "nvm_cmd_t \<Rightarrow> u16" where "cmd_cqid cmd = ucast (drop_bit 16 (cmd ! 11))"

lemma cmd_data_ptr_opcode:
  "10 \<le> length cmd \<Longrightarrow> cmd_opcode (nvm_cmd_data_ptr cmd a b) = cmd_opcode cmd"
proof -
  assume "10 \<le> length cmd"
  have m: "(4294917375 :: u8) = - 1"
    by simp
  show ?thesis
    using \<open>10 \<le> length cmd\<close> by (cases cmd) (simp_all add: cmd_opcode_def nvm_cmd_data_ptr_def unsigned_and_eq m)
qed

lemma length_cmd [simp]:
  "length (nvm_cmd_header cmd cid opc ns) = length cmd"
  "length (nvm_cmd_data_ptr cmd a b) = length cmd"
  "length zero_cmd = 16"
  by (simp_all add: nvm_cmd_header_def nvm_cmd_data_ptr_def zero_cmd_def)

lemma cmd_fields_upd:
  "10 \<le> i \<Longrightarrow> cmd_opcode (cmd[i := v]) = cmd_opcode cmd"
  "10 \<le> i \<Longrightarrow> cmd_nsid (cmd[i := v]) = cmd_nsid cmd"
  "10 \<le> i \<Longrightarrow> cmd_prp1 (cmd[i := v]) = cmd_prp1 cmd"
  "10 \<le> i \<Longrightarrow> cmd_prp2 (cmd[i := v]) = cmd_prp2 cmd"
  by (simp_all add: cmd_opcode_def cmd_nsid_def cmd_prp1_def cmd_prp2_def)

lemma qsize_qid:
  fixes qs :: u32 and no :: u16
  assumes "1 \<le> unat qs" "unat qs \<le> 65536"
  shows "unat (drop_bit 16 (push_bit 16 (qs - 1) OR ucast no)) + 1 = unat qs"
    and "ucast (push_bit 16 (qs - 1) OR ucast no) = no"
proof -
  have m: "unat (qs - 1) = unat qs - 1"
    using assms(1) by (simp add: unat_sub_le word_le_nat_alt)
  have "drop_bit 16 (push_bit 16 (qs - 1) OR ucast no) = take_bit 16 (qs - 1)"
    by (intro bit_word_eqI) (auto simp: bit_simps dest: bit_imp_le_length)
  then have "unat (drop_bit 16 (push_bit 16 (qs - 1) OR ucast no)) = (unat qs - 1) mod 65536"
    by (simp add: m take_bit_eq_mod unat_mod_distrib)
  then show "unat (drop_bit 16 (push_bit 16 (qs - 1) OR ucast no)) + 1 = unat qs"
    using assms by simp
  show "ucast (push_bit 16 (qs - 1) OR ucast no) = no"
    by (intro bit_word_eqI) (auto simp: bit_simps)
qed

lemma admin_opcode_values:
  "admin_opcode NVM_ADMIN_CREATE_CQ = 5" "admin_opcode NVM_ADMIN_CREATE_SQ = 1"
  "admin_opcode NVM_ADMIN_DELETE_SQ = 0" "admin_opcode NVM_ADMIN_DELETE_CQ = 4"
  "admin_opcode NVM_ADMIN_IDENTIFY = 6" "admin_opcode NVM_ADMIN_GET_LOG_PAGE = 2"
  "admin_opcode NVM_ADMIN_SET_FEATURES = 9" "admin_opcode NVM_ADMIN_GET_FEATURES = 10"
  "admin_opcode NVM_ADMIN_FORMAT_NVM = 0x80"
  by (simp_all add: NVM_CMD_OPCODE_def WB_def NVM_MASK_PART_def NVM_MASK_def)

text \<open>C26: The controller reads out of a create-queue command what the driver put in: the
  operation, the queue's number and its size (transmitted less one), the address of its
  memory, whether that memory is contiguous, and for a submission queue the number of
  the completion queue it is bound to.\<close>

theorem admin_create_cmd_roundtrip:
  assumes "1 \<le> unat (q_qs q)" "unat (q_qs q) \<le> 65536"
  shows "(let c = admin_sq_create zero_cmd q cq ioaddr prp in
      cmd_opcode c = 1 \<and> cmd_qid c = q_no q \<and> cmd_qsize c = unat (q_qs q) \<and> cmd_prp1 c = ioaddr \<and> cmd_prp2 c = 0 \<and>
      cmd_pc c = (\<not> prp) \<and> cmd_cqid c = q_no cq) \<and>
    (let c = admin_cq_create zero_cmd q ioaddr prp in
      cmd_opcode c = 5 \<and> cmd_qid c = q_no q \<and> cmd_qsize c = unat (q_qs q) \<and> cmd_prp1 c = ioaddr \<and> cmd_prp2 c = 0 \<and>
      cmd_pc c = (\<not> prp))"
proof -
  have "ucast (drop_bit 16 (push_bit 16 (ucast (q_no cq)) OR (if prp then 0 else 1) :: u32)) = q_no cq"
    by (intro bit_word_eqI) (auto simp: bit_simps bit_1_iff)
  moreover have "bit (push_bit 16 (ucast (q_no cq)) OR (if prp then 0 else 1) :: u32) 0 = (\<not> prp)"
    by (auto simp: bit_simps)
  ultimately show ?thesis
    using qsize_qid[OF assms, of "q_no q"]
    by (simp add: admin_sq_create_def admin_cq_create_def cmd_fields_upd cmd_data_ptr_opcode cmd_header_fields
        cmd_data_ptr_fields cmd_qid_def cmd_qsize_def cmd_pc_def cmd_cqid_def admin_opcode_values Let_def
        del: admin_opcode.simps)
qed

theorem admin_create_cmd_roundtrip_witness:
  "cmd_qsize (admin_cq_create zero_cmd (zero_queue\<lparr>q_qs := 0x10000, q_no := 3\<rparr>) 0x7000 False) = 65536"
  using admin_create_cmd_roundtrip[where q = "zero_queue\<lparr>q_qs := 0x10000, q_no := 3\<rparr>" and ioaddr = "0x7000" and prp = False]
  by (simp add: Let_def)

subsection \<open>Creating and deleting I/O queues\<close>

definition queue_in_window :: "nvm_ctrl_t \<Rightarrow> nvm_dma_t \<Rightarrow> nat \<Rightarrow> nvm_queue_t \<Rightarrow> bool" where
  "queue_in_window ctrl dma offset q \<longleftrightarrow>
     2 \<le> unat (q_qs q) \<and> unat (q_qs q) \<le> 0x10000 \<and> q_qs q \<le> ctrl_max_qs ctrl \<and>
     q_head q = 0 \<and> q_tail q = 0 \<and> q_last q = 0 \<and> q_phase q \<and>
     offset < dma_n_ioaddrs dma \<and> q_vaddr q = NVM_DMA_OFFSET dma offset \<and> q_ioaddr q = dma_ioaddrs dma ! offset \<and>
     unat (q_qs q) * unat (q_es q) \<le> (dma_n_ioaddrs dma - offset) * unat (ctrl_page_size ctrl)"

lemma NVM_CQ_PAGES_unat:
  assumes "1 \<le> unat qs" "unat qs \<le> 65536" "page_size \<noteq> 0"
  shows "unat (NVM_CQ_PAGES page_size qs) = (unat qs - 1) * 16 div unat page_size + 1"
  using queue_pages_unat[OF assms, of 16] by (simp add: NVM_CQ_PAGES_def)

lemma window_bytes:
  fixes n e P N off :: nat
  assumes "off + ((n - 1) * e div P + 1) \<le> N" "0 < P" "0 < n" "e dvd P" "0 < e"
  shows "n * e \<le> (N - off) * P"
proof -
  have "n * e \<le> ((n - 1) * e div P + 1) * P"
    using assms by (intro ceil_pages_bound) auto
  also have "\<dots> \<le> (N - off) * P"
    using assms(1) by (intro mult_le_mono1) linarith
  finally show ?thesis .
qed

lemma unat_of_nat_qs: "n \<le> 65536 \<Longrightarrow> unat (of_nat n :: u32) = n"
  by (simp add: unat_of_nat take_bit_eq_mod)

lemma of_nat_qs_cmp:
  fixes m :: u32
  assumes "n \<le> 65536"
  shows "(of_nat n < (2 :: u32)) = (n < 2)" "((0x10000 :: u32) < of_nat n) = (0x10000 < n)"
    "(m < of_nat n) = (unat m < n)"
  using assms by (simp_all add: word_less_nat_alt unat_of_nat_qs)

lemma nvm_queue_clear_window:
  fixes e :: nat
  assumes "2 \<le> n" "n \<le> 65536" "n \<le> unat (ctrl_max_qs ctrl)" "e = (if iscq then 16 else 64)"
    and "64 dvd unat (ctrl_page_size ctrl)" "ctrl_page_size ctrl \<noteq> 0"
    and "offset + ((n - 1) * e div unat (ctrl_page_size ctrl) + 1) \<le> dma_n_ioaddrs dma"
  shows "\<exists>q. nvm_queue_clear u ctrl iscq no (of_nat n) loc (NVM_DMA_OFFSET dma offset) (dma_ioaddrs dma ! offset) = (0, q) \<and>
    queue_in_window ctrl dma offset q \<and> q_no q = no \<and> unat (q_es q) = e \<and> unat (q_qs q) = n \<and>
    q_db q = Some ((if iscq then CQ_DBL else SQ_DBL) (ctrl_mm_ptr ctrl) (unat no) (unat (ctrl_dstrd ctrl)))"
proof -
  have "16 dvd unat (ctrl_page_size ctrl)"
    using assms(5) by (rule dvd_trans[rotated]) simp
  then have "n * e \<le> (dma_n_ioaddrs dma - offset) * unat (ctrl_page_size ctrl)"
    using assms by (intro window_bytes) (auto simp: unat_gt_0)
  moreover have "of_nat n \<le> ctrl_max_qs ctrl"
    using assms(2,3) by (simp add: word_le_nat_alt unat_of_nat_qs)
  ultimately show ?thesis
    using assms by (auto simp: nvm_queue_clear_def of_nat_qs_cmp queue_in_window_def unat_of_nat_qs)
qed

definition create_ok :: "nvm_ctrl_t \<Rightarrow> nvm_dma_t \<Rightarrow> u16 \<Rightarrow> nat \<Rightarrow> nat \<Rightarrow> nat \<Rightarrow> bool" where
  "create_ok ctrl dma no offset n e \<longleftrightarrow> no \<noteq> 0 \<and> 2 \<le> n \<and> n \<le> 65536 \<and> n \<le> unat (ctrl_max_qs ctrl) \<and> dma_vaddr dma \<noteq> 0 \<and>
     offset + ((n - 1) * e div unat (ctrl_page_size ctrl) + 1) \<le> dma_n_ioaddrs dma"

lemma nvm_admin_sq_create_cases:
  assumes "nvm_ctrl_from_aq_ref ref s = Some ctrl" "64 dvd unat (ctrl_page_size ctrl)" "ctrl_page_size ctrl \<noteq> 0"
    and n: "n = (if qs = 0 then min (dma_page_size dma div 64) (unat (ctrl_max_qs ctrl)) else qs)"
  shows "if create_ok ctrl dma no offset n 64 then \<exists>q. nvm_admin_sq_create env u ref q0 cq no dma offset qs prp s =
        (case raw_rpc env (the ref) (admin_sq_create zero_cmd q cq (dma_ioaddrs dma ! offset) prp) s of
           (err, _, eff, s) \<Rightarrow> if \<not> nvm_ok err then (err, q0, eff, s) else (NVM_ERR_PACK None 0, q, eff, s)) \<and>
        queue_in_window ctrl dma offset q \<and> q_no q = no \<and> unat (q_es q) = 64 \<and> unat (q_qs q) = n \<and>
        q_db q = Some (SQ_DBL (ctrl_mm_ptr ctrl) (unat no) (unat (ctrl_dstrd ctrl)))
      else nvm_admin_sq_create env u ref q0 cq no dma offset qs prp s = (EINVAL, q0, [], s)"
proof -
  let ?big = "n < 2 \<or> n > 0x10000 \<or> n > unat (ctrl_max_qs ctrl)"
  let ?np = "unat (NVM_SQ_PAGES (ctrl_page_size ctrl) (of_nat n))"
  let ?out = "?np = 0 \<or> ?np > dma_n_ioaddrs dma \<or> offset > dma_n_ioaddrs dma \<or> offset + ?np > dma_n_ioaddrs dma"
  have pages: "?np = (n - 1) * 64 div unat (ctrl_page_size ctrl) + 1" if "\<not> ?big"
    using that assms(3) by (simp add: NVM_SQ_PAGES_unat unat_of_nat_qs)
  note unf = nvm_admin_sq_create_def Let_def n[symmetric]
  show ?thesis
  proof (cases "create_ok ctrl dma no offset n 64")
    case True
    then obtain q where q: "nvm_queue_clear u ctrl False no (of_nat n) (dma_local dma) (NVM_DMA_OFFSET dma offset)
        (dma_ioaddrs dma ! offset) = (0, q)" "queue_in_window ctrl dma offset q \<and> q_no q = no \<and> unat (q_es q) = 64 \<and>
        unat (q_qs q) = n \<and> q_db q = Some (SQ_DBL (ctrl_mm_ptr ctrl) (unat no) (unat (ctrl_dstrd ctrl)))"
      using nvm_queue_clear_window[of n ctrl 64 False offset dma u no "dma_local dma"] assms(2,3)
      by (auto simp: create_ok_def)
    have g: "no \<noteq> 0" "\<not> ?big" "dma_vaddr dma \<noteq> 0"
      using True by (auto simp: create_ok_def)
    then have "\<not> ?out"
      using True pages by (auto simp: create_ok_def)
    then have "nvm_admin_sq_create env u ref q0 cq no dma offset qs prp s =
        (case raw_rpc env (the ref) (admin_sq_create zero_cmd q cq (dma_ioaddrs dma ! offset) prp) s of
           (err, _, eff, s) \<Rightarrow> if \<not> nvm_ok err then (err, q0, eff, s) else (NVM_ERR_PACK None 0, q, eff, s))"
      unfolding unf assms(1) option.case unfolding n[symmetric]
      by (simp only: g q(1) if_False prod.case not_True_eq_False simp_thms)
    then show ?thesis
      unfolding if_P[OF True] using q(2) by blast
  next
    case False
    then consider "no = 0" | "no \<noteq> 0" ?big | "no \<noteq> 0" "\<not> ?big" "dma_vaddr dma = 0"
    | "no \<noteq> 0" "\<not> ?big" "dma_vaddr dma \<noteq> 0" ?out
      using pages by (fastforce simp: create_ok_def)
    then have "nvm_admin_sq_create env u ref q0 cq no dma offset qs prp s = (EINVAL, q0, [], s)"
      by cases (simp_all only: unf assms(1) if_True if_False option.case simp_thms not_False_eq_True NVM_ERR_PACK_def, simp_all)
    then show ?thesis
      unfolding if_not_P[OF False] .
  qed
qed

lemma nvm_admin_cq_create_cases:
  assumes "nvm_ctrl_from_aq_ref ref s = Some ctrl" "64 dvd unat (ctrl_page_size ctrl)" "ctrl_page_size ctrl \<noteq> 0"
    and n: "n = (if qs = 0 then min (dma_page_size dma div 16) (unat (ctrl_max_qs ctrl)) else qs)"
  shows "if create_ok ctrl dma no offset n 16 then \<exists>q. nvm_admin_cq_create env u ref q0 no dma offset qs prp s =
        (case raw_rpc env (the ref) (admin_cq_create zero_cmd q (dma_ioaddrs dma ! offset) prp) s of
           (err, _, eff, s) \<Rightarrow> if \<not> nvm_ok err then (err, q0, eff, s) else (NVM_ERR_PACK None 0, q, eff, s)) \<and>
        queue_in_window ctrl dma offset q \<and> q_no q = no \<and> unat (q_es q) = 16 \<and> unat (q_qs q) = n \<and>
        q_db q = Some (CQ_DBL (ctrl_mm_ptr ctrl) (unat no) (unat (ctrl_dstrd ctrl)))
      else nvm_admin_cq_create env u ref q0 no dma offset qs prp s = (EINVAL, q0, [], s)"
proof -
  let ?big = "n < 2 \<or> n > 0x10000 \<or> n > unat (ctrl_max_qs ctrl)"
  let ?np = "unat (NVM_CQ_PAGES (ctrl_page_size ctrl) (of_nat n))"
  let ?out = "?np = 0 \<or> ?np > dma_n_ioaddrs dma \<or> offset > dma_n_ioaddrs dma \<or> offset + ?np > dma_n_ioaddrs dma"
  have pages: "?np = (n - 1) * 16 div unat (ctrl_page_size ctrl) + 1" if "\<not> ?big"
    using that assms(3) by (simp add: NVM_CQ_PAGES_unat unat_of_nat_qs)
  note unf = nvm_admin_cq_create_def Let_def n[symmetric]
  show ?thesis
  proof (cases "create_ok ctrl dma no offset n 16")
    case True
    then obtain q where q: "nvm_queue_clear u ctrl True no (of_nat n) (dma_local dma) (NVM_DMA_OFFSET dma offset)
        (dma_ioaddrs dma ! offset) = (0, q)" "queue_in_window ctrl dma offset q \<and> q_no q = no \<and> unat (q_es q) = 16 \<and>
        unat (q_qs q) = n \<and> q_db q = Some (CQ_DBL (ctrl_mm_ptr ctrl) (unat no) (unat (ctrl_dstrd ctrl)))"
      using nvm_queue_clear_window[of n ctrl 16 True offset dma u no "dma_local dma"] assms(2,3)
      by (auto simp: create_ok_def)
    have g: "no \<noteq> 0" "\<not> ?big" "dma_vaddr dma \<noteq> 0"
      using True by (auto simp: create_ok_def)
    then have "\<not> ?out"
      using True pages by (auto simp: create_ok_def)
    then have "nvm_admin_cq_create env u ref q0 no dma offset qs prp s =
        (case raw_rpc env (the ref) (admin_cq_create zero_cmd q (dma_ioaddrs dma ! offset) prp) s of
           (err, _, eff, s) \<Rightarrow> if \<not> nvm_ok err then (err, q0, eff, s) else (NVM_ERR_PACK None 0, q, eff, s))"
      unfolding unf assms(1) option.case unfolding n[symmetric]
      by (simp only: g q(1) if_False prod.case not_True_eq_False simp_thms)
    then show ?thesis
      unfolding if_P[OF True] using q(2) by blast
  next
    case False
    then consider "no = 0" | "no \<noteq> 0" ?big | "no \<noteq> 0" "\<not> ?big" "dma_vaddr dma = 0"
    | "no \<noteq> 0" "\<not> ?big" "dma_vaddr dma \<noteq> 0" ?out
      using pages by (fastforce simp: create_ok_def)
    then have "nvm_admin_cq_create env u ref q0 no dma offset qs prp s = (EINVAL, q0, [], s)"
      by cases (simp_all only: unf assms(1) if_True if_False option.case simp_thms not_False_eq_True NVM_ERR_PACK_def, simp_all)
    then show ?thesis
      unfolding if_not_P[OF False] .
  qed
qed

definition bad_create_args :: "nvm_ctrl_t \<Rightarrow> nvm_dma_t \<Rightarrow> u16 \<Rightarrow> nat \<Rightarrow> nat \<Rightarrow> bool" where
  "bad_create_args ctrl dma no offset qs \<longleftrightarrow> no = 0 \<or> qs = 1 \<or> qs > 0x10000 \<or> qs > unat (ctrl_max_qs ctrl) \<or>
     dma_vaddr dma = 0 \<or> offset \<ge> dma_n_ioaddrs dma"

lemma bad_create_args_not_ok:
  "bad_create_args ctrl dma no offset qs \<Longrightarrow> n = (if qs = 0 then m else qs) \<Longrightarrow> \<not> create_ok ctrl dma no offset n e"
  by (auto simp: bad_create_args_def create_ok_def)

lemma nvm_admin_sq_create_result:
  assumes "nvm_ctrl_from_aq_ref ref s = Some ctrl" "64 dvd unat (ctrl_page_size ctrl)" "ctrl_page_size ctrl \<noteq> 0"
  shows "case nvm_admin_sq_create env u ref q0 cq no dma offset qs prp s of (err, q, eff, s') \<Rightarrow>
      (bad_create_args ctrl dma no offset qs \<longrightarrow> err = EINVAL \<and> eff = [] \<and> s' = s) \<and>
      (if err = 0 then queue_in_window ctrl dma offset q \<and> q_no q = no \<and> unat (q_es q) = 64 \<and>
         (qs \<noteq> 0 \<longrightarrow> unat (q_qs q) = qs) \<and>
         q_db q = Some (SQ_DBL (ctrl_mm_ptr ctrl) (unat no) (unat (ctrl_dstrd ctrl)))
       else q = q0)"
proof -
  define n where "n = (if qs = 0 then min (dma_page_size dma div 64) (unat (ctrl_max_qs ctrl)) else qs)"
  note cases = nvm_admin_sq_create_cases[OF assms n_def, of no offset env u q0 cq prp]
  show ?thesis
  proof (cases "create_ok ctrl dma no offset n 64")
    case True
    then have "\<not> bad_create_args ctrl dma no offset qs"
      using bad_create_args_not_ok n_def by blast
    moreover have "qs \<noteq> 0 \<longrightarrow> n = qs"
      by (simp add: n_def)
    moreover obtain q where q: "nvm_admin_sq_create env u ref q0 cq no dma offset qs prp s =
        (case raw_rpc env (the ref) (admin_sq_create zero_cmd q cq (dma_ioaddrs dma ! offset) prp) s of
           (err, _, eff, s) \<Rightarrow> if \<not> nvm_ok err then (err, q0, eff, s) else (NVM_ERR_PACK None 0, q, eff, s))"
      "queue_in_window ctrl dma offset q" "q_no q = no" "unat (q_es q) = 64" "unat (q_qs q) = n"
      "q_db q = Some (SQ_DBL (ctrl_mm_ptr ctrl) (unat no) (unat (ctrl_dstrd ctrl)))"
      using cases unfolding if_P[OF True] by blast
    ultimately show ?thesis
      by (simp add: q nvm_ok_def NVM_ERR_PACK_def NVM_ERR_STATUS_def split: prod.split)
  next
    case False
    then show ?thesis
      using cases by simp
  qed
qed

lemma nvm_admin_cq_create_result:
  assumes "nvm_ctrl_from_aq_ref ref s = Some ctrl" "64 dvd unat (ctrl_page_size ctrl)" "ctrl_page_size ctrl \<noteq> 0"
  shows "case nvm_admin_cq_create env u ref q0 no dma offset qs prp s of (err, q, eff, s') \<Rightarrow>
      (bad_create_args ctrl dma no offset qs \<longrightarrow> err = EINVAL \<and> eff = [] \<and> s' = s) \<and>
      (if err = 0 then queue_in_window ctrl dma offset q \<and> q_no q = no \<and> unat (q_es q) = 16 \<and>
         (qs \<noteq> 0 \<longrightarrow> unat (q_qs q) = qs) \<and>
         q_db q = Some (CQ_DBL (ctrl_mm_ptr ctrl) (unat no) (unat (ctrl_dstrd ctrl)))
       else q = q0)"
proof -
  define n where "n = (if qs = 0 then min (dma_page_size dma div 16) (unat (ctrl_max_qs ctrl)) else qs)"
  note cases = nvm_admin_cq_create_cases[OF assms n_def, of no offset env u q0 prp]
  show ?thesis
  proof (cases "create_ok ctrl dma no offset n 16")
    case True
    then have "\<not> bad_create_args ctrl dma no offset qs"
      using bad_create_args_not_ok n_def by blast
    moreover have "qs \<noteq> 0 \<longrightarrow> n = qs"
      by (simp add: n_def)
    moreover obtain q where q: "nvm_admin_cq_create env u ref q0 no dma offset qs prp s =
        (case raw_rpc env (the ref) (admin_cq_create zero_cmd q (dma_ioaddrs dma ! offset) prp) s of
           (err, _, eff, s) \<Rightarrow> if \<not> nvm_ok err then (err, q0, eff, s) else (NVM_ERR_PACK None 0, q, eff, s))"
      "queue_in_window ctrl dma offset q" "q_no q = no" "unat (q_es q) = 16" "unat (q_qs q) = n"
      "q_db q = Some (CQ_DBL (ctrl_mm_ptr ctrl) (unat no) (unat (ctrl_dstrd ctrl)))"
      using cases unfolding if_P[OF True] by blast
    ultimately show ?thesis
      by (simp add: q nvm_ok_def NVM_ERR_PACK_def NVM_ERR_STATUS_def split: prod.split)
  next
    case False
    then show ?thesis
      using cases by simp
  qed
qed

text \<open>C25: Creating an I/O queue. Arguments that cannot make a queue (number 0, a size of 1
  or above the controller's maximum, no memory, a window offset past the end) are refused
  before any command is issued. A descriptor is delivered exactly when the controller
  accepted the command; it is empty, has the size and number asked for, and every entry of
  the queue lies inside the DMA window from the given page on. On an error the caller's
  descriptor is unchanged.\<close>

theorem nvm_admin_queue_create_spec:
  assumes "nvm_ctrl_from_aq_ref ref s = Some ctrl" "64 dvd unat (ctrl_page_size ctrl)" "ctrl_page_size ctrl \<noteq> 0"
  shows "(case nvm_admin_sq_create env u ref sq cq no dma offset qs prp s of (err, q, eff, s') \<Rightarrow>
      (bad_create_args ctrl dma no offset qs \<longrightarrow> err = EINVAL \<and> eff = [] \<and> s' = s) \<and>
      (if err = 0 then queue_in_window ctrl dma offset q \<and> q_no q = no \<and> unat (q_es q) = 64 \<and>
         (qs \<noteq> 0 \<longrightarrow> unat (q_qs q) = qs) \<and>
         q_db q = Some (SQ_DBL (ctrl_mm_ptr ctrl) (unat no) (unat (ctrl_dstrd ctrl)))
       else q = sq)) \<and>
    (case nvm_admin_cq_create env u ref cq' no dma offset qs prp s of (err, q, eff, s') \<Rightarrow>
      (bad_create_args ctrl dma no offset qs \<longrightarrow> err = EINVAL \<and> eff = [] \<and> s' = s) \<and>
      (if err = 0 then queue_in_window ctrl dma offset q \<and> q_no q = no \<and> unat (q_es q) = 16 \<and>
         (qs \<noteq> 0 \<longrightarrow> unat (q_qs q) = qs) \<and>
         q_db q = Some (CQ_DBL (ctrl_mm_ptr ctrl) (unat no) (unat (ctrl_dstrd ctrl)))
       else q = cq'))"
  using nvm_admin_sq_create_result[OF assms] nvm_admin_cq_create_result[OF assms] by (rule conjI)

definition example_admin_state :: rpc_state where
  "example_admin_state = example_rpc_state
     \<lparr>cs_ctrls := [7 \<mapsto> (the (cs_ctrls example_rpc_state 7))\<lparr>c_handle := zero_ctrl\<lparr>ctrl_page_size := 4096, ctrl_max_qs := 1024\<rparr>\<rparr>],
      rs_refs := [2 \<mapsto> \<lparr>ar_ctrl = 7, ar_handles = [], ar_data = None, ar_release = False, ar_stub = Some (Stub_remote 0)\<rparr>]\<rparr>"

definition example_env :: rpc_env where
  "example_env = \<lparr>re_remote = (\<lambda>_ cmd. (0, Some [cmd ! 11, 0, 0, 0])), re_mem = (\<lambda>_ _. []), re_copied = (\<lambda>_. [])\<rparr>"

definition example_window :: nvm_dma_t where
  "example_window = \<lparr>dma_vaddr = 0x100000, dma_local = True, dma_contiguous = False,
     dma_page_size = 4096, dma_n_ioaddrs = 20, dma_ioaddrs = map (\<lambda>i. of_nat (4096 * i)) [0..<20]\<rparr>"

theorem nvm_admin_queue_create_spec_witness:
  "fst (nvm_admin_sq_create example_env zero_queue (Some 2) zero_queue zero_queue 1 example_window 4 1024 False
     example_admin_state) = 0 \<and>
   fst (nvm_admin_sq_create example_env zero_queue (Some 2) zero_queue zero_queue 1 example_window 20 1024 False
     example_admin_state) = EINVAL"
proof -
  have c: "nvm_ctrl_from_aq_ref (Some 2) example_admin_state = Some (zero_ctrl\<lparr>ctrl_page_size := 4096, ctrl_max_qs := 1024\<rparr>)"
    by (simp add: nvm_ctrl_from_aq_ref_def example_admin_state_def)
  have "create_ok (zero_ctrl\<lparr>ctrl_page_size := 4096, ctrl_max_qs := 1024\<rparr>) example_window 1 4 1024 64"
    by (simp add: create_ok_def example_window_def)
  then have "fst (nvm_admin_sq_create example_env zero_queue (Some 2) zero_queue zero_queue 1 example_window 4 1024 False
     example_admin_state) = 0"
    using nvm_admin_sq_create_cases[OF c, where n = 1024 and qs = 1024 and dma = example_window and no = 1 and offset = 4 and
        env = example_env and u = zero_queue and ?q0.0 = zero_queue and cq = zero_queue and prp = False]
    by (auto simp: nvm_raw_rpc_def run_stub_def example_admin_state_def example_env_def NVM_ERR_PACK_def
        NVM_ERR_STATUS_def nvm_ok_def NVM_ERR_SCT_def NVM_ERR_SC_def bitfield_simps RB_def)
  then show ?thesis
    using nvm_admin_queue_create_spec[OF c, where qs = 1024 and dma = example_window and no = 1 and offset = 20 and
        env = example_env and u = zero_queue and sq = zero_queue and cq = zero_queue and prp = False, THEN conjunct1]
    by (auto simp: bad_create_args_def example_window_def)
qed

text \<open>C27: A queue is deleted once. When the controller accepts the deletion the descriptor
  loses its doorbell, and deleting it again is refused without sending anything; when the
  controller refuses, the descriptor keeps its doorbell and can be deleted later. A submission
  queue is not deleted after its completion queue.\<close>

theorem nvm_admin_delete_once:
  "(case nvm_admin_cq_delete env ref cq s of (err, cq', eff, s') \<Rightarrow>
      (if err = 0 then q_db cq' = None \<and> nvm_admin_cq_delete env' ref' cq' s' = (EINVAL, cq', [], s') \<and>
         nvm_admin_sq_delete env' ref' sq (Some cq') s' = (EINVAL, sq, [], s')
       else cq' = cq)) \<and>
   (case nvm_admin_sq_delete env ref sq c s of (err, sq', eff, s') \<Rightarrow>
      (if err = 0 then q_db sq' = None \<and> nvm_admin_sq_delete env' ref' sq' c s' = (EINVAL, sq', [], s') else sq' = sq))"
  by (simp add: nvm_admin_cq_delete_def nvm_admin_sq_delete_def NVM_ERR_PACK_def NVM_ERR_STATUS_def nvm_ok_def
      split: prod.split option.split)

text \<open>C28: Asking for I/O queues. The command carries the number of completion queues in its
  upper and the number of submission queues in its lower half, as the controller expects them.
  The answer, which has the same layout, is read with the halves exchanged: a controller
  that grants what was asked for makes the driver report the two numbers the wrong way round.\<close>

theorem nvm_admin_request_num_queues_swapped:
  assumes "n_cqs \<noteq> 0" "n_sqs \<noteq> 0"
    and "raw_rpc env ref (admin_current_num_queues zero_cmd True n_cqs n_sqs) s = (0, cpl, eff, s')"
    and "cpl ! 0 = admin_current_num_queues zero_cmd True n_cqs n_sqs ! 11"
  shows "unat (drop_bit 16 (cpl ! 0)) + 1 = unat n_cqs \<and> unat (ucast (cpl ! 0) :: u16) + 1 = unat n_sqs \<and>
    nvm_admin_request_num_queues env ref n_cqs n_sqs s = (0, (n_sqs, n_cqs), eff, s')"
proof -
  have d: "cpl ! 0 = push_bit 16 (ucast n_cqs - 1) OR (ucast n_sqs - 1)"
    using assms(4) by (simp add: admin_current_num_queues_def Let_def)
  have u: "unat (ucast n - 1 :: u32) = unat n - 1" "unat n < 65536" "0 < unat n" if "n \<noteq> 0" for n :: u16
  proof -
    show "unat n < 65536" "0 < unat n"
      using that unsigned_less[of n, where 'a = nat] by (simp_all add: unat_gt_0)
    then show "unat (ucast n - 1 :: u32) = unat n - 1"
      by (subst unat_sub_le) (simp_all add: word_le_nat_alt unat_ucast_mod)
  qed
  have t: "take_bit 16 (ucast n - 1 :: u32) = ucast n - 1" "drop_bit 16 (ucast n - 1 :: u32) = 0" if "n \<noteq> 0" for n :: u16
    using u[OF that]
    by (simp_all add: take_bit_eq_mod word_unat_eq_iff unat_mod_distrib unat_drop_bit)
  have hi: "drop_bit 16 (cpl ! 0) = ucast n_cqs - 1"
  proof -
    have "drop_bit 16 (cpl ! 0) = take_bit 16 (ucast n_cqs - 1) OR drop_bit 16 (ucast n_sqs - 1)"
      unfolding d by (intro bit_word_eqI) (auto simp: bit_simps)
    then show ?thesis
      using t assms(1,2) by simp
  qed
  have lo: "cpl ! 0 AND 0xffff = ucast n_sqs - 1" "(ucast (cpl ! 0) :: u16) = ucast (ucast n_sqs - 1 :: u32)"
  proof -
    have "cpl ! 0 AND 0xffff = take_bit 16 (ucast n_sqs - 1)"
      unfolding d low_half_mask by (intro bit_word_eqI) (auto simp: bit_simps)
    then show "cpl ! 0 AND 0xffff = ucast n_sqs - 1"
      using t assms(2) by simp
    show "(ucast (cpl ! 0) :: u16) = ucast (ucast n_sqs - 1 :: u32)"
      unfolding d by (intro bit_word_eqI) (auto simp: bit_simps)
  qed
  have "ucast (ucast n :: u32) = n" for n :: u16
    by (intro bit_word_eqI) (auto simp: bit_simps)
  then show ?thesis
    using assms(1-3) u[OF assms(1)] u[OF assms(2)]
    by (simp add: nvm_admin_request_num_queues_def hi lo unat_ucast_mod NVM_ERR_PACK_def NVM_ERR_STATUS_def)
qed

theorem nvm_admin_request_num_queues_swapped_witness:
  "\<exists>eff s'. nvm_admin_request_num_queues example_env 2 16 8 example_admin_state = (0, (8, 16), eff, s')"
proof -
  let ?c = "admin_current_num_queues zero_cmd True 16 8"
  have "raw_rpc example_env 2 ?c example_admin_state = (0, [?c ! 11, 0, 0, 0], [],
      example_admin_state\<lparr>rs_refs := (rs_refs example_admin_state)(2 \<mapsto> (the (rs_refs example_admin_state 2))\<lparr>ar_data := None\<rparr>)\<rparr>)"
    by (simp add: nvm_raw_rpc_def run_stub_def example_admin_state_def example_env_def NVM_ERR_PACK_def NVM_ERR_STATUS_def
        NVM_ERR_SCT_def NVM_ERR_SC_def bitfield_simps RB_def)
  then show ?thesis
    using nvm_admin_request_num_queues_swapped[of 16 8 example_env 2 example_admin_state] by auto
qed

text \<open>The number of entries is kept in 16 bits, so the largest size a controller can support,
  65536 entries, is reported as 0.\<close>

lemma ctrl_info_max_entries_wraps:
  "CAP regs = 0xffff \<Longrightarrow> ci_max_entries (ctrl_info_regs regs ctrl) = 0"
  by (simp add: ctrl_info_regs_def CAP_MQES_def RB_def NVM_MASK_PART_def NVM_MASK_def)

end
