(* ===== verification/ParallelSq.thy ===== *)
theory ParallelSq
  imports NvmQueue
begin

text \<open>
  The submission queue shared by many GPU threads, \<open>include/nvm_parallel_queue.h\<close>:
  \<open>sq_enqueue\<close> with \<open>move_tail\<close>, and the part of \<open>move_head_cq\<close> that frees submission slots.

  The code is a set of concurrent calls, so it is modelled by its atomic actions: every
  atomic load, exchange or store of the source is one step of one call, and the system runs
  the steps of all calls in any order. A call is known by its place in the order in which
  the calls drew their tickets. The copying of the 64 command bytes into the slot is one
  step, as is the doorbell write. The back-off delays are left out; a call that polls
  unsuccessfully makes a step that changes nothing. The optional tail counter
  \<open>pc_tail\<close> is only read, by the caller's request, and is left out too.

  The consumer is the holder of the completion queue's head lock, of which there is one at
  a time; the position it moves the head to is the one the controller reports in a
  completion, which lies between the position reported before and the last doorbell.

  Three counters of the state record history and are read by no step: the number of
  commands claimed by the tail mover (\<open>y_vt\<close>), announced by a doorbell (\<open>y_dbt\<close>) and freed
  by the consumer (\<open>y_hp\<close>).
\<close>

subsection \<open>Definitions\<close>

definition LOCKED :: u32 where "LOCKED = 1"
definition UNLOCKED :: u32 where "UNLOCKED = 0"

definition get_id :: "u64 \<Rightarrow> u64 \<Rightarrow> u64" where
  "get_id x y = drop_bit (unat y) x * 2"

datatype enq_pc =
    E_wait | E_wait2 | E_write | E_mark | E_check | E_try | E_lock | E_load
  | E_move u32 u32 | E_exch u32 u32 | E_count u32 u32 | E_db u32 u32 | E_store u32 | E_unlock
  | E_finish | E_ret u16

datatype con_pc = Con_idle | Con_move u32 u32 u16

record sq_sys =
  y_sq :: nvm_queue_t
  y_slots :: "nat \<Rightarrow> nvm_cmd_t"
  y_db :: "u32 list"
  y_n :: nat
  y_ticket :: "nat \<Rightarrow> u32"
  y_cmd :: "nat \<Rightarrow> nvm_cmd_t"
  y_pc :: "nat \<Rightarrow> enq_pc"
  y_con :: con_pc
  y_vt :: nat
  y_dbt :: nat
  y_hp :: nat

text \<open>One pass of the loop of \<open>move_tail\<close>: the comparison with the head, and the exchange of the
  mark at the tail.\<close>

definition move_tail_test :: "nvm_queue_t \<Rightarrow> u32 \<Rightarrow> u32 \<Rightarrow> bool" where
  "move_tail_test q cur_tail count \<longleftrightarrow>
     (cur_tail + count + 1) AND q_qs_minus_1 q \<noteq> q_head q AND q_qs_minus_1 q"

definition move_tail_exch :: "nvm_queue_t \<Rightarrow> u32 \<Rightarrow> u32 \<Rightarrow> bool \<times> nvm_queue_t" where
  "move_tail_exch q cur_tail count =
     (let p = unat ((cur_tail + count) AND q_qs_minus_1 q)
      in (q_tail_mark q p = LOCKED, q\<lparr>q_tail_mark := (q_tail_mark q)(p := UNLOCKED)\<rparr>))"

definition sq_enqueue_start :: "nvm_cmd_t \<Rightarrow> sq_sys \<Rightarrow> sq_sys" where
  "sq_enqueue_start cmd s =
     s\<lparr>y_n := y_n s + 1, y_ticket := (y_ticket s)(y_n s := q_in_ticket (y_sq s)),
       y_cmd := (y_cmd s)(y_n s := cmd), y_pc := (y_pc s)(y_n s := E_wait),
       y_sq := (y_sq s)\<lparr>q_in_ticket := q_in_ticket (y_sq s) + 1\<rparr>\<rparr>"

definition goto :: "nat \<Rightarrow> enq_pc \<Rightarrow> sq_sys \<Rightarrow> sq_sys" where
  "goto c pc s = s\<lparr>y_pc := (y_pc s)(c := pc)\<rparr>"

definition sq_enqueue_step :: "nat \<Rightarrow> sq_sys \<Rightarrow> sq_sys" where
  "sq_enqueue_step c s =
     (let q = y_sq s;
          ticket = y_ticket s c;
          pos = unat (ticket AND q_qs_minus_1 q);
          tid = get_id (ucast ticket) (ucast (q_qs_log2 q))
      in case y_pc s c of
        E_wait \<Rightarrow> if ucast (q_tickets q pos) \<noteq> tid then s else goto c E_wait2 s
      | E_wait2 \<Rightarrow> if ucast (q_tickets q pos) \<noteq> tid then s else goto c E_write s
      | E_write \<Rightarrow> goto c E_mark (s\<lparr>y_slots := (y_slots s)(pos := y_cmd s c)\<rparr>)
      | E_mark \<Rightarrow> goto c E_check (s\<lparr>y_sq := q\<lparr>q_tail_mark := (q_tail_mark q)(pos := LOCKED)\<rparr>\<rparr>)
      | E_check \<Rightarrow> if q_tail_mark q pos = LOCKED then goto c E_try s else goto c E_finish s
      | E_try \<Rightarrow> if q_tail_lock q = LOCKED then goto c E_check s else goto c E_lock s
      | E_lock \<Rightarrow>
          let s' = s\<lparr>y_sq := q\<lparr>q_tail_lock := q_tail_lock q OR LOCKED\<rparr>\<rparr>
          in if q_tail_lock q = LOCKED then goto c E_check s' else goto c E_load s'
      | E_load \<Rightarrow> goto c (E_move (q_tail q) 0) s
      | E_move cur_tail count \<Rightarrow>
          if move_tail_test q cur_tail count then goto c (E_exch cur_tail count) s
          else goto c (E_count cur_tail count) s
      | E_exch cur_tail count \<Rightarrow>
          let (pass, q) = move_tail_exch q cur_tail count
          in if pass then goto c (E_move cur_tail (count + 1)) (s\<lparr>y_sq := q, y_vt := y_vt s + 1\<rparr>)
             else goto c (E_count cur_tail count) (s\<lparr>y_sq := q\<rparr>)
      | E_count cur_tail count \<Rightarrow>
          let s' = s\<lparr>y_sq := q\<lparr>q_head_lock := q_head_lock q + 1\<rparr>\<rparr>
          in if count \<noteq> 0 then goto c (E_db cur_tail count) s' else goto c E_unlock s'
      | E_db cur_tail count \<Rightarrow>
          let new_tail = cur_tail + count;
              new_db = new_tail AND q_qs_minus_1 q
          in goto c (E_store new_tail) (s\<lparr>y_db := new_db # y_db s, y_dbt := y_vt s\<rparr>)
      | E_store new_tail \<Rightarrow> goto c E_unlock (s\<lparr>y_sq := q\<lparr>q_tail := new_tail\<rparr>\<rparr>)
      | E_unlock \<Rightarrow> goto c E_check (s\<lparr>y_sq := q\<lparr>q_tail_lock := UNLOCKED\<rparr>\<rparr>)
      | E_finish \<Rightarrow>
          goto c (E_ret (ucast (ticket AND q_qs_minus_1 q))) (s\<lparr>y_sq := q\<lparr>q_tickets := (q_tickets q)(pos := q_tickets q pos + 1)\<rparr>\<rparr>)
      | E_ret p \<Rightarrow> s)"

text \<open>The consumer: \<open>new_sq_head\<close> is read from the completion, then the tickets of the slots up to
  it are advanced one by one, then the head.\<close>

definition sq_head_start :: "u16 \<Rightarrow> sq_sys \<Rightarrow> sq_sys" where
  "sq_head_start new_sq_head s =
     (let q = y_sq s;
          loc = q_head q AND q_qs_minus_1 q
      in if loc \<noteq> ucast new_sq_head then s\<lparr>y_con := Con_move loc 0 new_sq_head\<rparr> else s)"

definition sq_head_step :: "sq_sys \<Rightarrow> sq_sys" where
  "sq_head_step s =
     (case y_con s of
        Con_idle \<Rightarrow> s
      | Con_move loc count new_sq_head \<Rightarrow>
          let q = y_sq s
          in if loc \<noteq> ucast new_sq_head then
               s\<lparr>y_sq := q\<lparr>q_tickets := (q_tickets q)(unat loc := q_tickets q (unat loc) + 1)\<rparr>,
                 y_con := Con_move ((loc + 1) AND q_qs_minus_1 q) (count + 1) new_sq_head,
                 y_hp := y_hp s + 1\<rparr>
             else s\<lparr>y_sq := q\<lparr>q_head := q_head q + count\<rparr>, y_con := Con_idle\<rparr>)"

definition slots_of :: "sq_sys \<Rightarrow> nat" where
  "slots_of s = 2 ^ unat (q_qs_log2 (y_sq s))"

inductive sq_step :: "sq_sys \<Rightarrow> sq_sys \<Rightarrow> bool" where
  call: "sq_step s (sq_enqueue_start cmd s)"
| run: "c < y_n s \<Longrightarrow> sq_step s (sq_enqueue_step c s)"
| report: "y_con s = Con_idle \<Longrightarrow> y_hp s \<le> x \<Longrightarrow> x \<le> y_dbt s \<Longrightarrow>
    sq_step s (sq_head_start (of_nat (x mod slots_of s)) s)"
| free: "sq_step s (sq_head_step s)"

definition sq_init :: "nat \<Rightarrow> sq_sys" where
  "sq_init k =
     \<lparr>y_sq = zero_queue\<lparr>q_qs := 2 ^ k, q_qs_minus_1 := 2 ^ k - 1, q_qs_log2 := of_nat k\<rparr>,
      y_slots = (\<lambda>_. []), y_db = [], y_n = 0, y_ticket = (\<lambda>_. 0), y_cmd = (\<lambda>_. []), y_pc = (\<lambda>_. E_wait),
      y_con = Con_idle, y_vt = 0, y_dbt = 0, y_hp = 0\<rparr>"

inductive sq_reach :: "nat \<Rightarrow> sq_sys \<Rightarrow> bool" for k where
  init: "sq_reach k (sq_init k)"
| step: "sq_reach k s \<Longrightarrow> sq_step s s' \<Longrightarrow> sq_reach k s'"

subsection \<open>Invariant\<close>

primrec passed :: "enq_pc \<Rightarrow> bool" where
  "passed E_wait = False" | "passed E_wait2 = False" | "passed E_write = True" | "passed E_mark = True"
| "passed E_check = True" | "passed E_try = True" | "passed E_lock = True" | "passed E_load = True"
| "passed (E_move a b) = True" | "passed (E_exch a b) = True" | "passed (E_count a b) = True"
| "passed (E_db a b) = True" | "passed (E_store a) = True" | "passed E_unlock = True"
| "passed E_finish = True" | "passed (E_ret p) = True"

definition written :: "enq_pc \<Rightarrow> bool" where
  "written pc \<longleftrightarrow> passed pc \<and> pc \<noteq> E_write"

definition posted :: "enq_pc \<Rightarrow> bool" where
  "posted pc \<longleftrightarrow> passed pc \<and> pc \<noteq> E_write \<and> pc \<noteq> E_mark"

primrec returned :: "enq_pc \<Rightarrow> bool" where
  "returned E_wait = False" | "returned E_wait2 = False" | "returned E_write = False" | "returned E_mark = False"
| "returned E_check = False" | "returned E_try = False" | "returned E_lock = False" | "returned E_load = False"
| "returned (E_move a b) = False" | "returned (E_exch a b) = False" | "returned (E_count a b) = False"
| "returned (E_db a b) = False" | "returned (E_store a) = False" | "returned E_unlock = False"
| "returned E_finish = False" | "returned (E_ret p) = True"

primrec mover :: "enq_pc \<Rightarrow> bool" where
  "mover E_wait = False" | "mover E_wait2 = False" | "mover E_write = False" | "mover E_mark = False"
| "mover E_check = False" | "mover E_try = False" | "mover E_lock = False" | "mover E_load = True"
| "mover (E_move a b) = True" | "mover (E_exch a b) = True" | "mover (E_count a b) = True"
| "mover (E_db a b) = True" | "mover (E_store a) = True" | "mover E_unlock = True"
| "mover E_finish = False" | "mover (E_ret p) = False"

text \<open>The queue's shape and the call numbers.\<close>

definition inv_shape :: "nat \<Rightarrow> sq_sys \<Rightarrow> bool" where
  "inv_shape k s \<longleftrightarrow> 1 \<le> k \<and> k \<le> 16 \<and> q_qs_minus_1 (y_sq s) = 2 ^ k - 1 \<and> unat (q_qs_log2 (y_sq s)) = k \<and>
     q_in_ticket (y_sq s) = of_nat (y_n s) \<and> (\<forall>c. c < y_n s \<longrightarrow> y_ticket s c = of_nat c) \<and> 
     (\<forall>c. y_n s \<le> c \<longrightarrow> y_pc s c = E_wait)"

text \<open>The head and the consumer.\<close>

definition inv_head :: "nat \<Rightarrow> sq_sys \<Rightarrow> bool" where
  "inv_head k s \<longleftrightarrow> y_hp s \<le> y_dbt s \<and> y_vt s < unat (q_head (y_sq s)) + 2 ^ k \<and>
     (case y_con s of
        Con_idle \<Rightarrow> unat (q_head (y_sq s)) = y_hp s
      | Con_move loc count tgt \<Rightarrow> unat loc = y_hp s mod 2 ^ k \<and> y_hp s = unat (q_head (y_sq s)) + unat count \<and>
          (\<exists>x. y_hp s \<le> x \<and> x \<le> y_dbt s \<and> tgt = of_nat (x mod 2 ^ k)))"

text \<open>The tail, its lock and the call that holds it.\<close>

fun tail_local :: "nat \<Rightarrow> sq_sys \<Rightarrow> enq_pc \<Rightarrow> bool" where
  "tail_local k s (E_move ct n) = (ct = q_tail (y_sq s) \<and> y_vt s = unat ct + unat n \<and> y_dbt s = unat ct)"
| "tail_local k s (E_exch ct n) = (ct = q_tail (y_sq s) \<and> y_vt s = unat ct + unat n \<and> y_dbt s = unat ct \<and>
     y_vt s + 1 < unat (q_head (y_sq s)) + 2 ^ k)"
| "tail_local k s (E_count ct n) = (ct = q_tail (y_sq s) \<and> y_vt s = unat ct + unat n \<and> y_dbt s = unat ct)"
| "tail_local k s (E_db ct n) = (ct = q_tail (y_sq s) \<and> y_vt s = unat ct + unat n \<and> y_dbt s = unat ct)"
| "tail_local k s (E_store nt) = (unat nt = y_vt s \<and> y_dbt s = y_vt s)"
| "tail_local k s E_load = (unat (q_tail (y_sq s)) = y_vt s \<and> y_dbt s = y_vt s)"
| "tail_local k s E_unlock = (unat (q_tail (y_sq s)) = y_vt s \<and> y_dbt s = y_vt s)"
| "tail_local k s _ = True"

definition inv_tail :: "nat \<Rightarrow> sq_sys \<Rightarrow> bool" where
  "inv_tail k s \<longleftrightarrow> unat (q_tail (y_sq s)) \<le> y_dbt s \<and> y_dbt s \<le> y_vt s \<and> y_vt s \<le> y_n s \<and>
     (\<forall>c c'. mover (y_pc s c) \<longrightarrow> mover (y_pc s c') \<longrightarrow> c = c') \<and>
     q_tail_lock (y_sq s) = (if \<exists>c. mover (y_pc s c) then 1 else 0) \<and>
     (\<forall>c. tail_local k s (y_pc s c)) \<and>
     ((\<forall>c. \<not> mover (y_pc s c)) \<longrightarrow> unat (q_tail (y_sq s)) = y_vt s \<and> y_dbt s = y_vt s)"

text \<open>The marks, and which calls the tail has passed.\<close>

definition inv_marks :: "nat \<Rightarrow> sq_sys \<Rightarrow> bool" where
  "inv_marks k s \<longleftrightarrow> (\<forall>c. c < y_vt s \<longrightarrow> posted (y_pc s c)) \<and>
     (\<forall>c. y_pc s c = E_finish \<or> returned (y_pc s c) \<longrightarrow> c < y_vt s) \<and>
     (\<forall>c. y_vt s \<le> c \<longrightarrow> posted (y_pc s c) \<longrightarrow> q_tail_mark (y_sq s) (c mod 2 ^ k) = 1) \<and>
     (\<forall>p. q_tail_mark (y_sq s) p \<noteq> 0 \<longrightarrow> (\<exists>c. c mod 2 ^ k = p \<and> y_vt s \<le> c \<and> posted (y_pc s c)))"

text \<open>The ticket counter of a slot: twice the number of commands that have gone through the slot,
  plus one if the current one has either returned or been freed.\<close>

definition slot_gen :: "sq_sys \<Rightarrow> nat \<Rightarrow> nat" where
  "slot_gen s p = unat (q_tickets (y_sq s) p) div 2"

definition share :: "sq_sys \<Rightarrow> nat \<Rightarrow> nat" where
  "share s c = (if returned (y_pc s c) then 1 else 0) + (if c < y_hp s then 1 else 0)"

definition inv_tickets :: "nat \<Rightarrow> sq_sys \<Rightarrow> bool" where
  "inv_tickets k s \<longleftrightarrow> (\<forall>c.
     (c div 2 ^ k < slot_gen s (c mod 2 ^ k) \<longrightarrow> returned (y_pc s c) \<and> c < y_hp s) \<and>
     (slot_gen s (c mod 2 ^ k) < c div 2 ^ k \<longrightarrow> \<not> passed (y_pc s c)) \<and>
     (slot_gen s (c mod 2 ^ k) = c div 2 ^ k \<longrightarrow>
        unat (q_tickets (y_sq s) (c mod 2 ^ k)) mod 2 = share s c))"

text \<open>The commands in the slots.\<close>

definition inv_slots :: "nat \<Rightarrow> sq_sys \<Rightarrow> bool" where
  "inv_slots k s \<longleftrightarrow> (\<forall>c. y_hp s \<le> c \<longrightarrow> written (y_pc s c) \<longrightarrow> y_slots s (c mod 2 ^ k) = y_cmd s c)"

definition sq_inv :: "nat \<Rightarrow> sq_sys \<Rightarrow> bool" where
  "sq_inv k s \<longleftrightarrow> inv_shape k s \<and> inv_head k s \<and> inv_tail k s \<and> inv_marks k s \<and> inv_tickets k s \<and> inv_slots k s"

lemmas sq_inv_defs = sq_inv_def inv_shape_def inv_head_def inv_tail_def inv_marks_def inv_tickets_def inv_slots_def


subsection \<open>Arithmetic of tickets\<close>

lemma unat_and_mask: "k \<le> 16 \<Longrightarrow> unat (x AND (2 ^ k - 1) :: u32) = unat x mod 2 ^ k"
  by (simp add: unat_mod_distrib unat_power2 take_bit_eq_mod flip: mask_eq_exp_minus_1 take_bit_eq_mask)

lemma ticket_pos: "c < 2 ^ 32 \<Longrightarrow> k \<le> 16 \<Longrightarrow> unat (of_nat c AND (2 ^ k - 1) :: u32) = c mod 2 ^ k"
  by (simp add: unat_and_mask unat_slot)

lemma get_id_eq:
  assumes "c < 2 ^ 32" "unat l = k" "k \<le> 16"
  shows "ucast (t :: u32) = get_id (ucast (of_nat c :: u32)) (ucast (l :: u32)) \<longleftrightarrow> unat t = 2 * (c div 2 ^ k)"
proof -
  have l: "unat (ucast l :: u64) = k"
    using assms(2,3) by (simp add: unat_ucast_mod)
  have "unat (drop_bit k (ucast (of_nat c :: u32)) :: u64) = c div 2 ^ k"
    using assms(1) by (simp add: unat_drop_bit unat_ucast_mod unat_slot)
  moreover have "c div 2 ^ k < 2 ^ 32"
    using assms(1) div_le_dividend[of c "2 ^ k"] by linarith
  ultimately have "unat (get_id (ucast (of_nat c :: u32)) (ucast l)) = c div 2 ^ k * 2"
    by (simp add: get_id_def l unat_word_ariths)
  moreover have "unat (ucast t :: u64) = unat t"
    using unsigned_less[of t, where 'a = nat] by (simp add: unat_ucast_mod)
  ultimately show ?thesis
    by (metis mult.commute word_unat_eq_iff)
qed

text \<open>With fewer than \<open>2\<^sup>3\<^sup>2 - 1\<close> calls no counter wraps.\<close>

definition few_calls :: "sq_sys \<Rightarrow> bool" where
  "few_calls s \<longleftrightarrow> y_n s + 2 \<le> 2 ^ 32"

subsection \<open>Consequences of the invariant\<close>

lemma inv_passed: "sq_inv k s \<Longrightarrow> passed (y_pc s c) \<Longrightarrow> c < y_n s"
  by (metis inv_shape_def not_le passed.simps(1) sq_inv_def)

lemma inv_gen:
  assumes "sq_inv k s" "passed (y_pc s c)" "\<not> returned (y_pc s c)"
  shows "slot_gen s (c mod 2 ^ k) = c div 2 ^ k"
  using assms by (metis inv_tickets_def linorder_neqE_nat sq_inv_def)

lemma inv_earlier:
  assumes "sq_inv k s" "passed (y_pc s c)" "c' < c" "c' mod 2 ^ k = c mod 2 ^ k"
  shows "returned (y_pc s c') \<and> c' < y_hp s"
proof -
  have "c' div 2 ^ k < c div 2 ^ k"
    using assms(3,4) by (metis div_le_mono div_mult_mod_eq le_neq_implies_less less_imp_le_nat less_irrefl)
  moreover have "c div 2 ^ k \<le> slot_gen s (c mod 2 ^ k)"
    using assms by (metis inv_tickets_def not_le sq_inv_def)
  ultimately show ?thesis
    using assms by (metis inv_tickets_def less_le_trans sq_inv_def)
qed

lemma inv_pos:
  assumes "sq_inv k s" "few_calls s" "c < y_n s"
  shows "unat (y_ticket s c AND q_qs_minus_1 (y_sq s)) = c mod 2 ^ k"
  using assms by (simp add: sq_inv_def inv_shape_def few_calls_def ticket_pos)


subsection \<open>Preservation\<close>

text \<open>Moving a call between program points of the same kind.\<close>

lemma goto_simps [simp]:
  "y_sq (goto c pc s) = y_sq s" "y_slots (goto c pc s) = y_slots s" "y_db (goto c pc s) = y_db s"
  "y_n (goto c pc s) = y_n s" "y_ticket (goto c pc s) = y_ticket s" "y_cmd (goto c pc s) = y_cmd s"
  "y_con (goto c pc s) = y_con s" "y_vt (goto c pc s) = y_vt s" "y_dbt (goto c pc s) = y_dbt s"
  "y_hp (goto c pc s) = y_hp s" "y_pc (goto c pc s) = (y_pc s)(c := pc)" "slot_gen (goto c pc s) = slot_gen s"
  by (simp_all add: goto_def slot_gen_def fun_eq_iff)

lemma inv_shape_goto: "c < y_n s \<Longrightarrow> inv_shape k s \<Longrightarrow> inv_shape k (goto c pc s)"
  by (simp add: inv_shape_def)

lemma inv_head_goto [simp]: "inv_head k (goto c pc s) = inv_head k s"
  unfolding inv_head_def goto_simps ..

lemma inv_slots_goto: "written pc = written (y_pc s c) \<Longrightarrow> inv_slots k s \<Longrightarrow> inv_slots k (goto c pc s)"
  unfolding inv_slots_def goto_simps by (simp add: fun_upd_class)

lemma share_goto: "returned pc = returned (y_pc s c) \<Longrightarrow> share (goto c pc s) c' = share s c'"
  by (simp add: share_def)

lemma inv_tickets_goto:
  "passed pc = passed (y_pc s c) \<Longrightarrow> returned pc = returned (y_pc s c) \<Longrightarrow> inv_tickets k s \<Longrightarrow>
   inv_tickets k (goto c pc s)"
  unfolding inv_tickets_def goto_simps fun_upd_class[of passed] fun_upd_class[of returned] by (simp add: share_goto)

lemma inv_marks_goto:
  assumes "posted pc = posted (y_pc s c)" "pc = E_finish \<or> returned pc \<longrightarrow> c < y_vt s" "inv_marks k s"
  shows "inv_marks k (goto c pc s)"
proof -
  have m: "posted (((y_pc s)(c := pc)) c') = posted (y_pc s c')" for c'
    using assms(1) by simp
  show ?thesis
    using assms(2,3) unfolding inv_marks_def goto_simps m by (metis fun_upd_apply)
qed

lemma tail_local_goto [simp]: "tail_local k (goto c pc s) pc' = tail_local k s pc'"
  by (cases pc') simp_all

lemma tail_local_idle: "\<not> mover pc \<Longrightarrow> tail_local k s pc"
  by (cases pc) simp_all

lemma inv_tail_goto:
  assumes "\<not> mover pc" "\<not> mover (y_pc s c)" "inv_tail k s"
  shows "inv_tail k (goto c pc s)"
proof -
  have m: "mover (((y_pc s)(c := pc)) c') = mover (y_pc s c')" for c'
    using assms(1,2) by simp
  show ?thesis
    using assms(1,3) unfolding inv_tail_def goto_simps m tail_local_goto by (simp add: tail_local_idle)
qed

text \<open>A step of the call that holds the tail lock.\<close>

lemma inv_tail_mover:
  assumes "inv_tail k s" "mover (y_pc s c)" "mover pc" "y_pc s' = (y_pc s)(c := pc)" "y_n s' = y_n s"
    and "q_tail_lock (y_sq s') = q_tail_lock (y_sq s)" "tail_local k s' pc"
    and "unat (q_tail (y_sq s')) \<le> y_dbt s'" "y_dbt s' \<le> y_vt s'" "y_vt s' \<le> y_n s"
  shows "inv_tail k s'"
proof -
  have m: "mover (y_pc s' c') = mover (y_pc s c')" for c'
    using assms(2-4) by simp
  have "tail_local k s' (y_pc s' c')" for c'
    using assms(1,2,4,7) m[of c'] by (cases "c' = c") (auto simp: inv_tail_def intro: tail_local_idle)
  then show ?thesis
    using assms unfolding inv_tail_def m by auto
qed

lemma inv_goto:
  assumes "sq_inv k s" "c < y_n s" "passed pc = passed (y_pc s c)" "written pc = written (y_pc s c)"
    and "posted pc = posted (y_pc s c)" "returned pc = returned (y_pc s c)" "\<not> mover pc" "\<not> mover (y_pc s c)"
    and "pc = E_finish \<or> returned pc \<longrightarrow> c < y_vt s"
  shows "sq_inv k (goto c pc s)"
  using assms unfolding sq_inv_def
  by (auto intro: inv_shape_goto inv_slots_goto inv_tickets_goto inv_marks_goto inv_tail_goto)

text \<open>Each part of the invariant depends on some of the fields only.\<close>

lemma inv_shape_cong:
  "q_qs_minus_1 (y_sq t) = q_qs_minus_1 (y_sq s) \<Longrightarrow> q_qs_log2 (y_sq t) = q_qs_log2 (y_sq s) \<Longrightarrow>
   q_in_ticket (y_sq t) = q_in_ticket (y_sq s) \<Longrightarrow> y_n t = y_n s \<Longrightarrow> y_ticket t = y_ticket s \<Longrightarrow> y_pc t = y_pc s \<Longrightarrow>
   inv_shape k s \<Longrightarrow> inv_shape k t"
  by (simp add: inv_shape_def)

lemma inv_tickets_cong:
  "q_tickets (y_sq t) = q_tickets (y_sq s) \<Longrightarrow> y_hp t = y_hp s \<Longrightarrow> y_pc t = y_pc s \<Longrightarrow> inv_tickets k s \<Longrightarrow>
   inv_tickets k t"
  by (simp add: inv_tickets_def slot_gen_def share_def)

lemma inv_marks_cong:
  "q_tail_mark (y_sq t) = q_tail_mark (y_sq s) \<Longrightarrow> y_vt t = y_vt s \<Longrightarrow> y_pc t = y_pc s \<Longrightarrow> inv_marks k s \<Longrightarrow>
   inv_marks k t"
  by (simp add: inv_marks_def)

lemma tail_local_cong:
  "q_tail (y_sq t) = q_tail (y_sq s) \<Longrightarrow> unat (q_head (y_sq s)) \<le> unat (q_head (y_sq t)) \<Longrightarrow> y_vt t = y_vt s \<Longrightarrow>
   y_dbt t = y_dbt s \<Longrightarrow> tail_local k s pc \<Longrightarrow> tail_local k t pc"
  by (cases pc) simp_all

lemma inv_tail_cong:
  "q_tail (y_sq t) = q_tail (y_sq s) \<Longrightarrow> q_tail_lock (y_sq t) = q_tail_lock (y_sq s) \<Longrightarrow>
   unat (q_head (y_sq s)) \<le> unat (q_head (y_sq t)) \<Longrightarrow> y_vt t = y_vt s \<Longrightarrow> y_dbt t = y_dbt s \<Longrightarrow> y_n s \<le> y_n t \<Longrightarrow>
   y_pc t = y_pc s \<Longrightarrow> inv_tail k s \<Longrightarrow> inv_tail k t"
  unfolding inv_tail_def using tail_local_cong[of t s k] by auto

lemma inv_head_cong:
  "q_head (y_sq t) = q_head (y_sq s) \<Longrightarrow> y_con t = y_con s \<Longrightarrow> y_vt t = y_vt s \<Longrightarrow> y_dbt s \<le> y_dbt t \<Longrightarrow> y_hp t = y_hp s \<Longrightarrow>
   inv_head k s \<Longrightarrow> inv_head k t"
  unfolding inv_head_def by (cases "y_con s") (auto intro: le_trans)

lemma inv_slots_cong:
  "y_slots t = y_slots s \<Longrightarrow> y_cmd t = y_cmd s \<Longrightarrow> y_hp t = y_hp s \<Longrightarrow> y_pc t = y_pc s \<Longrightarrow> inv_slots k s \<Longrightarrow> inv_slots k t"
  by (simp add: inv_slots_def)

lemmas inv_congs = inv_shape_cong inv_tickets_cong inv_marks_cong inv_tail_cong inv_head_cong inv_slots_cong

text \<open>Drawing the slot.\<close>

lemma step_wait:
  assumes "sq_inv k s" "c < y_n s" "y_pc s c = E_wait"
  shows "sq_inv k (sq_enqueue_step c s)"
  using assms inv_goto[OF assms(1,2), of E_wait2]
  by (simp add: sq_enqueue_step_def Let_def written_def posted_def)

lemma step_wait2:
  assumes "sq_inv k s" "c < y_n s" "few_calls s" "y_pc s c = E_wait2"
  shows "sq_inv k (sq_enqueue_step c s)"
proof (cases "unat (q_tickets (y_sq s) (c mod 2 ^ k)) = 2 * (c div 2 ^ k)")
  case True
  have k: "unat (q_qs_log2 (y_sq s)) = k" "k \<le> 16" "y_ticket s c = of_nat c"
    using assms(1,2) by (simp_all add: sq_inv_def inv_shape_def)
  have "sq_enqueue_step c s = goto c E_write s"
    using True assms get_id_eq[OF _ k(1,2), of c] inv_pos[OF assms(1,3,2)]
    by (simp add: sq_enqueue_step_def Let_def k(3) few_calls_def)
  moreover have "inv_tickets k (goto c E_write s)"
    using assms(1,4) True unfolding sq_inv_def inv_tickets_def goto_simps
    by (auto simp: slot_gen_def share_def)
  ultimately show ?thesis
    using assms unfolding sq_inv_def
    by (simp add: inv_shape_goto inv_slots_goto inv_marks_goto inv_tail_goto written_def posted_def)
next
  case False
  have k: "unat (q_qs_log2 (y_sq s)) = k" "k \<le> 16" "y_ticket s c = of_nat c"
    using assms(1,2) by (simp_all add: sq_inv_def inv_shape_def)
  have "sq_enqueue_step c s = s"
    using False assms get_id_eq[OF _ k(1,2), of c] inv_pos[OF assms(1,3,2)]
    by (simp add: sq_enqueue_step_def Let_def k(3) few_calls_def)
  then show ?thesis
    using assms(1) by simp
qed

text \<open>Writing the command and posting it.\<close>

lemma step_write:
  assumes "sq_inv k s" "c < y_n s" "few_calls s" "y_pc s c = E_write"
  shows "sq_inv k (sq_enqueue_step c s)"
proof -
  let ?s = "s\<lparr>y_slots := (y_slots s)(c mod 2 ^ k := y_cmd s c)\<rparr>"
  have step: "sq_enqueue_step c s = goto c E_mark ?s"
    using assms(4) inv_pos[OF assms(1,3,2)] by (simp add: sq_enqueue_step_def Let_def)
  have other: "c' = c" if "c' mod 2 ^ k = c mod 2 ^ k" "y_hp s \<le> c'" "written (y_pc s c')" for c'
    using inv_earlier[OF assms(1), of c c'] inv_earlier[OF assms(1), of c' c] that assms(4)
    by (metis linorder_neqE_nat not_le passed.simps(3) returned.simps(3) written_def)
  have "inv_slots k (goto c E_mark ?s)"
    using assms(1) other unfolding sq_inv_def inv_slots_def by (auto simp: written_def)
  moreover have "inv_shape k ?s" "inv_tickets k ?s" "inv_marks k ?s" "inv_tail k ?s" "inv_head k ?s"
    using assms(1) inv_congs[of ?s s k] by (simp_all add: sq_inv_def)
  ultimately show ?thesis
    unfolding step sq_inv_def using assms
    by (simp add: inv_shape_goto inv_tickets_goto inv_marks_goto inv_tail_goto posted_def)
qed

lemma step_mark:
  assumes "sq_inv k s" "c < y_n s" "few_calls s" "y_pc s c = E_mark"
  shows "sq_inv k (sq_enqueue_step c s)"
proof -
  let ?s = "s\<lparr>y_sq := (y_sq s)\<lparr>q_tail_mark := (q_tail_mark (y_sq s))(c mod 2 ^ k := 1)\<rparr>\<rparr>"
  have step: "sq_enqueue_step c s = goto c E_check ?s"
    using assms(4) inv_pos[OF assms(1,3,2)] by (simp add: sq_enqueue_step_def Let_def LOCKED_def)
  have m: "inv_marks k s"
    using assms(1) by (simp add: sq_inv_def)
  then have c: "y_vt s \<le> c"
    using assms(4) unfolding inv_marks_def posted_def by (metis linorder_not_le)
  have "inv_marks k (goto c E_check ?s)"
    using m c unfolding inv_marks_def goto_simps by (auto simp: posted_def)
  moreover have "inv_shape k ?s" "inv_tickets k ?s" "inv_slots k ?s" "inv_tail k ?s" "inv_head k ?s"
    using assms(1) inv_congs[of ?s s k] by (simp_all add: sq_inv_def)
  ultimately show ?thesis
    unfolding step sq_inv_def using assms
    by (simp add: inv_shape_goto inv_tickets_goto inv_slots_goto inv_tail_goto written_def)
qed

text \<open>Waiting for the tail to pass.\<close>

lemma step_check:
  assumes "sq_inv k s" "c < y_n s" "few_calls s" "y_pc s c = E_check"
  shows "sq_inv k (sq_enqueue_step c s)"
proof -
  have "inv_marks k s"
    using assms(1) by (simp add: sq_inv_def)
  then have "c < y_vt s" if "q_tail_mark (y_sq s) (c mod 2 ^ k) \<noteq> 1"
    using that assms(4) unfolding inv_marks_def by (metis leI passed.simps(5) posted_def enq_pc.distinct)
  then show ?thesis
    using assms(4) inv_pos[OF assms(1,3,2)] inv_goto[OF assms(1,2), of E_try] inv_goto[OF assms(1,2), of E_finish]
    by (simp add: sq_enqueue_step_def Let_def LOCKED_def written_def posted_def)
qed

lemma step_try:
  assumes "sq_inv k s" "c < y_n s" "y_pc s c = E_try"
  shows "sq_inv k (sq_enqueue_step c s)"
  using assms(3) inv_goto[OF assms(1,2), of E_check] inv_goto[OF assms(1,2), of E_lock]
  by (simp add: sq_enqueue_step_def Let_def written_def posted_def)

text \<open>Moving the tail.\<close>

lemma mover_passed: "mover pc \<Longrightarrow> passed pc \<and> written pc \<and> posted pc \<and> \<not> returned pc \<and> pc \<noteq> E_finish"
  by (cases pc) (simp_all add: written_def posted_def)

lemma inv_mover:
  assumes "sq_inv k s" "c < y_n s" "mover (y_pc s c)" "mover pc" "inv_shape k t" "inv_tickets k t" "inv_marks k t"
    and "inv_head k t" "inv_slots k t" "y_pc t = y_pc s" "y_n t = y_n s"
    and "q_tail_lock (y_sq t) = q_tail_lock (y_sq s)" "tail_local k t pc"
    and "unat (q_tail (y_sq t)) \<le> y_dbt t" "y_dbt t \<le> y_vt t" "y_vt t \<le> y_n t"
  shows "sq_inv k (goto c pc t)"
proof -
  have "inv_tail k s"
    using assms(1) by (simp add: sq_inv_def)
  then have "inv_tail k (goto c pc t)"
    by (rule inv_tail_mover[where c = c and pc = pc]) (simp_all add: assms(3,4,10-16) flip: assms(11))
  moreover have "inv_shape k (goto c pc t)"
    using assms(2,5,11) by (simp add: inv_shape_goto)
  moreover have "inv_tickets k (goto c pc t)" "inv_slots k (goto c pc t)" "inv_marks k (goto c pc t)"
    using mover_passed[OF assms(3)] mover_passed[OF assms(4)]
    by (auto intro!: inv_tickets_goto inv_slots_goto inv_marks_goto assms(6,7,9) simp: assms(10))
  ultimately show ?thesis
    by (simp add: sq_inv_def assms(8))
qed

lemma step_lock:
  assumes "sq_inv k s" "c < y_n s" "y_pc s c = E_lock"
  shows "sq_inv k (sq_enqueue_step c s)"
proof (cases "\<exists>c'. mover (y_pc s c')")
  case True
  then have "q_tail_lock (y_sq s) = 1"
    using assms(1) by (simp add: sq_inv_def inv_tail_def)
  then have "sq_enqueue_step c s = goto c E_check s"
    using assms(3) by (simp add: sq_enqueue_step_def Let_def LOCKED_def)
  then show ?thesis
    using inv_goto[OF assms(1,2), of E_check] assms(3) by (simp add: written_def posted_def)
next
  case False
  let ?s = "s\<lparr>y_sq := (y_sq s)\<lparr>q_tail_lock := 1\<rparr>\<rparr>"
  have t: "inv_tail k s" "q_tail_lock (y_sq s) = 0" "unat (q_tail (y_sq s)) = y_vt s" "y_dbt s = y_vt s" "y_vt s \<le> y_n s"
    using assms(1) False by (simp_all add: sq_inv_def inv_tail_def)
  have step: "sq_enqueue_step c s = goto c E_load ?s"
    using assms(3) t(2) by (simp add: sq_enqueue_step_def Let_def LOCKED_def)
  have "inv_shape k ?s" "inv_tickets k ?s" "inv_slots k ?s" "inv_head k ?s" "inv_marks k ?s"
    using assms(1) inv_congs[of ?s s k] by (simp_all add: sq_inv_def)
  moreover have "inv_tail k (goto c E_load ?s)"
  proof -
    have m: "mover (((y_pc ?s)(c := E_load)) c') = (c' = c)" for c'
      using False by simp
    have "tail_local k ?s (((y_pc ?s)(c := E_load)) c')" for c'
      using False t(3,4) by (cases "c' = c") (simp_all add: tail_local_idle)
    then show ?thesis
      using t unfolding inv_tail_def goto_simps m tail_local_goto by simp
  qed
  ultimately show ?thesis
    unfolding step sq_inv_def using assms
    by (simp add: inv_shape_goto inv_tickets_goto inv_slots_goto inv_marks_goto written_def posted_def)
qed

lemma inv_tail_local: "sq_inv k s \<Longrightarrow> tail_local k s (y_pc s c)"
  by (simp add: sq_inv_def inv_tail_def)

lemma inv_bounds:
  "sq_inv k s \<Longrightarrow> unat (q_tail (y_sq s)) \<le> y_dbt s \<and> y_dbt s \<le> y_vt s \<and> y_vt s \<le> y_n s \<and> y_hp s \<le> y_dbt s"
  by (simp add: sq_inv_def inv_tail_def inv_head_def)

lemma step_load:
  assumes "sq_inv k s" "c < y_n s" "y_pc s c = E_load"
  shows "sq_inv k (sq_enqueue_step c s)"
proof -
  have "sq_inv k (goto c (E_move (q_tail (y_sq s)) 0) s)"
    using assms inv_tail_local[OF assms(1), of c] inv_bounds[OF assms(1)]
    by (intro inv_mover[of k s]) (simp_all add: sq_inv_def)
  then show ?thesis
    using assms(3) by (simp add: sq_enqueue_step_def Let_def)
qed

lemma step_move:
  assumes "sq_inv k s" "c < y_n s" "few_calls s" "y_pc s c = E_move ct n"
  shows "sq_inv k (sq_enqueue_step c s)"
proof -
  have l: "ct = q_tail (y_sq s)" "y_vt s = unat ct + unat n" "y_dbt s = unat ct"
    using inv_tail_local[OF assms(1), of c] assms(4) by simp_all
  have b: "y_vt s \<le> y_n s" "y_n s + 2 \<le> 2 ^ 32" and k: "k \<le> 16" "q_qs_minus_1 (y_sq s) = 2 ^ k - 1"
    using assms(1,3) inv_bounds[OF assms(1)] by (simp_all add: few_calls_def sq_inv_def inv_shape_def)
  have "unat (ct + n + 1) = y_vt s + 1"
    using b l(2) by (simp add: unat_add_no_wrap)
  then have test: "move_tail_test (y_sq s) ct n \<longleftrightarrow> (y_vt s + 1) mod 2 ^ k \<noteq> unat (q_head (y_sq s)) mod 2 ^ k"
    by (simp add: move_tail_test_def k word_unat_eq_iff[of "_ AND _"] unat_and_mask)
  show ?thesis
  proof (cases "move_tail_test (y_sq s) ct n")
    case True
    have "y_vt s < unat (q_head (y_sq s)) + 2 ^ k"
      using assms(1) by (simp add: sq_inv_def inv_head_def)
    then have "y_vt s + 1 < unat (q_head (y_sq s)) + 2 ^ k"
      using True test by (cases "y_vt s + 1 = unat (q_head (y_sq s)) + 2 ^ k") auto
    then have "sq_inv k (goto c (E_exch ct n) s)"
      using assms l inv_bounds[OF assms(1)] by (intro inv_mover[of k s]) (simp_all add: sq_inv_def)
    then show ?thesis
      using True assms(4) by (simp add: sq_enqueue_step_def Let_def)
  next
    case False
    have "sq_inv k (goto c (E_count ct n) s)"
      using assms l inv_bounds[OF assms(1)] by (intro inv_mover[of k s]) (simp_all add: sq_inv_def)
    then show ?thesis
      using False assms(4) by (simp add: sq_enqueue_step_def Let_def)
  qed
qed

lemma step_exch:
  assumes "sq_inv k s" "c < y_n s" "few_calls s" "y_pc s c = E_exch ct n"
  shows "sq_inv k (sq_enqueue_step c s)"
proof -
  let ?m = "q_tail_mark (y_sq s)"
  let ?p = "y_vt s mod 2 ^ k"
  let ?q = "(y_sq s)\<lparr>q_tail_mark := ?m(?p := 0)\<rparr>"
  have l: "ct = q_tail (y_sq s)" "y_vt s = unat ct + unat n" "y_dbt s = unat ct"
    "y_vt s + 1 < unat (q_head (y_sq s)) + 2 ^ k"
    using inv_tail_local[OF assms(1), of c] assms(4) by auto
  have b: "y_vt s \<le> y_n s" "y_n s + 2 \<le> 2 ^ 32" "y_hp s \<le> y_dbt s" and k: "k \<le> 16" "q_qs_minus_1 (y_sq s) = 2 ^ k - 1"
    using assms(1,3) inv_bounds[OF assms(1)] by (simp_all add: few_calls_def sq_inv_def inv_shape_def)
  have "unat ((ct + n) AND q_qs_minus_1 (y_sq s)) = ?p"
    using b l(2) k by (simp add: unat_add_no_wrap unat_and_mask)
  then have exch: "move_tail_exch (y_sq s) ct n = (?m ?p = 1, ?q)"
    by (simp add: move_tail_exch_def LOCKED_def UNLOCKED_def Let_def)
  have marks: "inv_marks k s"
    using assms(1) by (simp add: sq_inv_def)
  have only: "c' = y_vt s" if "c' mod 2 ^ k = ?p" "y_vt s \<le> c'" "posted (y_pc s c')" for c'
    using inv_earlier[OF assms(1), of c' "y_vt s"] that marks unfolding inv_marks_def posted_def
    by (metis le_neq_implies_less less_irrefl)
  show ?thesis
  proof (cases "?m ?p = 1")
    case True
    let ?s = "s\<lparr>y_sq := ?q, y_vt := y_vt s + 1\<rparr>"
    have vt: "posted (y_pc s (y_vt s))"
      using True marks only unfolding inv_marks_def by (metis zero_neq_one)
    then have n: "y_vt s < y_n s"
      using inv_passed[OF assms(1)] by (simp add: posted_def)
    have "inv_marks k ?s"
      unfolding inv_marks_def
    proof (intro conjI allI impI)
      fix c'
      show "posted (y_pc ?s c')" if "c' < y_vt ?s"
        using that marks vt by (cases "c' = y_vt s") (simp_all add: inv_marks_def)
      show "c' < y_vt ?s" if "y_pc ?s c' = E_finish \<or> returned (y_pc ?s c')"
        using that marks by (auto simp: inv_marks_def)
      show "q_tail_mark (y_sq ?s) (c' mod 2 ^ k) = 1" if "y_vt ?s \<le> c'" "posted (y_pc ?s c')"
        using that marks only[of c'] by (auto simp: inv_marks_def)
      show "\<exists>c. c mod 2 ^ k = c' \<and> y_vt ?s \<le> c \<and> posted (y_pc ?s c)" if "q_tail_mark (y_sq ?s) c' \<noteq> 0"
      proof -
        have "c' \<noteq> ?p" "?m c' \<noteq> 0"
          using that by (auto split: if_splits)
        moreover then obtain d where "d mod 2 ^ k = c'" "y_vt s \<le> d" "posted (y_pc s d)"
          using marks unfolding inv_marks_def by blast
        ultimately show ?thesis
          by (intro exI[of _ d]) (auto simp: le_eq_less_or_eq)
      qed
    qed
    moreover have "inv_head k ?s"
      using assms(1) l(4) by (auto simp: sq_inv_def inv_head_def split: con_pc.splits)
    moreover have "inv_shape k ?s" "inv_tickets k ?s" "inv_slots k ?s"
      using assms(1) inv_congs[of ?s s k] by (simp_all add: sq_inv_def)
    moreover have "unat (n + 1) = unat n + 1"
      using b l(2) by (simp add: unat_add_no_wrap)
    ultimately have "sq_inv k (goto c (E_move ct (n + 1)) ?s)"
      using assms l n b by (intro inv_mover[of k s]) simp_all
    then show ?thesis
      using True assms(4) by (simp add: sq_enqueue_step_def Let_def exch)
  next
    case False
    let ?s = "s\<lparr>y_sq := ?q\<rparr>"
    have "?m ?p = 0"
      using False marks unfolding inv_marks_def by metis
    then have "?m(?p := 0) = ?m"
      by (simp add: fun_upd_idem)
    then have "inv_shape k ?s" "inv_tickets k ?s" "inv_slots k ?s" "inv_marks k ?s" "inv_head k ?s"
      using assms(1) inv_congs[of ?s s k] by (simp_all add: sq_inv_def)
    then have "sq_inv k (goto c (E_count ct n) ?s)"
      using assms l b by (intro inv_mover[of k s]) simp_all
    then show ?thesis
      using False assms(4) by (simp add: sq_enqueue_step_def Let_def exch)
  qed
qed

lemma step_count:
  assumes "sq_inv k s" "c < y_n s" "y_pc s c = E_count ct n"
  shows "sq_inv k (sq_enqueue_step c s)"
proof -
  let ?s = "s\<lparr>y_sq := (y_sq s)\<lparr>q_head_lock := q_head_lock (y_sq s) + 1\<rparr>\<rparr>"
  have l: "ct = q_tail (y_sq s)" "y_vt s = unat ct + unat n" "y_dbt s = unat ct"
    using inv_tail_local[OF assms(1), of c] assms(3) by simp_all
  have i: "inv_shape k ?s" "inv_tickets k ?s" "inv_slots k ?s" "inv_marks k ?s" "inv_head k ?s"
    using assms(1) inv_congs[of ?s s k] by (simp_all add: sq_inv_def)
  have "sq_inv k (goto c (E_db ct n) ?s)"
    using assms l i inv_bounds[OF assms(1)] by (intro inv_mover[of k s]) simp_all
  moreover have "sq_inv k (goto c E_unlock ?s)" if "n = 0"
    using assms l i that inv_bounds[OF assms(1)] by (intro inv_mover[of k s]) simp_all
  ultimately show ?thesis
    using assms(3) by (simp add: sq_enqueue_step_def Let_def)
qed

lemma step_db:
  assumes "sq_inv k s" "c < y_n s" "few_calls s" "y_pc s c = E_db ct n"
  shows "sq_inv k (sq_enqueue_step c s)"
proof -
  let ?s = "s\<lparr>y_db := ((ct + n) AND q_qs_minus_1 (y_sq s)) # y_db s, y_dbt := y_vt s\<rparr>"
  have l: "ct = q_tail (y_sq s)" "y_vt s = unat ct + unat n" "y_dbt s = unat ct"
    using inv_tail_local[OF assms(1), of c] assms(4) by simp_all
  have i: "inv_shape k ?s" "inv_tickets k ?s" "inv_slots k ?s" "inv_marks k ?s" "inv_head k ?s"
    using assms(1) l inv_congs[of ?s s k] by (simp_all add: sq_inv_def)
  have "unat (ct + n) = y_vt s"
    using l(2) inv_bounds[OF assms(1)] assms(3) by (simp add: unat_add_no_wrap few_calls_def)
  then have "sq_inv k (goto c (E_store (ct + n)) ?s)"
    using assms l i inv_bounds[OF assms(1)] by (intro inv_mover[of k s]) simp_all
  then show ?thesis
    using assms(4) by (simp add: sq_enqueue_step_def Let_def)
qed

lemma step_store:
  assumes "sq_inv k s" "c < y_n s" "y_pc s c = E_store nt"
  shows "sq_inv k (sq_enqueue_step c s)"
proof -
  let ?s = "s\<lparr>y_sq := (y_sq s)\<lparr>q_tail := nt\<rparr>\<rparr>"
  have l: "unat nt = y_vt s" "y_dbt s = y_vt s"
    using inv_tail_local[OF assms(1), of c] assms(3) by simp_all
  have i: "inv_shape k ?s" "inv_tickets k ?s" "inv_slots k ?s" "inv_marks k ?s" "inv_head k ?s"
    using assms(1) l inv_congs[of ?s s k] by (simp_all add: sq_inv_def)
  then have "sq_inv k (goto c E_unlock ?s)"
    using assms l i inv_bounds[OF assms(1)] by (intro inv_mover[of k s]) simp_all
  then show ?thesis
    using assms(3) by (simp add: sq_enqueue_step_def Let_def)
qed

lemma step_unlock:
  assumes "sq_inv k s" "c < y_n s" "y_pc s c = E_unlock"
  shows "sq_inv k (sq_enqueue_step c s)"
proof -
  let ?s = "s\<lparr>y_sq := (y_sq s)\<lparr>q_tail_lock := 0\<rparr>\<rparr>"
  have t: "inv_tail k s"
    using assms(1) by (simp add: sq_inv_def)
  have l: "unat (q_tail (y_sq s)) = y_vt s" "y_dbt s = y_vt s"
    using inv_tail_local[OF assms(1), of c] assms(3) by simp_all
  have m: "\<not> mover (((y_pc s)(c := E_check)) c')" for c'
    using t assms(3) unfolding inv_tail_def by (metis fun_upd_apply mover.simps(14) mover.simps(5))
  have "inv_tail k (goto c E_check ?s)"
    using t l m unfolding inv_tail_def goto_simps by (simp add: tail_local_idle)
  moreover have "inv_shape k ?s" "inv_tickets k ?s" "inv_slots k ?s" "inv_marks k ?s" "inv_head k ?s"
    using assms(1) inv_congs[of ?s s k] by (simp_all add: sq_inv_def)
  ultimately show ?thesis
    using assms(2,3) unfolding sq_inv_def
    by (simp add: sq_enqueue_step_def Let_def UNLOCKED_def inv_shape_goto inv_tickets_goto inv_slots_goto
        inv_marks_goto written_def posted_def)
qed

text \<open>Releasing a slot: the producer's and the consumer's increment of its ticket counter.\<close>

lemma tickets_incr:
  assumes "sq_inv k s" "few_calls s" "c < y_n s" "passed (y_pc s c)"
    and "\<not> returned (y_pc s c) \<or> y_hp s \<le> c"
  shows "slot_gen s (c mod 2 ^ k) = c div 2 ^ k \<and>
    unat (q_tickets (y_sq s) (c mod 2 ^ k) + 1) = unat (q_tickets (y_sq s) (c mod 2 ^ k)) + 1"
proof -
  let ?t = "q_tickets (y_sq s) (c mod 2 ^ k)"
  have g: "slot_gen s (c mod 2 ^ k) = c div 2 ^ k"
    using assms(1,4,5) unfolding sq_inv_def inv_tickets_def by (metis linorder_neqE_nat not_le)
  have "1 \<le> k"
    using assms(1) by (simp add: sq_inv_def inv_shape_def)
  then have "(2 :: nat) \<le> 2 ^ k"
    using power_increasing[of 1 k "2 :: nat"] by simp
  then have "c div 2 ^ k \<le> c div 2"
    by (intro div_le_mono2) auto
  moreover have "unat ?t = 2 * (c div 2 ^ k) + unat ?t mod 2"
    using g div_mult_mod_eq[of "unat ?t" 2] by (simp add: slot_gen_def)
  ultimately have "unat ?t + 1 \<le> c + 2"
    by linarith
  then have "unat ?t + 1 < 2 ^ 32"
    using assms(2,3) by (simp add: few_calls_def)
  then show ?thesis
    using g by (simp add: unat_add_no_wrap)
qed

lemma returned_passed: "returned pc \<Longrightarrow> passed pc"
  by (cases pc) simp_all

lemma inv_tickets_incr:
  assumes "sq_inv k s" "few_calls s" "c < y_n s" "passed (y_pc s c)" "share t c = share s c + 1"
    and "q_tickets (y_sq t) = (q_tickets (y_sq s))(c mod 2 ^ k := q_tickets (y_sq s) (c mod 2 ^ k) + 1)"
    and "\<And>c'. passed (y_pc t c') = passed (y_pc s c')"
    and "\<And>c'. c' \<noteq> c \<Longrightarrow> returned (y_pc t c') = returned (y_pc s c') \<and> (c' < y_hp t \<longleftrightarrow> c' < y_hp s)"
  shows "inv_tickets k t"
  unfolding inv_tickets_def
proof (intro allI)
  fix c'
  let ?p = "c mod 2 ^ k"
  let ?v = "unat (q_tickets (y_sq s) ?p)"
  have it: "inv_tickets k s"
    using assms(1) by (simp add: sq_inv_def)
  have "\<not> returned (y_pc s c) \<or> y_hp s \<le> c"
    using assms(5) by (auto simp: share_def split: if_splits)
  then have g: "slot_gen s ?p = c div 2 ^ k" and v: "unat (q_tickets (y_sq t) ?p) = ?v + 1"
    using tickets_incr[OF assms(1-4)] by (simp_all add: assms(6))
  have sh: "?v mod 2 = share s c"
    using it g unfolding inv_tickets_def by blast
  have same: "share t d = share s d" if "d \<noteq> c" for d
    using assms(8)[OF that] by (simp add: share_def)
  have fresh: "share s d = 0" if "\<not> passed (y_pc s d)" for d
  proof -
    have "y_hp s \<le> y_vt s" "d < y_vt s \<Longrightarrow> passed (y_pc s d)"
      using assms(1) inv_bounds[OF assms(1)] by (auto simp: sq_inv_def inv_marks_def posted_def)
    then show ?thesis
      using that returned_passed by (auto simp: share_def)
  qed
  have eq: "c' = c" if "c' mod 2 ^ k = ?p" "c' div 2 ^ k = c div 2 ^ k"
    using that by (metis div_mult_mod_eq)
  show "(c' div 2 ^ k < slot_gen t (c' mod 2 ^ k) \<longrightarrow> returned (y_pc t c') \<and> c' < y_hp t) \<and>
    (slot_gen t (c' mod 2 ^ k) < c' div 2 ^ k \<longrightarrow> \<not> passed (y_pc t c')) \<and>
    (slot_gen t (c' mod 2 ^ k) = c' div 2 ^ k \<longrightarrow> unat (q_tickets (y_sq t) (c' mod 2 ^ k)) mod 2 = share t c')"
  proof (cases "c' mod 2 ^ k = ?p")
    case False
    then have "c' \<noteq> c" "slot_gen t (c' mod 2 ^ k) = slot_gen s (c' mod 2 ^ k)"
      by (auto simp: slot_gen_def assms(6))
    then show ?thesis
      using it False assms(7) assms(8)[of c'] same[of c'] unfolding inv_tickets_def by (simp add: assms(6))
  next
    case p: True
    have it': "(c' div 2 ^ k < c div 2 ^ k \<longrightarrow> returned (y_pc s c') \<and> c' < y_hp s) \<and>
        (c div 2 ^ k < c' div 2 ^ k \<longrightarrow> \<not> passed (y_pc s c'))"
      using it unfolding inv_tickets_def p[symmetric] g[symmetric] by blast
    consider (less) "c' div 2 ^ k < c div 2 ^ k" "c' \<noteq> c" | (same) "c' = c" | (more) "c div 2 ^ k < c' div 2 ^ k" "c' \<noteq> c"
      using eq[OF p] by fastforce
    note split = this
    show ?thesis
    proof (cases "even ?v")
      case True
      then have gt: "slot_gen t ?p = c div 2 ^ k"
        using g v by (simp add: slot_gen_def)
      have new: "unat (q_tickets (y_sq t) ?p) mod 2 = share t c"
        using sh v assms(5) True by (simp add: even_iff_mod_2_eq_zero mod_Suc)
      show ?thesis
        unfolding p gt by (rule split) (use new it' assms(7) assms(8)[of c'] in simp_all)
    next
      case False
      then have gt: "slot_gen t ?p = c div 2 ^ k + 1" "unat (q_tickets (y_sq t) ?p) mod 2 = 0" "share t c = 2"
        using g sh v assms(5) by (simp_all add: slot_gen_def odd_iff_mod_2_eq_one mod_Suc)
      then have "returned (y_pc t c) \<and> c < y_hp t"
        by (simp add: share_def split: if_splits)
      note new = this it'
      show ?thesis
        unfolding p gt(1,2) by (rule split) (use new assms(7) assms(8)[of c'] fresh[of c'] same[of c'] in simp_all)
    qed
  qed
qed

lemma step_finish:
  assumes "sq_inv k s" "c < y_n s" "few_calls s" "y_pc s c = E_finish"
  shows "sq_inv k (sq_enqueue_step c s)"
proof -
  let ?s = "s\<lparr>y_sq := (y_sq s)\<lparr>q_tickets := (q_tickets (y_sq s))(c mod 2 ^ k := q_tickets (y_sq s) (c mod 2 ^ k) + 1)\<rparr>\<rparr>"
  let ?t = "goto c (E_ret (ucast (y_ticket s c AND q_qs_minus_1 (y_sq s)))) ?s"
  have step: "sq_enqueue_step c s = ?t"
    using assms(4) inv_pos[OF assms(1,3,2)] by (simp add: sq_enqueue_step_def Let_def)
  have "inv_tickets k ?t"
    by (rule inv_tickets_incr[OF assms(1,3,2)]) (use assms(4) in \<open>auto simp: share_def\<close>)
  moreover have "inv_shape k ?s" "inv_slots k ?s" "inv_marks k ?s" "inv_head k ?s" "inv_tail k ?s"
    using assms(1) inv_congs[of ?s s k] by (simp_all add: sq_inv_def)
  moreover have "c < y_vt s"
    using assms(1,4) by (simp add: sq_inv_def inv_marks_def)
  ultimately show ?thesis
    unfolding step sq_inv_def using assms(2,4)
    by (simp add: inv_shape_goto inv_slots_goto inv_marks_goto inv_tail_goto written_def posted_def)
qed

lemma step_enqueue:
  assumes "sq_inv k s" "c < y_n s" "few_calls s"
  shows "sq_inv k (sq_enqueue_step c s)"
proof (cases "y_pc s c")
  case (E_ret p)
  then show ?thesis
    using assms(1) by (simp add: sq_enqueue_step_def Let_def)
qed (simp_all add: assms step_wait step_wait2 step_write step_mark step_check step_try step_lock step_load step_move
    step_exch step_count step_db step_store step_unlock step_finish)

lemma step_call:
  assumes "sq_inv k s"
  shows "sq_inv k (sq_enqueue_start cmd s)"
proof -
  let ?t = "sq_enqueue_start cmd s"
  have w: "y_pc s (y_n s) = E_wait"
    using assms by (simp add: sq_inv_def inv_shape_def)
  then have pc: "y_pc ?t = y_pc s"
    by (simp add: sq_enqueue_start_def fun_upd_idem)
  have "inv_shape k ?t"
    using assms w by (auto simp: sq_inv_def inv_shape_def sq_enqueue_start_def less_Suc_eq)
  moreover have "inv_slots k ?t"
    using assms w by (auto simp: sq_inv_def inv_slots_def sq_enqueue_start_def written_def)
  moreover have "inv_tickets k ?t" "inv_marks k ?t" "inv_head k ?t" "inv_tail k ?t"
    using assms pc inv_congs[of ?t s k] by (simp_all add: sq_inv_def sq_enqueue_start_def)
  ultimately show ?thesis
    by (simp add: sq_inv_def)
qed

text \<open>The consumer.\<close>

lemma inv_slots_of: "sq_inv k s \<Longrightarrow> slots_of s = 2 ^ k"
  by (simp add: sq_inv_def inv_shape_def slots_of_def)

lemma step_report:
  assumes "sq_inv k s" "y_con s = Con_idle" "y_hp s \<le> x" "x \<le> y_dbt s"
  shows "sq_inv k (sq_head_start (of_nat (x mod slots_of s)) s)"
proof -
  let ?loc = "q_head (y_sq s) AND q_qs_minus_1 (y_sq s)"
  let ?s = "s\<lparr>y_con := Con_move ?loc 0 (of_nat (x mod 2 ^ k))\<rparr>"
  have "unat ?loc = unat (q_head (y_sq s)) mod 2 ^ k"
    using assms(1) by (simp add: sq_inv_def inv_shape_def unat_and_mask)
  then have "inv_head k ?s"
    using assms by (auto simp: sq_inv_def inv_head_def)
  moreover have "inv_shape k ?s" "inv_slots k ?s" "inv_tickets k ?s" "inv_marks k ?s" "inv_tail k ?s"
    using assms(1) inv_congs[of ?s s k] by (simp_all add: sq_inv_def)
  ultimately have "sq_inv k ?s"
    by (simp add: sq_inv_def)
  then show ?thesis
    using assms(1) by (simp add: sq_head_start_def inv_slots_of[OF assms(1)] Let_def)
qed

lemma slots_bound: "k \<le> 16 \<Longrightarrow> (2 :: nat) ^ k \<le> 65536"
  using power_increasing[of k 16 "2 :: nat"] by simp

lemma unat_target: "k \<le> 16 \<Longrightarrow> unat (ucast (of_nat (x mod 2 ^ k) :: u16) :: u32) = x mod 2 ^ k"
proof -
  assume "k \<le> 16"
  then have "(2 :: nat) ^ k \<le> 65536"
    by (rule slots_bound)
  moreover have "x mod 2 ^ k < 2 ^ k"
    by simp
  ultimately have "x mod 2 ^ k < 65536"
    by linarith
  then show ?thesis
    by (simp add: unat_ucast_mod unat_of_nat take_bit_eq_mod)
qed

lemma step_free:
  assumes "sq_inv k s" "few_calls s"
  shows "sq_inv k (sq_head_step s)"
proof (cases "y_con s")
  case Con_idle
  then show ?thesis
    using assms(1) by (simp add: sq_head_step_def)
next
  case (Con_move loc count tgt)
  have k: "k \<le> 16" "q_qs_minus_1 (y_sq s) = 2 ^ k - 1"
    using assms(1) by (simp_all add: sq_inv_def inv_shape_def)
  obtain x where x: "unat loc = y_hp s mod 2 ^ k" "y_hp s = unat (q_head (y_sq s)) + unat count" "y_hp s \<le> x" "x \<le> y_dbt s"
    "tgt = of_nat (x mod 2 ^ k)"
    using assms(1) Con_move by (auto simp: sq_inv_def inv_head_def)
  have b: "y_dbt s \<le> y_vt s" "y_vt s \<le> y_n s" "y_n s + 2 \<le> 2 ^ 32"
    using inv_bounds[OF assms(1)] assms(2) by (simp_all add: few_calls_def)
  have vt: "y_vt s < unat (q_head (y_sq s)) + 2 ^ k"
    using assms(1) by (simp add: sq_inv_def inv_head_def)
  show ?thesis
  proof (cases "loc = ucast tgt")
    case True
    let ?s = "s\<lparr>y_sq := (y_sq s)\<lparr>q_head := q_head (y_sq s) + count\<rparr>, y_con := Con_idle\<rparr>"
    have h: "unat (q_head (y_sq s) + count) = y_hp s"
      using b x by (simp add: unat_add_no_wrap)
    then have "inv_head k ?s"
      using vt x(2-4) by (simp add: inv_head_def)
    moreover have "inv_shape k ?s" "inv_slots k ?s" "inv_tickets k ?s" "inv_marks k ?s" "inv_tail k ?s"
      using assms(1) inv_congs[of ?s s k] h x(2) by (simp_all add: sq_inv_def)
    ultimately show ?thesis
      using True Con_move by (simp add: sq_head_step_def sq_inv_def Let_def)
  next
    case False
    let ?q = "(y_sq s)\<lparr>q_tickets := (q_tickets (y_sq s))(y_hp s mod 2 ^ k := q_tickets (y_sq s) (y_hp s mod 2 ^ k) + 1)\<rparr>"
    let ?s = "s\<lparr>y_sq := ?q, y_con := Con_move ((loc + 1) AND q_qs_minus_1 (y_sq s)) (count + 1) tgt, y_hp := y_hp s + 1\<rparr>"
    have step: "sq_head_step s = ?s"
      using False Con_move by (simp add: sq_head_step_def Let_def flip: x(1))
    have "unat loc \<noteq> x mod 2 ^ k"
      using False unat_target[OF k(1), of x] by (metis word_unat_eq_iff x(5))
    then have hx: "y_hp s < x"
      using x(1,3) by (metis le_neq_implies_less)
    then have p: "passed (y_pc s (y_hp s))"
      using assms(1) b x(4) by (simp add: sq_inv_def inv_marks_def posted_def)
    have "inv_tickets k ?s"
      by (rule inv_tickets_incr[OF assms inv_passed[OF assms(1) p] p]) (auto simp: share_def)
    moreover have "inv_slots k ?s"
      using assms(1) by (simp add: sq_inv_def inv_slots_def)
    moreover have "inv_head k ?s"
    proof -
      have "unat loc < 2 ^ k" "(2 :: nat) ^ k \<le> 65536"
        using x(1) slots_bound[OF k(1)] by simp_all
      then have "unat loc + 1 < 4294967296"
        by linarith
      then have "unat (loc + 1) = y_hp s mod 2 ^ k + 1"
        using x(1) by (subst unat_add_no_wrap) simp_all
      then have l: "unat ((loc + 1) AND q_qs_minus_1 (y_sq s)) = (y_hp s + 1) mod 2 ^ k"
        using k by (simp add: unat_and_mask mod_Suc_eq)
      have "unat (count + 1) = unat count + 1"
        using b x hx by (subst unat_add_no_wrap) simp_all
      then show ?thesis
        using l x hx vt by (auto simp: inv_head_def intro!: exI[of _ x])
    qed
    moreover have "inv_shape k ?s" "inv_marks k ?s" "inv_tail k ?s"
      using assms(1) inv_congs[of ?s s k] by (simp_all add: sq_inv_def)
    ultimately show ?thesis
      unfolding step by (simp add: sq_inv_def)
  qed
qed

lemma sq_inv_init: "1 \<le> k \<Longrightarrow> k \<le> 16 \<Longrightarrow> sq_inv k (sq_init k)"
  by (auto simp: sq_inv_defs sq_init_def zero_queue_def slot_gen_def share_def written_def posted_def unat_of_nat take_bit_eq_mod)

lemma sq_step_n: "sq_step s s' \<Longrightarrow> y_n s \<le> y_n s'"
  by (cases rule: sq_step.cases)
    (auto simp: sq_enqueue_start_def sq_enqueue_step_def sq_head_start_def sq_head_step_def Let_def
      split: enq_pc.splits con_pc.splits prod.splits)

lemma sq_reach_inv:
  assumes "sq_reach k s" "1 \<le> k" "k \<le> 16" "few_calls s"
  shows "sq_inv k s"
  using assms(1,4)
proof (induction rule: sq_reach.induct)
  case init
  then show ?case
    using assms(2,3) by (simp add: sq_inv_init)
next
  case (step s s')
  then have "few_calls s"
    using sq_step_n[of s s'] by (simp add: few_calls_def)
  with step show ?case
    by (auto elim!: sq_step.cases intro: step_call step_enqueue step_report step_free)
qed


subsection \<open>Properties\<close>

lemmas sq_reach_facts = sq_reach_inv[unfolded sq_inv_defs]

text \<open>C2: Commands in a shared submission queue are never lost or overwritten. In every
  state the concurrent calls of \<open>sq_enqueue\<close> and the freeing of slots can reach, each command
  that has been announced to the controller and not yet been freed stands complete in its
  slot, the slot of ticket \<open>c\<close> being \<open>c\<close> modulo the queue size; the controller is told of
  commands in ticket order, and at most one less than the queue size of them are pending,
  so the queue never appears empty when it is full. The bound on the number of calls is the
  width of the ticket counter.\<close>

theorem sq_commands_intact:
  assumes "sq_reach k s" "1 \<le> k" "k \<le> 16" "few_calls s"
  shows "(\<forall>c. y_hp s \<le> c \<and> c < y_dbt s \<longrightarrow> c < y_n s \<and> y_slots s (c mod 2 ^ k) = y_cmd s c) \<and>
    y_hp s \<le> y_dbt s \<and> y_dbt s < unat (q_head (y_sq s)) + 2 ^ k"
proof -
  have inv: "sq_inv k s"
    using assms by (rule sq_reach_inv)
  have "c < y_n s \<and> y_slots s (c mod 2 ^ k) = y_cmd s c" if "y_hp s \<le> c" "c < y_dbt s" for c
  proof -
    have "posted (y_pc s c)"
      using inv inv_bounds[OF inv] that by (simp add: sq_inv_def inv_marks_def)
    then show ?thesis
      using inv inv_passed[OF inv] that by (simp add: sq_inv_def inv_slots_def posted_def written_def)
  qed
  then show ?thesis
    using inv inv_bounds[OF inv] by (simp add: sq_inv_def inv_head_def)
qed

lemma sq_step_db:
  assumes "sq_step s s'" "sq_inv k s" "few_calls s"
  shows "y_db s' = y_db s \<and> y_dbt s' = y_dbt s \<or> (\<exists>v. y_db s' = v # y_db s \<and> unat v = y_dbt s' mod 2 ^ k \<and> y_dbt s \<le> y_dbt s')"
  using assms(1)
proof (cases rule: sq_step.cases)
  case (run c)
  show ?thesis
  proof (cases "\<exists>ct n. y_pc s c = E_db ct n")
    case True
    then obtain ct n where pc: "y_pc s c = E_db ct n"
      by blast
    have "unat (ct + n) = y_vt s"
      using inv_tail_local[OF assms(2), of c] pc inv_bounds[OF assms(2)] assms(3)
      by (simp add: unat_add_no_wrap few_calls_def)
    then show ?thesis
      using run pc assms(2) inv_bounds[OF assms(2)]
      by (simp add: sq_enqueue_step_def Let_def sq_inv_def inv_shape_def unat_and_mask)
  next
    case False
    then show ?thesis
      using run(1) by (cases "y_pc s c") (simp_all add: sq_enqueue_step_def Let_def split: prod.split)
  qed
qed (auto simp: sq_enqueue_start_def sq_head_start_def sq_head_step_def Let_def split: con_pc.split)

text \<open>C3: Mutual exclusion in \<open>sq_enqueue\<close>. At most one call holds the tail lock; of the
  calls that have been admitted to a slot and have not returned, no two have the same slot; and
  the last value written to the doorbell is the number of announced commands modulo
  the queue size, so the doorbell moves forward over complete commands only.\<close>

theorem sq_enqueue_exclusive:
  assumes "sq_reach k s" "1 \<le> k" "k \<le> 16" "few_calls s"
  shows "(mover (y_pc s c) \<and> mover (y_pc s c') \<longrightarrow> c = c') \<and>
    (passed (y_pc s c) \<and> \<not> returned (y_pc s c) \<and> passed (y_pc s c') \<and> \<not> returned (y_pc s c') \<and>
       c mod 2 ^ k = c' mod 2 ^ k \<longrightarrow> c = c') \<and>
    (case y_db s of [] \<Rightarrow> y_dbt s = 0 | v # _ \<Rightarrow> unat v = y_dbt s mod 2 ^ k)"
proof -
  have inv: "sq_inv k s"
    using assms by (rule sq_reach_inv)
  have "mover (y_pc s c) \<and> mover (y_pc s c') \<longrightarrow> c = c'"
    using inv by (simp add: sq_inv_def inv_tail_def)
  moreover have "passed (y_pc s c) \<and> \<not> returned (y_pc s c) \<and> passed (y_pc s c') \<and> \<not> returned (y_pc s c') \<and>
      c mod 2 ^ k = c' mod 2 ^ k \<longrightarrow> c = c'"
    using inv_gen[OF inv] by (metis div_mult_mod_eq)
  moreover have "case y_db s of [] \<Rightarrow> y_dbt s = 0 | v # _ \<Rightarrow> unat v = y_dbt s mod 2 ^ k"
    using assms(1,4)
  proof (induction rule: sq_reach.induct)
    case init
    then show ?case
      by (simp add: sq_init_def)
  next
    case (step s s')
    then have f: "few_calls s"
      using sq_step_n[of s s'] by (simp add: few_calls_def)
    then show ?case
      using step.IH sq_step_db[OF step.hyps(2) sq_reach_inv[OF step.hyps(1) assms(2,3) f] f]
      by (auto split: list.splits)
  qed
  ultimately show ?thesis
    by blast
qed

definition example_run :: "nat \<Rightarrow> sq_sys" where
  "example_run n = (sq_enqueue_step 0 ^^ n) (sq_enqueue_start [7] (sq_init 2))"

lemma example_run_reach: "sq_reach 2 (example_run n) \<and> 0 < y_n (example_run n)"
proof (induction n)
  case 0
  then show ?case
    using sq_reach.step[OF sq_reach.init call] by (simp add: example_run_def sq_enqueue_start_def)
next
  case (Suc n)
  have "sq_step (example_run n) (sq_enqueue_step 0 (example_run n))"
    using Suc by (intro run) simp
  then show ?case
    using Suc sq_reach.step sq_step_n[of "example_run n"] by (fastforce simp: example_run_def)
qed

lemmas example_eval = sq_enqueue_step_def goto_def move_tail_test_def move_tail_exch_def sq_enqueue_start_def sq_init_def
  zero_queue_def LOCKED_def UNLOCKED_def get_id_def Let_def

lemma example_run_state:
  "y_dbt (example_run 14) = 1 \<and> y_hp (example_run 14) = 0 \<and> y_n (example_run 14) = 1 \<and> y_cmd (example_run 14) 0 = [7]"
  by (simp add: example_run_def numeral_eq_Suc example_eval)

theorem sq_commands_intact_witness: "y_slots (example_run 14) 0 = [7]"
  using sq_commands_intact[of 2 "example_run 14"] example_run_reach[of 14] example_run_state
  by (auto simp: few_calls_def)


theorem sq_enqueue_exclusive_witness: "\<exists>v vs. y_db (example_run 14) = v # vs \<and> unat v = 1"
proof -
  have "case y_db (example_run 14) of [] \<Rightarrow> y_dbt (example_run 14) = 0 | v # _ \<Rightarrow> unat v = y_dbt (example_run 14) mod 2 ^ 2"
    using sq_enqueue_exclusive[of 2 "example_run 14"] example_run_reach[of 14] example_run_state
    by (simp add: few_calls_def)
  then show ?thesis
    using example_run_state by (cases "y_db (example_run 14)") simp_all
qed

text \<open>The bound on the number of calls is needed. After \<open>2\<^sup>3\<^sup>2\<close> calls the ticket counter is 0
  again and the next call waits for its slot's counter to be 0, but the counter has reached
  twice the number of commands that went through the slot: the call waits for ever.\<close>

lemma sq_ticket_wrap_blocks:
  assumes "2 \<le> k" "k \<le> 16" "g = 2 ^ 32 div 2 ^ k"
  shows "(of_nat (2 ^ 32) :: u32) = 0 \<and> get_id (ucast (of_nat (2 ^ 32) :: u32)) (of_nat k) \<noteq> ucast (of_nat (2 * g) :: u32)"
proof -
  have "g = 2 ^ (32 - k)"
    using assms by (simp add: power_diff)
  then have "2 * g = 2 ^ (33 - k)"
    using assms(2) by (simp flip: power_Suc add: Suc_diff_le)
  moreover have "(2 :: nat) ^ (33 - k) < 2 ^ 32"
    using assms(1) by (intro power_strict_increasing) auto
  ultimately have "unat (ucast (of_nat (2 * g) :: u32) :: u64) = 2 ^ (33 - k)"
    using unat_slot[of "2 ^ (33 - k)"] by (simp add: unat_ucast_mod)
  then show ?thesis
    by (auto simp: get_id_def)
qed

end
