(* ===== verification/ParallelCq.thy ===== *)
theory ParallelCq
  imports ParallelSq
begin

text \<open>
  Command identifiers, the polling of a shared completion queue and the freeing of
  submission slots by the host-style \<open>sq_dequeue\<close>, from \<open>include/nvm_parallel_queue.h\<close>. These
  operations are modelled as seen by one thread: what other threads do to the
  completion queue while one polls it is a function of the number of the round, and a loop that
  may run for ever has no result when it does.
\<close>

subsection \<open>Command identifiers\<close>

text \<open>One pass of the loop of \<open>get_cid\<close>: the identifier tried and whether it was free. The
  loop itself has no result when every identifier is taken.\<close>

definition get_cid_try :: "nvm_queue_t \<Rightarrow> bool \<times> u16 \<times> nvm_queue_t" where
  "get_cid_try sq =
     (let cid = ucast (q_cid_ticket sq AND 65535);
          old = q_cid sq (unat cid)
      in (old \<noteq> LOCKED, cid, sq\<lparr>q_cid_ticket := q_cid_ticket sq + 1,
            q_cid := (q_cid sq)(unat cid := old OR LOCKED)\<rparr>))"

partial_function (option) get_cid :: "nvm_queue_t \<Rightarrow> (u16 \<times> nvm_queue_t) option" where
  "get_cid sq =
     (let (found, cid, sq') = get_cid_try sq
      in if found then Some (cid, sq') else get_cid sq')"

definition put_cid :: "nvm_queue_t \<Rightarrow> u16 \<Rightarrow> nvm_queue_t" where
  "put_cid sq cid = sq\<lparr>q_cid := (q_cid sq)(unat cid := UNLOCKED)\<rparr>"

subsection \<open>Polling\<close>

definition cpl_cid :: "nvm_cpl_t \<Rightarrow> u32" where
  "cpl_cid cpl = (cpl ! 3) AND 0x0000ffff"

definition cpl_phase_bit :: "nvm_cpl_t \<Rightarrow> bool" where
  "cpl_phase_bit cpl = (drop_bit 16 ((cpl ! 3) AND 0x00010000) \<noteq> 0)"

definition search_phase :: "nvm_queue_t \<Rightarrow> u32 \<Rightarrow> bool" where
  "search_phase cq cur_head = (NOT (drop_bit (unat (q_qs_log2 cq)) cur_head) AND 0x01 \<noteq> 0)"

text \<open>The scan of one round from position \<open>cur_head\<close> over at most \<open>n\<close> entries. The entries are given
  by their index in the queue.\<close>

fun cq_scan :: "nvm_queue_t \<Rightarrow> (nat \<Rightarrow> nvm_cpl_t) \<Rightarrow> u16 \<Rightarrow> nat \<Rightarrow> u32 \<Rightarrow> (u32 \<times> u32) option" where
  "cq_scan cq mem search_cid 0 cur_head = None"
| "cq_scan cq mem search_cid (Suc n) cur_head =
     (let loc = cur_head AND q_qs_minus_1 cq;
          entry = mem (unat loc);
          phase = cpl_phase_bit entry
      in if cpl_cid entry = ucast search_cid \<and> phase = search_phase cq cur_head then Some (loc, cur_head)
         else if phase \<noteq> search_phase cq cur_head then None
         else cq_scan cq mem search_cid n (cur_head + 1))"

text \<open>The polling loop: round \<open>j\<close> sees the queue head \<open>head j\<close> and the entries \<open>mem j\<close>.\<close>

partial_function (option) cq_poll ::
  "nvm_queue_t \<Rightarrow> (nat \<Rightarrow> u32) \<Rightarrow> (nat \<Rightarrow> nat \<Rightarrow> nvm_cpl_t) \<Rightarrow> u16 \<Rightarrow> nat \<Rightarrow> (u32 \<times> u32 \<times> u32) option" where
  "cq_poll cq head mem search_cid j =
     (case cq_scan cq (mem j) search_cid (unat (q_qs_minus_1 cq)) (head j) of
        Some (loc, cur_head) \<Rightarrow> Some (loc, cur_head, head j)
      | None \<Rightarrow> cq_poll cq head mem search_cid (j + 1))"

lemma cid_index_less: "unat (ucast (x :: u32) :: u16) = unat x mod 65536"
  by (simp add: unat_ucast_mod)

lemma low16_cid: "(ucast (x AND 65535 :: u32) :: u16) = ucast x"
  unfolding low_half_mask by (intro bit_word_eqI) (auto simp: bit_simps)

definition cids_wf :: "nvm_queue_t \<Rightarrow> bool" where
  "cids_wf sq \<longleftrightarrow> (\<forall>i. q_cid sq i = LOCKED \<or> q_cid sq i = UNLOCKED)"

lemma get_cid_skip:
  assumes "cids_wf sq" "\<forall>i<n. q_cid sq ((unat (q_cid_ticket sq) + i) mod 65536) = LOCKED" "n < 65536"
    and "q_cid sq ((unat (q_cid_ticket sq) + n) mod 65536) = UNLOCKED"
  shows "get_cid sq = Some (ucast (q_cid_ticket sq + of_nat n),
     sq\<lparr>q_cid_ticket := q_cid_ticket sq + of_nat n + 1,
        q_cid := (q_cid sq)((unat (q_cid_ticket sq) + n) mod 65536 := LOCKED)\<rparr>)"
  using assms
proof (induction n arbitrary: sq)
  case 0
  then show ?case
    by (subst get_cid.simps)
      (simp add: get_cid_try_def low16_cid cid_index_less LOCKED_def UNLOCKED_def Let_def)
next
  case (Suc n)
  have "q_cid sq (unat (q_cid_ticket sq) mod 65536) = LOCKED"
    using Suc.prems(2) by fastforce
  then have t: "get_cid_try sq = (False, ucast (q_cid_ticket sq), sq\<lparr>q_cid_ticket := q_cid_ticket sq + 1\<rparr>)"
    by (simp add: get_cid_try_def low16_cid cid_index_less LOCKED_def Let_def fun_upd_idem)
  have m: "(unat (q_cid_ticket sq + 1) + i) mod 65536 = (unat (q_cid_ticket sq) + Suc i) mod 65536" for i
  proof -
    have "(unat (q_cid_ticket sq + 1) + i) mod 65536 = ((unat (q_cid_ticket sq) + 1) mod 2 ^ 32 mod 65536 + i) mod 65536"
      by (simp add: unat_word_ariths(1) mod_add_left_eq)
    also have "\<dots> = ((unat (q_cid_ticket sq) + 1) mod 65536 + i) mod 65536"
      by (subst mod_mod_cancel) (simp_all add: dvd_def)
    finally show ?thesis
      by (simp add: mod_add_left_eq)
  qed
  have next_cid: "get_cid (sq\<lparr>q_cid_ticket := q_cid_ticket sq + 1\<rparr>) = Some (ucast (q_cid_ticket sq + 1 + of_nat n),
     sq\<lparr>q_cid_ticket := q_cid_ticket sq + 1 + of_nat n + 1,
        q_cid := (q_cid sq)((unat (q_cid_ticket sq) + Suc n) mod 65536 := LOCKED)\<rparr>)"
  proof -
    have "\<forall>i<n. q_cid sq ((unat (q_cid_ticket sq) + Suc i) mod 65536) = LOCKED"
      using Suc.prems(2) by blast
    then show ?thesis
      using Suc.IH[of "sq\<lparr>q_cid_ticket := q_cid_ticket sq + 1\<rparr>"] Suc.prems(1,3,4)
      by (simp add: m cids_wf_def fun_upd_def)
  qed
  have "get_cid sq = get_cid (sq\<lparr>q_cid_ticket := q_cid_ticket sq + 1\<rparr>)"
    by (subst get_cid.simps) (simp add: t)
  moreover have "q_cid_ticket sq + of_nat (Suc n) = q_cid_ticket sq + 1 + of_nat n"
    by simp
  ultimately show ?case
    unfolding next_cid by (simp only:)
qed

lemma locked_run:
  assumes "cids_wf sq" "i < 65536" "q_cid sq i = UNLOCKED"
  shows "\<exists>n<65536. (\<forall>j<n. q_cid sq ((t + j) mod 65536) = LOCKED) \<and> q_cid sq ((t + n) mod 65536) = UNLOCKED"
proof -
  let ?P = "\<lambda>n. q_cid sq ((t + n) mod 65536) = UNLOCKED"
  have "?P ((65536 + i - t mod 65536) mod 65536)"
  proof -
    have "(t + (65536 + i - t mod 65536) mod 65536) mod 65536 = (t mod 65536 + (65536 + i - t mod 65536)) mod 65536"
      unfolding mod_add_right_eq mod_add_left_eq ..
    also have "t mod 65536 + (65536 + i - t mod 65536) = i + 65536"
      using mod_less_divisor[of 65536 t] by linarith
    finally have "(t + (65536 + i - t mod 65536) mod 65536) mod 65536 = i"
      using assms(2) by (simp only: mod_add_self2 mod_less)
    then show ?thesis
      using assms(3) by simp
  qed
  then have ex: "\<exists>n. ?P n" and "(LEAST n. ?P n) \<le> (65536 + i - t mod 65536) mod 65536"
    by (rule exI, rule Least_le)
  then have small: "(LEAST n. ?P n) < 65536"
    using le_less_trans mod_less_divisor[of 65536 "65536 + i - t mod 65536"] by simp
  show ?thesis
    using small LeastI_ex[OF ex] not_less_Least[of _ ?P] assms(1) unfolding cids_wf_def by blast
qed

text \<open>C8: \<open>get_cid\<close> returns as soon as one of the 65536 identifiers is free: the identifier it
  returns was free and is taken now, no other identifier changes, and \<open>put_cid\<close> gives it back.\<close>

theorem get_cid_spec:
  assumes "cids_wf sq" "i < 65536" "q_cid sq i = UNLOCKED"
  shows "\<exists>cid sq'. get_cid sq = Some (cid, sq') \<and> q_cid sq (unat cid) = UNLOCKED \<and>
    q_cid sq' = (q_cid sq)(unat cid := LOCKED) \<and> q_cid (put_cid sq' cid) = q_cid sq"
proof -
  let ?t = "unat (q_cid_ticket sq)"
  obtain n where n: "n < 65536" "\<forall>j<n. q_cid sq ((?t + j) mod 65536) = LOCKED" "q_cid sq ((?t + n) mod 65536) = UNLOCKED"
    using locked_run[OF assms, of ?t] by blast
  have "unat (q_cid_ticket sq + of_nat n) mod 65536 = (?t + n) mod 2 ^ 32 mod 65536"
    using n(1) by (simp add: unat_word_ariths(1) unat_of_nat take_bit_eq_mod)
  also have "\<dots> = (?t + n) mod 65536"
    by (subst mod_mod_cancel) (simp_all add: dvd_def)
  finally have c: "unat (ucast (q_cid_ticket sq + of_nat n) :: u16) = (?t + n) mod 65536"
    by (simp add: cid_index_less)
  show ?thesis
    using get_cid_skip[OF assms(1) n(2,1,3)] n(3) by (simp add: c put_cid_def fun_upd_idem)
qed

theorem get_cid_spec_witness:
  "\<exists>cid sq'. get_cid (zero_queue\<lparr>q_cid := (\<lambda>i. if i = 9 then 0 else 1)\<rparr>) = Some (cid, sq') \<and> unat cid = 9"
proof -
  let ?q = "zero_queue\<lparr>q_cid := (\<lambda>i. if i = 9 then 0 else 1)\<rparr>"
  have "cids_wf ?q" "q_cid ?q 9 = UNLOCKED"
    by (simp_all add: cids_wf_def LOCKED_def UNLOCKED_def)
  then obtain cid sq' where "get_cid ?q = Some (cid, sq')" "q_cid ?q (unat cid) = UNLOCKED"
    using get_cid_spec[of ?q 9] by auto
  then show ?thesis
    by (auto simp: UNLOCKED_def split: if_splits)
qed

subsection \<open>Polling finds the completion\<close>

definition entry_at :: "nvm_queue_t \<Rightarrow> (nat \<Rightarrow> nvm_cpl_t) \<Rightarrow> u32 \<Rightarrow> nvm_cpl_t" where
  "entry_at cq mem v = mem (unat (v AND q_qs_minus_1 cq))"

definition fresh_at :: "nvm_queue_t \<Rightarrow> (nat \<Rightarrow> nvm_cpl_t) \<Rightarrow> u32 \<Rightarrow> bool" where
  "fresh_at cq mem v \<longleftrightarrow> cpl_phase_bit (entry_at cq mem v) = search_phase cq v"

definition answers_at :: "nvm_queue_t \<Rightarrow> (nat \<Rightarrow> nvm_cpl_t) \<Rightarrow> u16 \<Rightarrow> u32 \<Rightarrow> nat \<Rightarrow> bool" where
  "answers_at cq mem cid h i \<longleftrightarrow> (\<forall>m\<le>i. fresh_at cq mem (h + of_nat m)) \<and> cpl_cid (entry_at cq mem (h + of_nat i)) = ucast cid"

lemma cq_scan_sound:
  "cq_scan cq mem cid n h = Some (loc, cur) \<Longrightarrow>
   \<exists>i<n. cur = h + of_nat i \<and> loc = cur AND q_qs_minus_1 cq \<and> answers_at cq mem cid h i"
proof (induction n arbitrary: h)
  case (Suc n)
  show ?case
  proof (cases "cpl_cid (entry_at cq mem h) = ucast cid \<and> fresh_at cq mem h")
    case True
    then show ?thesis
      using Suc.prems by (intro exI[of _ 0]) (auto simp: entry_at_def fresh_at_def answers_at_def Let_def)
  next
    case False
    then have f: "fresh_at cq mem h" and "cq_scan cq mem cid n (h + 1) = Some (loc, cur)"
      using Suc.prems by (auto simp: entry_at_def fresh_at_def Let_def split: if_splits)
    then obtain i where i: "i < n" "cur = h + 1 + of_nat i" "loc = cur AND q_qs_minus_1 cq" "answers_at cq mem cid (h + 1) i"
      using Suc.IH by blast
    have "fresh_at cq mem (h + of_nat m)" if "m \<le> Suc i" for m
      using that f i(4) by (cases m) (auto simp: answers_at_def add.assoc)
    then show ?thesis
      using i by (intro exI[of _ "Suc i"]) (auto simp: answers_at_def add.assoc)
  qed
qed simp

lemma answers_at_fresh: "answers_at cq mem cid h i \<Longrightarrow> m \<le> i \<Longrightarrow> fresh_at cq mem (h + of_nat m)"
  by (simp add: answers_at_def)

lemma answers_at_Suc:
  assumes "answers_at cq mem cid h (Suc i)"
  shows "answers_at cq mem cid (h + 1) i"
proof -
  have eq: "h + 1 + of_nat m = h + of_nat (Suc m)" for m
    by simp
  show ?thesis
    using assms unfolding answers_at_def eq by blast
qed

lemma cq_scan_complete:
  assumes "answers_at cq mem cid h i" "i < n"
  shows "cq_scan cq mem cid n h \<noteq> None"
  using assms
proof (induction n arbitrary: h i)
  case (Suc n)
  have f: "fresh_at cq mem h"
    using answers_at_fresh[OF Suc.prems(1), of 0] by simp
  show ?case
  proof (cases i)
    case 0
    then have "cpl_cid (entry_at cq mem h) = ucast cid"
      using Suc.prems(1) by (simp add: answers_at_def)
    then show ?thesis
      using f by (simp add: entry_at_def fresh_at_def Let_def)
  next
    case (Suc i')
    then have "cq_scan cq mem cid n (h + 1) \<noteq> None"
      using Suc.IH[of "h + 1" i'] Suc.prems answers_at_Suc by simp
    then show ?thesis
      using f by (simp add: entry_at_def fresh_at_def Let_def)
  qed
qed simp

text \<open>C9: \<open>cq_poll\<close> returns once the completion is there. If in some round the completion with
  the caller's identifier is within the scanned part of the queue and everything before it is
  fresh, the loop ends, in that round or an earlier one; and what it returns is an entry that
  carries the caller's identifier and the phase of its lap, at the position returned, with only
  fresh entries between the queue's head and it.\<close>

theorem cq_poll_spec:
  assumes "answers_at cq (mem j) cid (head j) i" "i < unat (q_qs_minus_1 cq)" "j0 \<le> j"
  shows "\<exists>j' loc i'. j0 \<le> j' \<and> j' \<le> j \<and> cq_poll cq head mem cid j0 = Some (loc, head j' + of_nat i', head j') \<and>
    i' < unat (q_qs_minus_1 cq) \<and> loc = (head j' + of_nat i') AND q_qs_minus_1 cq \<and>
    answers_at cq (mem j') cid (head j') i'"
  using assms(3)
proof (induction "j - j0" arbitrary: j0 rule: less_induct)
  case less
  show ?case
  proof (cases "cq_scan cq (mem j0) cid (unat (q_qs_minus_1 cq)) (head j0)")
    case None
    then have "j0 \<noteq> j"
      using cq_scan_complete[OF assms(1,2)] by blast
    then have lt: "j - (j0 + 1) < j - j0" "j0 + 1 \<le> j"
      using less.prems by auto
    then obtain j' loc i' where j': "j0 + 1 \<le> j'" "j' \<le> j"
      "cq_poll cq head mem cid (j0 + 1) = Some (loc, head j' + of_nat i', head j')" "i' < unat (q_qs_minus_1 cq)"
      "loc = (head j' + of_nat i') AND q_qs_minus_1 cq" "answers_at cq (mem j') cid (head j') i'"
      using less.hyps by blast
    moreover have "cq_poll cq head mem cid j0 = cq_poll cq head mem cid (j0 + 1)"
      by (subst cq_poll.simps) (simp add: None)
    ultimately show ?thesis
      by (metis add_leD1)
  next
    case (Some r)
    obtain loc cur where r: "r = (loc, cur)"
      by fastforce
    then show ?thesis
      using cq_scan_sound[OF Some[unfolded r]] less.prems
      by (subst cq_poll.simps) (auto simp: Some)
  qed
qed

theorem cq_poll_spec_witness:
  "\<exists>loc cur hd. cq_poll (zero_queue\<lparr>q_qs_minus_1 := 3, q_qs_log2 := 2\<rparr>) (\<lambda>_. 0)
     (\<lambda>j i. if j = 5 \<and> i = 1 then [0, 0, 0, 0x10009] else if i = 0 then [0, 0, 0, 0x10004] else [0, 0, 0, 0]) 9 0 = Some (loc, cur, hd)"
proof -
  let ?m = "\<lambda>(j :: nat) (i :: nat). if j = 5 \<and> i = 1 then [0, 0, 0, 0x10009] else if i = 0 then [0, 0, 0, 0x10004] else [0, 0, 0, 0 :: u32]"
  have "answers_at (zero_queue\<lparr>q_qs_minus_1 := 3, q_qs_log2 := 2\<rparr>) (?m 5) 9 0 1"
    by (auto simp: answers_at_def fresh_at_def entry_at_def cpl_phase_bit_def search_phase_def cpl_cid_def le_Suc_eq)
  then show ?thesis
    using cq_poll_spec[of "zero_queue\<lparr>q_qs_minus_1 := 3, q_qs_log2 := 2\<rparr>" ?m 5 9 "\<lambda>_. 0" 1 0] by auto
qed

subsection \<open>Freeing submission slots\<close>

definition clean_cids :: "u16 list \<Rightarrow> nvm_queue_t \<Rightarrow> nat \<Rightarrow> nvm_queue_t" where
  "clean_cids clean_cid sq count = fold (\<lambda>i sq. put_cid sq (clean_cid ! i)) [0..<count] sq"

text \<open>The loop of \<open>move_head_sq\<close>, for at most \<open>n\<close> passes.\<close>

primrec move_head_sq_loop :: "nat \<Rightarrow> nvm_queue_t \<Rightarrow> u32 \<Rightarrow> u32 \<Rightarrow> (u32 \<times> nvm_queue_t) option" where
  "move_head_sq_loop 0 q cur_head count = None"
| "move_head_sq_loop (Suc n) q cur_head count =
     (let loc = unat ((cur_head + count) AND q_qs_minus_1 q);
          pass = (q_head_mark q loc = LOCKED);
          q = q\<lparr>q_head_mark := (q_head_mark q)(loc := UNLOCKED)\<rparr>
      in if pass then
           move_head_sq_loop n (q\<lparr>q_tickets := (q_tickets q)(loc := q_tickets q loc + 1)\<rparr>) cur_head (count + 1)
         else Some (count, q))"

definition move_head_sq :: "nvm_queue_t \<Rightarrow> u32 \<Rightarrow> (u32 \<times> nvm_queue_t) option" where
  "move_head_sq q cur_head = move_head_sq_loop (unat (q_qs_minus_1 q) + 2) q cur_head 0"

text \<open>One attempt of the loop of \<open>sq_dequeue\<close>: the lock is taken with an exchange, and released
  only by the one who got it.\<close>

definition sq_dequeue_try :: "nvm_queue_t \<Rightarrow> nvm_queue_t option" where
  "sq_dequeue_try sq =
     (if q_head_lock sq = LOCKED then Some (sq\<lparr>q_head_lock := LOCKED\<rparr>)
      else
        map_option (\<lambda>(count, q).
          let q = (if count \<noteq> 0 then q\<lparr>q_head := q_head sq + count\<rparr> else q)
          in q\<lparr>q_head_lock := UNLOCKED\<rparr>) (move_head_sq (sq\<lparr>q_head_lock := LOCKED\<rparr>) (q_head sq)))"

primrec sq_dequeue_loop :: "nat \<Rightarrow> nvm_queue_t \<Rightarrow> nat \<Rightarrow> nvm_queue_t option" where
  "sq_dequeue_loop 0 sq pos = None"
| "sq_dequeue_loop (Suc n) sq pos =
     (if q_head_mark sq pos = LOCKED then
        (case sq_dequeue_try sq of None \<Rightarrow> None | Some sq' \<Rightarrow> sq_dequeue_loop n sq' pos)
      else Some sq)"

definition sq_dequeue :: "nat \<Rightarrow> nvm_queue_t \<Rightarrow> u16 \<Rightarrow> nvm_queue_t option" where
  "sq_dequeue n sq pos = sq_dequeue_loop n (sq\<lparr>q_head_mark := (q_head_mark sq)(unat pos := LOCKED)\<rparr>) (unat pos)"

text \<open>With at most as many entries marked as the queue has slots, the loop ends within the
  passes given to it: every pass but the last clears a mark.\<close>

lemma move_head_sq_loop_returns:
  assumes "finite {p. q_head_mark q p = LOCKED}" "card {p. q_head_mark q p = LOCKED} < n"
  shows "move_head_sq_loop n q cur count \<noteq> None"
  using assms
proof (induction n arbitrary: q count)
  case (Suc n)
  define loc where "loc = unat ((cur + count) AND q_qs_minus_1 q)"
  let ?q = "q\<lparr>q_head_mark := (q_head_mark q)(loc := UNLOCKED), q_tickets := (q_tickets q)(loc := q_tickets q loc + 1)\<rparr>"
  show ?case
  proof (cases "q_head_mark q loc = LOCKED")
    case True
    have eq: "{p. q_head_mark ?q p = LOCKED} = {p. q_head_mark q p = LOCKED} - {loc}"
      by (auto simp: LOCKED_def UNLOCKED_def)
    have "card {p. q_head_mark ?q p = LOCKED} < n"
      unfolding eq using card_Diff1_less[OF Suc.prems(1), of loc] Suc.prems(2) True by simp
    moreover have "finite {p. q_head_mark ?q p = LOCKED}"
      unfolding eq using Suc.prems(1) by simp
    ultimately have "move_head_sq_loop n ?q cur (count + 1) \<noteq> None"
      by (intro Suc.IH)
    then show ?thesis
      using True by (simp add: loc_def Let_def)
  next
    case False
    then show ?thesis
      by (simp add: loc_def Let_def)
  qed
qed simp

lemma move_head_sq_returns:
  assumes "\<And>p. q_head_mark q p = LOCKED \<Longrightarrow> p \<le> unat (q_qs_minus_1 q)"
  shows "move_head_sq q cur \<noteq> None"
proof -
  have sub: "{p. q_head_mark q p = LOCKED} \<subseteq> {..unat (q_qs_minus_1 q)}"
    using assms by auto
  then have "card {p. q_head_mark q p = LOCKED} \<le> unat (q_qs_minus_1 q) + 1"
    using card_mono[OF _ sub] by simp
  then show ?thesis
    unfolding move_head_sq_def using finite_subset[OF sub] by (intro move_head_sq_loop_returns) auto
qed

text \<open>\<open>sq_dequeue\<close> cannot be used on a queue that \<open>sq_enqueue\<close> works on: \<open>move_tail\<close> adds 1 to the head lock
  and never takes it back, and a head lock of 1 makes \<open>sq_dequeue\<close> wait for ever.\<close>

lemma sq_dequeue_stuck:
  assumes "q_head_lock sq = LOCKED"
  shows "sq_dequeue n sq pos = None"
proof -
  have "sq_dequeue_loop n q p = None" if "q_head_mark q p = LOCKED" "q_head_lock q = LOCKED" for q p
    using that by (induction n arbitrary: q) (simp_all add: sq_dequeue_try_def)
  then show ?thesis
    using assms by (simp add: sq_dequeue_def)
qed

lemma sq_enqueue_spoils_head_lock:
  "q_head_lock (y_sq (example_run 13)) = LOCKED"
  by (simp add: example_run_def numeral_eq_Suc example_eval)

end
