(* ===== verification/CqDequeue.thy ===== *)
theory CqDequeue
  imports ParallelCq
begin

text \<open>
  \<open>cq_dequeue\<close> and \<open>move_head_cq\<close> of \<open>include/nvm_parallel_queue.h\<close> by their atomic actions. The calls
  are known by the position of the completion they consume, counted from the creation of
  the queue; there is one call for a position. The controller posts a completion at a
  position only when the last doorbell has freed the entry of the lap before, and the
  completions counted are fewer than \<open>2\<^sup>3\<^sup>2 - 2\<close>; both are premises of the step that starts a
  call, as is that the caller's \<open>cur_head_\<close> is a value the head has had. The part of
  \<open>move_head_cq\<close> that frees submission slots works on the submission queue only and is the
  consumer of \<open>ParallelSq\<close>; here it is a step without effect. The counters \<open>z_vh\<close> (entries
  claimed by the head mover) and \<open>z_dbh\<close> (entries returned to the controller by a
  doorbell) are history only.
\<close>

subsection \<open>Definitions\<close>

datatype deq_pc =
    D_none | D_tail | D_wait | D_acq | D_mark | D_check | D_lock | D_load
  | D_move u32 u32 | D_free u32 u32 | D_db u32 u32 | D_store u32 | D_unlock
  | D_head | D_last u32 | D_release | D_done

record cq_sys =
  z_cq :: nvm_queue_t
  z_db :: "u32 list"
  z_loc :: "nat \<Rightarrow> u32"
  z_cur :: "nat \<Rightarrow> u32"
  z_pc :: "nat \<Rightarrow> deq_pc"
  z_vh :: nat
  z_dbh :: nat

definition dgoto :: "nat \<Rightarrow> deq_pc \<Rightarrow> cq_sys \<Rightarrow> cq_sys" where
  "dgoto l pc s = s\<lparr>z_pc := (z_pc s)(l := pc)\<rparr>"

definition cq_dequeue_start :: "nat \<Rightarrow> u32 \<Rightarrow> cq_sys \<Rightarrow> cq_sys" where
  "cq_dequeue_start l cur_head s =
     s\<lparr>z_loc := (z_loc s)(l := of_nat l), z_cur := (z_cur s)(l := cur_head), z_pc := (z_pc s)(l := D_tail)\<rparr>"

text \<open>One pass of the loop of \<open>move_head_cq\<close>.\<close>

definition move_head_cq_exch :: "nvm_queue_t \<Rightarrow> u32 \<Rightarrow> u32 \<Rightarrow> bool \<times> nvm_queue_t" where
  "move_head_cq_exch q cur_head count =
     (let loc = unat ((cur_head + count) AND q_qs_minus_1 q)
      in (q_head_mark q loc = LOCKED, q\<lparr>q_head_mark := (q_head_mark q)(loc := UNLOCKED)\<rparr>))"

text \<open>The test that ends the last loop: the head has passed the caller's entry.\<close>

definition head_passed :: "u32 \<Rightarrow> u32 \<Rightarrow> u32 \<Rightarrow> bool" where
  "head_passed new_head cur_head loc =
     (if new_head > cur_head then loc \<ge> cur_head \<and> loc < new_head
      else if new_head < cur_head then loc \<ge> cur_head \<or> loc < new_head
      else False)"

definition cq_dequeue_step :: "nat \<Rightarrow> cq_sys \<Rightarrow> cq_sys" where
  "cq_dequeue_step l s =
     (let q = z_cq s;
          pos = unat (z_loc s l AND q_qs_minus_1 q)
      in case z_pc s l of
        D_none \<Rightarrow> s
      | D_tail \<Rightarrow> dgoto l D_wait (s\<lparr>z_cq := q\<lparr>q_tail := q_tail q + 1\<rparr>\<rparr>)
      | D_wait \<Rightarrow> if q_pos_locks q pos \<noteq> 0 then s else dgoto l D_acq s
      | D_acq \<Rightarrow>
          let s' = s\<lparr>z_cq := q\<lparr>q_pos_locks := (q_pos_locks q)(pos := q_pos_locks q pos OR 1)\<rparr>\<rparr>
          in if q_pos_locks q pos \<noteq> 0 then s' else dgoto l D_mark s'
      | D_mark \<Rightarrow> dgoto l D_check (s\<lparr>z_cq := q\<lparr>q_head_mark := (q_head_mark q)(pos := LOCKED)\<rparr>\<rparr>)
      | D_check \<Rightarrow> if q_head_mark q pos = LOCKED then dgoto l D_lock s else dgoto l D_head s
      | D_lock \<Rightarrow>
          let s' = s\<lparr>z_cq := q\<lparr>q_head_lock := q_head_lock q OR LOCKED\<rparr>\<rparr>
          in if q_head_lock q = LOCKED then dgoto l D_check s' else dgoto l D_load s'
      | D_load \<Rightarrow> dgoto l (D_move (q_head q) 0) s
      | D_move cur_head count \<Rightarrow>
          let (pass, q) = move_head_cq_exch q cur_head count
          in if pass then dgoto l (D_move cur_head (count + 1)) (s\<lparr>z_cq := q, z_vh := z_vh s + 1\<rparr>)
             else dgoto l (D_free cur_head count) (s\<lparr>z_cq := q\<rparr>)
      | D_free cur_head count \<Rightarrow>
          if count \<noteq> 0 then dgoto l (D_db cur_head count) s else dgoto l D_unlock s
      | D_db cur_head count \<Rightarrow>
          let new_head = cur_head + count;
              new_db = new_head AND q_qs_minus_1 q
          in dgoto l (D_store new_head) (s\<lparr>z_db := new_db # z_db s, z_dbh := z_vh s\<rparr>)
      | D_store new_head \<Rightarrow> dgoto l D_unlock (s\<lparr>z_cq := q\<lparr>q_head := new_head\<rparr>\<rparr>)
      | D_unlock \<Rightarrow> dgoto l D_check (s\<lparr>z_cq := q\<lparr>q_head_lock := UNLOCKED\<rparr>\<rparr>)
      | D_head \<Rightarrow> dgoto l (D_last (q_head q)) s
      | D_last new_head \<Rightarrow>
          if head_passed new_head (z_cur s l) (z_loc s l) then dgoto l D_release s
          else dgoto l (D_last (q_head q)) s
      | D_release \<Rightarrow> dgoto l D_done (s\<lparr>z_cq := q\<lparr>q_pos_locks := (q_pos_locks q)(pos := 0)\<rparr>\<rparr>)
      | D_done \<Rightarrow> s)"

inductive cq_step :: "cq_sys \<Rightarrow> cq_sys \<Rightarrow> bool" where
  start: "z_pc s l = D_none \<Longrightarrow> l < z_dbh s + 2 ^ unat (q_qs_log2 (z_cq s)) \<Longrightarrow> l + 3 \<le> 2 ^ 32 \<Longrightarrow>
    h \<le> unat (q_head (z_cq s)) \<Longrightarrow> h \<le> l \<Longrightarrow> cq_step s (cq_dequeue_start l (of_nat h) s)"
| go: "cq_step s (cq_dequeue_step l s)"

definition cq_init :: "nat \<Rightarrow> cq_sys" where
  "cq_init k =
     \<lparr>z_cq = zero_queue\<lparr>q_qs := 2 ^ k, q_qs_minus_1 := 2 ^ k - 1, q_qs_log2 := of_nat k\<rparr>,
      z_db = [], z_loc = (\<lambda>_. 0), z_cur = (\<lambda>_. 0), z_pc = (\<lambda>_. D_none), z_vh = 0, z_dbh = 0\<rparr>"

inductive cq_reach :: "nat \<Rightarrow> cq_sys \<Rightarrow> bool" for k where
  init: "cq_reach k (cq_init k)"
| step: "cq_reach k s \<Longrightarrow> cq_step s s' \<Longrightarrow> cq_reach k s'"

subsection \<open>Invariant\<close>

fun consumed :: "deq_pc \<Rightarrow> bool" where
  "consumed D_none = False" | "consumed D_tail = False" | "consumed D_wait = False" | "consumed D_acq = False"
| "consumed D_mark = False" | "consumed _ = True"

fun head_mover :: "deq_pc \<Rightarrow> bool" where
  "head_mover D_load = True" | "head_mover (D_move a b) = True" | "head_mover (D_free a b) = True"
| "head_mover (D_db a b) = True" | "head_mover (D_store a) = True" | "head_mover D_unlock = True"
| "head_mover _ = False"

fun leaving :: "deq_pc \<Rightarrow> bool" where
  "leaving D_head = True" | "leaving (D_last a) = True" | "leaving D_release = True" | "leaving D_done = True"
| "leaving _ = False"

definition jnv_shape :: "nat \<Rightarrow> cq_sys \<Rightarrow> bool" where
  "jnv_shape k s \<longleftrightarrow> k \<le> 16 \<and> q_qs_minus_1 (z_cq s) = 2 ^ k - 1 \<and> unat (q_qs_log2 (z_cq s)) = k \<and>
     (\<forall>l. z_pc s l \<noteq> D_none \<longrightarrow> z_loc s l = of_nat l \<and> l < z_dbh s + 2 ^ k \<and> l + 3 \<le> 2 ^ 32 \<and>
        unat (z_cur s l) \<le> l \<and> unat (z_cur s l) \<le> unat (q_head (z_cq s)))"

fun head_local :: "cq_sys \<Rightarrow> nat \<Rightarrow> deq_pc \<Rightarrow> bool" where
  "head_local s l (D_move c n) = (c = q_head (z_cq s) \<and> z_vh s = unat c + unat n \<and> z_dbh s = unat c)"
| "head_local s l (D_free c n) = (c = q_head (z_cq s) \<and> z_vh s = unat c + unat n \<and> z_dbh s = unat c)"
| "head_local s l (D_db c n) = (c = q_head (z_cq s) \<and> z_vh s = unat c + unat n \<and> z_dbh s = unat c)"
| "head_local s l (D_store h) = (unat h = z_vh s \<and> z_dbh s = z_vh s)"
| "head_local s l D_load = (unat (q_head (z_cq s)) = z_vh s \<and> z_dbh s = z_vh s)"
| "head_local s l D_unlock = (unat (q_head (z_cq s)) = z_vh s \<and> z_dbh s = z_vh s)"
| "head_local s l (D_last h) = (unat (z_cur s l) \<le> unat h \<and> unat h \<le> unat (q_head (z_cq s)))"
| "head_local s l D_release = (l < unat (q_head (z_cq s)))"
| "head_local s l D_done = (l < unat (q_head (z_cq s)))"
| "head_local s l _ = True"

definition jnv_head :: "cq_sys \<Rightarrow> bool" where
  "jnv_head s \<longleftrightarrow> unat (q_head (z_cq s)) \<le> z_dbh s \<and> z_dbh s \<le> z_vh s \<and>
     (\<forall>l l'. head_mover (z_pc s l) \<longrightarrow> head_mover (z_pc s l') \<longrightarrow> l = l') \<and>
     q_head_lock (z_cq s) = (if \<exists>l. head_mover (z_pc s l) then 1 else 0) \<and>
     (\<forall>l. head_local s l (z_pc s l)) \<and>
     ((\<forall>l. \<not> head_mover (z_pc s l)) \<longrightarrow> unat (q_head (z_cq s)) = z_vh s \<and> z_dbh s = z_vh s)"

definition jnv_marks :: "nat \<Rightarrow> cq_sys \<Rightarrow> bool" where
  "jnv_marks k s \<longleftrightarrow> (\<forall>l. l < z_vh s \<longrightarrow> consumed (z_pc s l)) \<and>
     (\<forall>l. leaving (z_pc s l) \<longrightarrow> l < z_vh s) \<and>
     (\<forall>l. z_vh s \<le> l \<longrightarrow> consumed (z_pc s l) \<longrightarrow> q_head_mark (z_cq s) (l mod 2 ^ k) = 1) \<and>
     (\<forall>p. q_head_mark (z_cq s) p \<noteq> 0 \<longrightarrow> (\<exists>l. l mod 2 ^ k = p \<and> z_vh s \<le> l \<and> consumed (z_pc s l)))"

definition jnv_db :: "nat \<Rightarrow> cq_sys \<Rightarrow> bool" where
  "jnv_db k s \<longleftrightarrow> (case z_db s of [] \<Rightarrow> z_dbh s = 0 | v # _ \<Rightarrow> unat v = z_dbh s mod 2 ^ k)"

definition cq_inv :: "nat \<Rightarrow> cq_sys \<Rightarrow> bool" where
  "cq_inv k s \<longleftrightarrow> jnv_shape k s \<and> jnv_head s \<and> jnv_marks k s \<and> jnv_db k s"

subsection \<open>Preservation\<close>

lemma dgoto_simps [simp]:
  "z_cq (dgoto l pc s) = z_cq s" "z_db (dgoto l pc s) = z_db s" "z_loc (dgoto l pc s) = z_loc s"
  "z_cur (dgoto l pc s) = z_cur s" "z_pc (dgoto l pc s) = (z_pc s)(l := pc)" "z_vh (dgoto l pc s) = z_vh s"
  "z_dbh (dgoto l pc s) = z_dbh s"
  by (simp_all add: dgoto_def)

lemma jnv_shape_dgoto: "z_pc s l \<noteq> D_none \<Longrightarrow> jnv_shape k s \<Longrightarrow> jnv_shape k (dgoto l pc s)"
  by (simp add: jnv_shape_def)

lemma jnv_db_dgoto [simp]: "jnv_db k (dgoto l pc s) = jnv_db k s"
  unfolding jnv_db_def dgoto_simps ..

lemma jnv_marks_dgoto:
  assumes "consumed pc = consumed (z_pc s l)" "leaving pc \<longrightarrow> l < z_vh s" "jnv_marks k s"
  shows "jnv_marks k (dgoto l pc s)"
proof -
  have m: "consumed (((z_pc s)(l := pc)) l') = consumed (z_pc s l')" for l'
    using assms(1) by simp
  show ?thesis
    using assms(2,3) unfolding jnv_marks_def dgoto_simps m by (metis fun_upd_apply)
qed

lemma head_local_dgoto [simp]: "head_local (dgoto c pc s) l pc' = head_local s l pc'"
  by (cases pc') simp_all

lemma jnv_head_dgoto:
  assumes "\<not> head_mover pc" "\<not> head_mover (z_pc s l)" "head_local s l pc" "jnv_head s"
  shows "jnv_head (dgoto l pc s)"
proof -
  have m: "head_mover (((z_pc s)(l := pc)) l') = head_mover (z_pc s l')" for l'
    using assms(1,2) by simp
  show ?thesis
    using assms(3,4) unfolding jnv_head_def dgoto_simps m head_local_dgoto by simp
qed

lemma head_local_mono:
  assumes "head_local s l pc" "\<not> head_mover pc" "z_cur t = z_cur s" "unat (q_head (z_cq s)) \<le> unat (q_head (z_cq t))"
  shows "head_local t l pc"
  using assms by (cases pc) simp_all

lemma jnv_head_mover:
  assumes "jnv_head s" "head_mover (z_pc s l)" "head_mover pc" "z_pc t = z_pc s" "z_cur t = z_cur s"
    and "q_head_lock (z_cq t) = q_head_lock (z_cq s)" "head_local t l pc"
    and "unat (q_head (z_cq s)) \<le> unat (q_head (z_cq t))" "unat (q_head (z_cq t)) \<le> z_dbh t" "z_dbh t \<le> z_vh t"
  shows "jnv_head (dgoto l pc t)"
proof -
  have m: "head_mover (((z_pc s)(l := pc)) l') = head_mover (z_pc s l')" for l'
    using assms(2,3) by simp
  have "head_local t l' (((z_pc s)(l := pc)) l')" for l'
  proof (cases "l' = l")
    case False
    then have "\<not> head_mover (z_pc s l')" "head_local s l' (z_pc s l')"
      using assms(1,2) unfolding jnv_head_def by blast+
    then show ?thesis
      using False head_local_mono assms(5,8) by simp
  qed (simp add: assms(7))
  then show ?thesis
    using assms(1,2,4,6,9,10) unfolding jnv_head_def dgoto_simps head_local_dgoto by (metis m)
qed

lemma head_local_cong:
  "q_head (z_cq t) = q_head (z_cq s) \<Longrightarrow> z_cur t = z_cur s \<Longrightarrow> z_vh t = z_vh s \<Longrightarrow> z_dbh t = z_dbh s \<Longrightarrow>
   head_local t l pc = head_local s l pc"
  by (cases pc) simp_all

lemma jnv_db_other [simp]: "jnv_db k (s\<lparr>z_cq := q\<rparr>) = jnv_db k s"
  unfolding jnv_db_def by (cases "z_db s") simp_all

text \<open>Fields of the queue that the invariant does not mention.\<close>

lemma cq_inv_other:
  assumes "cq_inv k s" "q_qs_minus_1 q = q_qs_minus_1 (z_cq s)" "q_qs_log2 q = q_qs_log2 (z_cq s)"
    and "q_head q = q_head (z_cq s)" "q_head_lock q = q_head_lock (z_cq s)" "q_head_mark q = q_head_mark (z_cq s)"
  shows "cq_inv k (s\<lparr>z_cq := q\<rparr>)"
proof -
  have l: "head_local (s\<lparr>z_cq := q\<rparr>) l pc = head_local s l pc" for l pc
    by (rule head_local_cong) (simp_all add: assms(4))
  show ?thesis
    using assms unfolding cq_inv_def jnv_shape_def jnv_head_def jnv_marks_def l by simp
qed

lemma cq_inv_dgoto:
  assumes "cq_inv k s" "z_pc s l \<noteq> D_none" "consumed pc = consumed (z_pc s l)" "leaving pc \<longrightarrow> l < z_vh s"
    and "\<not> head_mover pc" "\<not> head_mover (z_pc s l)" "head_local s l pc"
  shows "cq_inv k (dgoto l pc s)"
  using assms unfolding cq_inv_def by (simp add: jnv_shape_dgoto jnv_marks_dgoto jnv_head_dgoto)

lemma cq_pos:
  assumes "cq_inv k s" "z_pc s l \<noteq> D_none"
  shows "unat (z_loc s l AND q_qs_minus_1 (z_cq s)) = l mod 2 ^ k"
proof -
  have "l + 3 \<le> 2 ^ 32" "k \<le> 16" "z_loc s l = of_nat l" "q_qs_minus_1 (z_cq s) = 2 ^ k - 1"
    using assms by (simp_all add: cq_inv_def jnv_shape_def)
  then show ?thesis
    by (simp add: ticket_pos)
qed

lemma cq_bounds:
  "cq_inv k s \<Longrightarrow> unat (q_head (z_cq s)) \<le> z_dbh s \<and> z_dbh s \<le> z_vh s \<and> (\<forall>l. head_local s l (z_pc s l))"
  by (simp add: cq_inv_def jnv_head_def)

lemma cq_vh_small:
  assumes "cq_inv k s"
  shows "z_vh s + 1 < 2 ^ 32"
proof (cases "z_vh s")
  case (Suc n)
  then have "z_pc s n \<noteq> D_none"
    using assms unfolding cq_inv_def jnv_marks_def by (metis consumed.simps(1) lessI)
  then have "n + 3 \<le> 2 ^ 32"
    using assms by (simp add: cq_inv_def jnv_shape_def)
  then show ?thesis
    using Suc by simp
qed simp

text \<open>The steps of a call outside the critical section.\<close>

lemma dstep_front:
  assumes "cq_inv k s" "z_pc s l \<in> {D_tail, D_wait, D_acq}"
  shows "cq_inv k (cq_dequeue_step l s)"
proof -
  have o: "cq_inv k (s\<lparr>z_cq := (z_cq s)\<lparr>q_tail := a\<rparr>\<rparr>)" "cq_inv k (s\<lparr>z_cq := (z_cq s)\<lparr>q_pos_locks := f\<rparr>\<rparr>)" for a f
    using assms(1) by (rule cq_inv_other; simp)+
  show ?thesis
    using assms o by (auto simp: cq_dequeue_step_def Let_def intro!: cq_inv_dgoto)
qed

lemma dstep_mark:
  assumes "cq_inv k s" "z_pc s l = D_mark"
  shows "cq_inv k (cq_dequeue_step l s)"
proof -
  let ?s = "s\<lparr>z_cq := (z_cq s)\<lparr>q_head_mark := (q_head_mark (z_cq s))(l mod 2 ^ k := 1)\<rparr>\<rparr>"
  have m: "jnv_marks k s"
    using assms(1) by (simp add: cq_inv_def)
  then have vh: "z_vh s \<le> l"
    using assms(2) unfolding jnv_marks_def by (metis consumed.simps(5) linorder_not_le)
  have "jnv_marks k (dgoto l D_check ?s)"
    using m vh unfolding jnv_marks_def dgoto_simps by auto
  moreover have "jnv_head (dgoto l D_check ?s)"
  proof (rule jnv_head_dgoto)
    have "head_local ?s l' pc = head_local s l' pc" for l' pc
      by (rule head_local_cong) simp_all
    then show "jnv_head ?s"
      using assms(1) by (simp add: cq_inv_def jnv_head_def)
  qed (use assms(2) in simp_all)
  moreover have "jnv_shape k (dgoto l D_check ?s)"
    using assms by (simp add: cq_inv_def jnv_shape_def)
  ultimately show ?thesis
    using assms cq_pos[OF assms(1), of l]
    by (simp add: cq_dequeue_step_def Let_def LOCKED_def cq_inv_def)
qed

lemma dstep_check:
  assumes "cq_inv k s" "z_pc s l = D_check"
  shows "cq_inv k (cq_dequeue_step l s)"
proof -
  have "l < z_vh s" if "q_head_mark (z_cq s) (l mod 2 ^ k) \<noteq> 1"
    using that assms unfolding cq_inv_def jnv_marks_def by (metis consumed.simps(6) leI)
  then show ?thesis
    using assms cq_pos[OF assms(1), of l] cq_inv_dgoto[OF assms(1), of l D_lock] cq_inv_dgoto[OF assms(1), of l D_head]
    by (simp add: cq_dequeue_step_def Let_def LOCKED_def)
qed

lemma dstep_leave:
  assumes "cq_inv k s" "leaving (z_pc s l)"
  shows "cq_inv k (cq_dequeue_step l s)"
proof -
  have vh: "l < z_vh s" and loc: "head_local s l (z_pc s l)" and nn: "z_pc s l \<noteq> D_none"
    using assms by (auto simp: cq_inv_def jnv_marks_def jnv_head_def)
  have sh: "z_loc s l = of_nat l" "l + 3 \<le> 2 ^ 32" "unat (z_cur s l) \<le> unat (q_head (z_cq s))"
    using assms(1) nn by (simp_all add: cq_inv_def jnv_shape_def)
  show ?thesis
  proof (cases "z_pc s l")
    case D_head
    then have "cq_inv k (dgoto l (D_last (q_head (z_cq s))) s)"
      using assms(1) vh sh(3) by (intro cq_inv_dgoto) simp_all
    then show ?thesis
      using D_head by (simp add: cq_dequeue_step_def Let_def)
  next
    case (D_last h)
    have "cq_inv k (dgoto l (D_last (q_head (z_cq s))) s)"
      using assms(1) vh sh(3) D_last by (intro cq_inv_dgoto) simp_all
    moreover have "cq_inv k (dgoto l D_release s)" if "head_passed h (z_cur s l) (z_loc s l)"
    proof -
      have "\<not> h < z_cur s l" "unat h \<le> unat (q_head (z_cq s))"
        using loc D_last by (auto simp: word_less_nat_alt)
      then have "l < unat (q_head (z_cq s))"
        using that sh(1,2) by (auto simp: head_passed_def word_less_nat_alt unat_slot split: if_splits)
      then show ?thesis
        using assms(1) vh D_last by (intro cq_inv_dgoto) simp_all
    qed
    ultimately show ?thesis
      using D_last by (simp add: cq_dequeue_step_def Let_def)
  next
    case D_release
    let ?s = "s\<lparr>z_cq := (z_cq s)\<lparr>q_pos_locks := (q_pos_locks (z_cq s))(l mod 2 ^ k := 0)\<rparr>\<rparr>"
    have "cq_inv k ?s"
      using assms(1) by (rule cq_inv_other) simp_all
    then have "cq_inv k (dgoto l D_done ?s)"
      using D_release vh loc by (intro cq_inv_dgoto) simp_all
    then show ?thesis
      using D_release cq_pos[OF assms(1) nn] by (simp add: cq_dequeue_step_def Let_def)
  qed (use assms in \<open>simp_all add: cq_dequeue_step_def Let_def\<close>)
qed

text \<open>The critical section.\<close>

lemma head_mover_consumed: "head_mover pc \<Longrightarrow> consumed pc \<and> \<not> leaving pc \<and> pc \<noteq> D_none"
  by (cases pc) simp_all

lemma cq_inv_mover:
  assumes "cq_inv k s" "head_mover (z_pc s l)" "head_mover pc" "z_pc t = z_pc s" "z_cur t = z_cur s"
    and "q_head_lock (z_cq t) = q_head_lock (z_cq s)" "head_local t l pc"
    and "unat (q_head (z_cq s)) \<le> unat (q_head (z_cq t))" "unat (q_head (z_cq t)) \<le> z_dbh t" "z_dbh t \<le> z_vh t"
    and "jnv_shape k t" "jnv_marks k t" "jnv_db k t"
  shows "cq_inv k (dgoto l pc t)"
proof -
  have "jnv_head (dgoto l pc t)"
    using assms(1) by (intro jnv_head_mover[OF _ assms(2-10)]) (simp add: cq_inv_def)
  moreover have "jnv_shape k (dgoto l pc t)"
    using assms(11,4) head_mover_consumed[OF assms(2)] by (simp add: jnv_shape_dgoto)
  moreover have "jnv_marks k (dgoto l pc t)"
    using assms(12,4) head_mover_consumed[OF assms(2)] head_mover_consumed[OF assms(3)] by (intro jnv_marks_dgoto) simp_all
  ultimately show ?thesis
    using assms(13) by (simp add: cq_inv_def)
qed

lemma dstep_lock:
  assumes "cq_inv k s" "z_pc s l = D_lock"
  shows "cq_inv k (cq_dequeue_step l s)"
proof (cases "\<exists>l'. head_mover (z_pc s l')")
  case True
  then have "q_head_lock (z_cq s) = 1"
    using assms(1) by (simp add: cq_inv_def jnv_head_def)
  then have "cq_dequeue_step l s = dgoto l D_check s"
    using assms(2) by (simp add: cq_dequeue_step_def Let_def LOCKED_def)
  then show ?thesis
    using cq_inv_dgoto[OF assms(1), of l D_check] assms(2) by simp
next
  case False
  let ?s = "s\<lparr>z_cq := (z_cq s)\<lparr>q_head_lock := 1\<rparr>\<rparr>"
  have t: "jnv_head s" "q_head_lock (z_cq s) = 0" "unat (q_head (z_cq s)) = z_vh s" "z_dbh s = z_vh s"
    using assms(1) False by (simp_all add: cq_inv_def jnv_head_def)
  have step: "cq_dequeue_step l s = dgoto l D_load ?s"
    using assms(2) t(2) by (simp add: cq_dequeue_step_def Let_def LOCKED_def)
  have m: "head_mover (((z_pc ?s)(l := D_load)) l') = (l' = l)" for l'
    using False by simp
  have "head_local ?s l' (((z_pc ?s)(l := D_load)) l')" for l'
    using t(1,3,4) head_local_cong[of ?s s] by (cases "l' = l") (simp_all add: jnv_head_def)
  then have "jnv_head (dgoto l D_load ?s)"
    using t unfolding jnv_head_def dgoto_simps m head_local_dgoto by simp
  moreover have "jnv_shape k (dgoto l D_load ?s)" "jnv_marks k ?s"
    using assms by (simp_all add: cq_inv_def jnv_shape_def jnv_marks_def)
  ultimately show ?thesis
    unfolding step using assms by (simp add: cq_inv_def jnv_marks_dgoto)
qed

lemma dstep_move:
  assumes "cq_inv k s" "z_pc s l = D_move c n"
  shows "cq_inv k (cq_dequeue_step l s)"
proof -
  let ?m = "q_head_mark (z_cq s)"
  let ?p = "z_vh s mod 2 ^ k"
  let ?q = "(z_cq s)\<lparr>q_head_mark := ?m(?p := 0)\<rparr>"
  have loc: "c = q_head (z_cq s)" "z_vh s = unat c + unat n" "z_dbh s = unat c"
    using cq_bounds[OF assms(1)] assms(2) by (metis head_local.simps(1))+
  have marks: "jnv_marks k s" and k: "k \<le> 16" "q_qs_minus_1 (z_cq s) = 2 ^ k - 1"
    using assms(1) by (simp_all add: cq_inv_def jnv_shape_def)
  have "unat (c + n) = z_vh s"
    using loc(2) cq_vh_small[OF assms(1)] by (simp add: unat_add_no_wrap)
  then have exch: "move_head_cq_exch (z_cq s) c n = (?m ?p = 1, ?q)"
    using k by (simp add: move_head_cq_exch_def LOCKED_def UNLOCKED_def unat_and_mask Let_def)
  have only: "l' = z_vh s" if "l' mod 2 ^ k = ?p" "z_vh s \<le> l'" "consumed (z_pc s l')" for l'
  proof -
    have "l' < z_vh s + 2 ^ k"
      using assms(1) that(3) cq_bounds[OF assms(1)] unfolding cq_inv_def jnv_shape_def
      by (metis add_le_mono1 consumed.simps(1) less_le_trans)
    then have "l' - z_vh s < 2 ^ k" "(l' - z_vh s) mod 2 ^ k = 0"
      using that(1,2) by (simp_all add: mod_eq_dvd_iff_nat less_diff_conv2)
    then show ?thesis
      using that(2) by simp
  qed
  show ?thesis
  proof (cases "?m ?p = 1")
    case True
    let ?s = "s\<lparr>z_cq := ?q, z_vh := z_vh s + 1\<rparr>"
    have vh: "consumed (z_pc s (z_vh s))"
      using True marks only unfolding jnv_marks_def by (metis zero_neq_one)
    have "jnv_marks k ?s"
      unfolding jnv_marks_def
    proof (intro conjI allI impI)
      fix l'
      show "consumed (z_pc ?s l')" if "l' < z_vh ?s"
        using that marks vh by (cases "l' = z_vh s") (simp_all add: jnv_marks_def)
      show "l' < z_vh ?s" if "leaving (z_pc ?s l')"
        using that marks by (auto simp: jnv_marks_def)
      show "q_head_mark (z_cq ?s) (l' mod 2 ^ k) = 1" if "z_vh ?s \<le> l'" "consumed (z_pc ?s l')"
        using that marks only[of l'] by (auto simp: jnv_marks_def)
      show "\<exists>l. l mod 2 ^ k = l' \<and> z_vh ?s \<le> l \<and> consumed (z_pc ?s l)" if "q_head_mark (z_cq ?s) l' \<noteq> 0"
      proof -
        have "l' \<noteq> ?p" "?m l' \<noteq> 0"
          using that by (auto split: if_splits)
        moreover then obtain d where "d mod 2 ^ k = l'" "z_vh s \<le> d" "consumed (z_pc s d)"
          using marks unfolding jnv_marks_def by blast
        ultimately show ?thesis
          by (intro exI[of _ d]) (auto simp: le_eq_less_or_eq)
      qed
    qed
    moreover have "jnv_shape k ?s" "jnv_db k ?s"
      using assms(1) by (auto simp: cq_inv_def jnv_shape_def jnv_db_def split: list.splits)
    moreover have "unat (n + 1) = unat n + 1"
      using loc(2) cq_vh_small[OF assms(1)] by (simp add: unat_add_no_wrap)
    ultimately have "cq_inv k (dgoto l (D_move c (n + 1)) ?s)"
      using assms loc by (intro cq_inv_mover[OF assms(1)]) simp_all
    then show ?thesis
      using True assms(2) by (simp add: cq_dequeue_step_def Let_def exch)
  next
    case False
    let ?s = "s\<lparr>z_cq := ?q\<rparr>"
    have "?m ?p = 0"
      using False marks unfolding jnv_marks_def by metis
    then have "?m(?p := 0) = ?m"
      by (simp add: fun_upd_idem)
    then have "cq_inv k ?s"
      using assms(1) by (intro cq_inv_other) simp_all
    then have "cq_inv k (dgoto l (D_free c n) ?s)"
      using assms loc by (intro cq_inv_mover[OF assms(1)]) (simp_all add: cq_inv_def)
    then show ?thesis
      using False assms(2) by (simp add: cq_dequeue_step_def Let_def exch)
  qed
qed

lemma dstep_others:
  assumes "cq_inv k s" "z_pc s l = D_load \<or> (\<exists>c n. z_pc s l = D_free c n)"
  shows "cq_inv k (cq_dequeue_step l s)"
proof -
  have loc: "head_local s l (z_pc s l)" and b: "unat (q_head (z_cq s)) \<le> z_dbh s" "z_dbh s \<le> z_vh s"
    using cq_bounds[OF assms(1)] by simp_all
  have go: "cq_inv k (dgoto l pc s)" if "head_mover pc" "head_local s l pc" for pc
    using assms b that by (intro cq_inv_mover[OF assms(1)]) (auto simp: cq_inv_def)
  show ?thesis
    using assms(2) loc go[of "D_move (q_head (z_cq s)) 0"] go[of D_unlock] go[of "D_db _ _"]
    by (auto simp: cq_dequeue_step_def Let_def)
qed

lemma dstep_db:
  assumes "cq_inv k s" "z_pc s l = D_db c n"
  shows "cq_inv k (cq_dequeue_step l s)"
proof -
  let ?s = "s\<lparr>z_db := ((c + n) AND q_qs_minus_1 (z_cq s)) # z_db s, z_dbh := z_vh s\<rparr>"
  have loc: "c = q_head (z_cq s)" "z_vh s = unat c + unat n" "z_dbh s = unat c"
    using cq_bounds[OF assms(1)] assms(2) by (metis head_local.simps(3))+
  have sum: "unat (c + n) = z_vh s"
    using loc(2) cq_vh_small[OF assms(1)] by (simp add: unat_add_no_wrap)
  have "jnv_db k ?s"
    using assms(1) sum by (simp add: jnv_db_def cq_inv_def jnv_shape_def unat_and_mask)
  moreover have "jnv_shape k ?s"
    using assms(1) loc unfolding cq_inv_def jnv_shape_def by fastforce
  moreover have "jnv_marks k ?s"
    using assms(1) by (simp add: cq_inv_def jnv_marks_def)
  ultimately have "cq_inv k (dgoto l (D_store (c + n)) ?s)"
    using assms loc sum by (intro cq_inv_mover[OF assms(1)]) simp_all
  then show ?thesis
    using assms(2) by (simp add: cq_dequeue_step_def Let_def)
qed

lemma dstep_store:
  assumes "cq_inv k s" "z_pc s l = D_store h"
  shows "cq_inv k (cq_dequeue_step l s)"
proof -
  let ?s = "s\<lparr>z_cq := (z_cq s)\<lparr>q_head := h\<rparr>\<rparr>"
  have loc: "unat h = z_vh s" "z_dbh s = z_vh s" "unat (q_head (z_cq s)) \<le> z_vh s"
    using cq_bounds[OF assms(1)] assms(2) by (metis head_local.simps(4), metis head_local.simps(4), metis le_trans)
  have "jnv_shape k ?s"
    using assms(1) loc unfolding cq_inv_def jnv_shape_def by fastforce
  moreover have "jnv_marks k ?s" "jnv_db k ?s"
    using assms(1) by (simp_all add: cq_inv_def jnv_marks_def)
  ultimately have "cq_inv k (dgoto l D_unlock ?s)"
    using assms loc by (intro cq_inv_mover[OF assms(1)]) simp_all
  then show ?thesis
    using assms(2) by (simp add: cq_dequeue_step_def Let_def)
qed

lemma dstep_unlock:
  assumes "cq_inv k s" "z_pc s l = D_unlock"
  shows "cq_inv k (cq_dequeue_step l s)"
proof -
  let ?s = "s\<lparr>z_cq := (z_cq s)\<lparr>q_head_lock := 0\<rparr>\<rparr>"
  have h: "jnv_head s"
    using assms(1) by (simp add: cq_inv_def)
  have loc: "unat (q_head (z_cq s)) = z_vh s" "z_dbh s = z_vh s"
    using cq_bounds[OF assms(1)] assms(2) by (metis head_local.simps(6))+
  have m: "\<not> head_mover (((z_pc s)(l := D_check)) l')" for l'
    using h assms(2) unfolding jnv_head_def by (metis fun_upd_apply head_mover.simps(6) head_mover.simps(12))
  have "head_local ?s l' (((z_pc s)(l := D_check)) l')" for l'
    using h head_local_cong[of ?s s l'] by (cases "l' = l") (simp_all add: jnv_head_def)
  then have "jnv_head (dgoto l D_check ?s)"
    using loc m unfolding jnv_head_def dgoto_simps head_local_dgoto by simp
  moreover have "jnv_shape k (dgoto l D_check ?s)" "jnv_marks k ?s"
    using assms by (simp_all add: cq_inv_def jnv_shape_def jnv_marks_def)
  ultimately show ?thesis
    using assms by (simp add: cq_dequeue_step_def Let_def UNLOCKED_def cq_inv_def jnv_marks_dgoto)
qed

lemma cq_step_go:
  assumes "cq_inv k s"
  shows "cq_inv k (cq_dequeue_step l s)"
proof (cases "z_pc s l")
  case D_none
  then show ?thesis
    using assms by (simp add: cq_dequeue_step_def Let_def)
qed (simp_all add: assms dstep_front dstep_mark dstep_check dstep_leave dstep_lock dstep_move dstep_others dstep_db dstep_store
    dstep_unlock)

lemma cq_step_start:
  assumes "cq_inv k s" "z_pc s l = D_none" "l < z_dbh s + 2 ^ k" "l + 3 \<le> 2 ^ 32" "h \<le> unat (q_head (z_cq s))" "h \<le> l"
  shows "cq_inv k (cq_dequeue_start l (of_nat h) s)"
proof -
  let ?t = "cq_dequeue_start l (of_nat h) s"
  have h: "unat (of_nat h :: u32) = h"
    using assms(4,6) by (intro unat_slot) simp
  have m: "head_mover (((z_pc s)(l := D_tail)) l') = head_mover (z_pc s l')" "consumed (((z_pc s)(l := D_tail)) l') = consumed (z_pc s l')"
    "leaving (((z_pc s)(l := D_tail)) l') = leaving (z_pc s l')" for l'
    using assms(2) by simp_all
  have "head_local ?t l' (((z_pc s)(l := D_tail)) l')" for l'
  proof (cases "l' = l")
    case False
    have "head_local s l' (z_pc s l')"
      using cq_bounds[OF assms(1)] by simp
    then show ?thesis
      using False by (cases "z_pc s l'") (simp_all add: cq_dequeue_start_def)
  qed simp
  moreover have sel: "z_cq ?t = z_cq s" "z_pc ?t = (z_pc s)(l := D_tail)" "z_vh ?t = z_vh s" "z_dbh ?t = z_dbh s"
    by (simp_all add: cq_dequeue_start_def)
  ultimately have "jnv_head ?t"
    using assms(1) unfolding cq_inv_def jnv_head_def sel m by blast
  moreover have "jnv_shape k ?t"
    using assms h by (simp add: cq_inv_def jnv_shape_def cq_dequeue_start_def)
  moreover have "jnv_marks k ?t"
    using assms(1) unfolding cq_inv_def jnv_marks_def sel m by blast
  moreover have "jnv_db k ?t"
    using assms(1) by (auto simp: cq_inv_def jnv_db_def cq_dequeue_start_def split: list.splits)
  ultimately show ?thesis
    by (simp add: cq_inv_def)
qed

lemma cq_inv_init: "k \<le> 16 \<Longrightarrow> cq_inv k (cq_init k)"
  by (auto simp: cq_inv_def jnv_shape_def jnv_head_def jnv_marks_def jnv_db_def cq_init_def zero_queue_def
      unat_of_nat take_bit_eq_mod)

lemma cq_reach_inv: "cq_reach k s \<Longrightarrow> k \<le> 16 \<Longrightarrow> cq_inv k s"
proof (induction rule: cq_reach.induct)
  case (step s s')
  then have inv: "cq_inv k s"
    by simp
  then have "unat (q_qs_log2 (z_cq s)) = k"
    by (simp add: cq_inv_def jnv_shape_def)
  then show ?case
    using step.hyps(2) inv by (auto elim!: cq_step.cases intro: cq_step_go cq_step_start)
qed (simp add: cq_inv_init)

subsection \<open>Properties\<close>

text \<open>C5: Completions of a shared completion queue are consumed in order. In every state the
  concurrent calls of \<open>cq_dequeue\<close> can reach, at most one call holds the head lock, the head
  has passed only entries that their caller has marked as consumed, a call that has returned has
  its entry behind the head, and the last value the controller was given through the
  doorbell is the number of entries returned to it modulo the queue size, none of which is
  still unconsumed.\<close>

theorem cq_dequeue_in_order:
  assumes "cq_reach k s" "k \<le> 16"
  shows "(head_mover (z_pc s l) \<and> head_mover (z_pc s l') \<longrightarrow> l = l') \<and>
    (l < unat (q_head (z_cq s)) \<or> l < z_dbh s \<longrightarrow> consumed (z_pc s l)) \<and>
    (z_pc s l = D_done \<longrightarrow> l < unat (q_head (z_cq s))) \<and>
    (case z_db s of [] \<Rightarrow> z_dbh s = 0 | v # _ \<Rightarrow> unat v = z_dbh s mod 2 ^ k)"
proof -
  have inv: "cq_inv k s"
    using assms by (rule cq_reach_inv)
  have "head_local s l (z_pc s l)" "unat (q_head (z_cq s)) \<le> z_dbh s" "z_dbh s \<le> z_vh s"
    using cq_bounds[OF inv] by simp_all
  moreover have "z_pc s l = D_done \<longrightarrow> l < unat (q_head (z_cq s))"
    using calculation(1) by auto
  moreover have "consumed (z_pc s l)" if "l < z_vh s"
    using that inv by (simp add: cq_inv_def jnv_marks_def)
  moreover have "head_mover (z_pc s l) \<and> head_mover (z_pc s l') \<longrightarrow> l = l'"
    using inv unfolding cq_inv_def jnv_head_def by blast
  ultimately show ?thesis
    using inv unfolding cq_inv_def jnv_db_def by linarith
qed

definition example_cq_run :: "nat \<Rightarrow> cq_sys" where
  "example_cq_run n = (cq_dequeue_step 0 ^^ n) (cq_dequeue_start 0 0 (cq_init 2))"

lemma example_cq_run_reach: "cq_reach 2 (example_cq_run n)"
proof (induction n)
  case 0
  have "cq_step (cq_init 2) (cq_dequeue_start 0 (of_nat 0) (cq_init 2))"
    by (rule start) (simp_all add: cq_init_def zero_queue_def)
  then show ?case
    using cq_reach.step[OF cq_reach.init] by (simp add: example_cq_run_def)
next
  case (Suc n)
  then show ?case
    using cq_reach.step[OF _ go] by (simp add: example_cq_run_def)
qed

lemma example_cq_run_done: "z_pc (example_cq_run 19) 0 = D_done \<and> z_dbh (example_cq_run 19) = 1"
  by (simp add: example_cq_run_def numeral_eq_Suc cq_dequeue_step_def dgoto_def move_head_cq_exch_def head_passed_def
      cq_dequeue_start_def cq_init_def zero_queue_def LOCKED_def UNLOCKED_def Let_def)

theorem cq_dequeue_in_order_witness: "0 < unat (q_head (z_cq (example_cq_run 19)))"
  using cq_dequeue_in_order[OF example_cq_run_reach, of 19 0] example_cq_run_done by simp

end
