(* ===== verification/IoQueue.thy ===== *)
theory IoQueue
  imports NvmCmd
begin

text \<open>
  The request queue of the IO scheduler, \<open>include/io_scheduler.cuh\<close>: sort keys, the encoding
  of sizes, and the ring through which the GPU threads hand requests to the scheduler.

  The ring is used by many producers and one scheduler at a time, so it is modelled by its
  atomic actions, run in any order. A producer is known by the slot it claimed. A call of
  \<open>io_sched_read\<close>, \<open>io_sched_write\<close> or \<open>io_sched_access\<close> enqueues and then polls \<open>done_seq\<close>; a call
  of \<open>io_sched_submit\<close> enqueues and polls \<open>done_flags\<close> later, in \<open>io_sched_wait\<close>;
  \<open>io_sched_enqueue_forget\<close> only enqueues. Delays and profiling counters are left out.

  The scheduler is the persistent kernel of \<open>benchmarks/io_scheduler/io_scheduler_impl.cuh\<close> in its global
  sort mode with the parallel drain, as the build selects it. Its 128 threads look at 128 entries at a time, count
  the ready ones with warp ballots and load them; between two barriers their reads and writes of the shared memory are
  single actions that come in any order. A batch is sorted and submitted (theories \<open>IoSort\<close> and \<open>IoMerge\<close>), its
  producers are notified and its entries of the victim buffer released, again by threads in any order, and the head
  moves. A scan by thread 0 (\<open>io_sched_scan_ready\<close>) is one action; its result only decides whether the threads
  look again. The victim buffer is shared with the threads that evict pages, which may change it at any time. The
  requests taken from the ring (\<open>i_drained\<close>) are history.
\<close>

subsection \<open>Constants, sort keys and sizes\<close>

definition kSchedThreads :: u32 where "kSchedThreads = 128"
definition IO_SCHED_MAX_BATCH :: u32 where "IO_SCHED_MAX_BATCH = 512"
definition kSchedMaxBatch :: u32 where "kSchedMaxBatch = IO_SCHED_MAX_BATCH"
definition kSchedElemsPerThread :: u32 where "kSchedElemsPerThread = kSchedMaxBatch div kSchedThreads"
definition kSchedMergeTarget :: u64 where "kSchedMergeTarget = 2 * 1024 * 1024"
definition kSchedReadSubmitThreads :: u32 where "kSchedReadSubmitThreads = 32"
definition kSchedKneeLimit :: u32 where "kSchedKneeLimit = 32"

definition VICTIM_FREE :: u32 where "VICTIM_FREE = 0"
definition VICTIM_PC_ENTRY_BIT :: u64 where "VICTIM_PC_ENTRY_BIT = push_bit 63 1"
definition VICTIM_PC_ENTRY_MASK :: u64 where "VICTIM_PC_ENTRY_MASK = NOT VICTIM_PC_ENTRY_BIT"

definition kSortKeyIndexBits :: u32 where
  "kSortKeyIndexBits =
     (if kSchedMaxBatch \<le> 128 then 7 else if kSchedMaxBatch \<le> 256 then 8
      else if kSchedMaxBatch \<le> 512 then 9 else 10)"

definition kSortKeyIndexMask :: u64 where
  "kSortKeyIndexMask = push_bit (unat kSortKeyIndexBits) 1 - 1"

definition io_sched_make_sort_key :: "u64 \<Rightarrow> u32 \<Rightarrow> u64" where
  "io_sched_make_sort_key byte_offset batch_index =
     push_bit (unat kSortKeyIndexBits) byte_offset OR (ucast batch_index AND kSortKeyIndexMask)"

definition io_sched_key_byte_offset :: "u64 \<Rightarrow> u64" where
  "io_sched_key_byte_offset key = drop_bit (unat kSortKeyIndexBits) key"

definition io_sched_key_batch_index :: "u64 \<Rightarrow> u32" where
  "io_sched_key_batch_index key = ucast (key AND kSortKeyIndexMask)"

text \<open>The intrinsic \<open>__ffsll\<close>: the position of the lowest bit that is set, counted from 1; 0 if there is none.\<close>

definition ffsll :: "u64 \<Rightarrow> nat" where
  "ffsll x = (case find (bit x) [0..<64] of None \<Rightarrow> 0 | Some i \<Rightarrow> Suc i)"

text \<open>Warp intrinsics: the mask of the lanes for which \<open>p\<close> holds, and the position of the lowest bit of a mask.\<close>

definition ballot :: "(nat \<Rightarrow> bool) \<Rightarrow> u32" where
  "ballot p = horner_sum of_bool 2 (map p [0..<32])"

definition ffs :: "u32 \<Rightarrow> nat" where
  "ffs m = (case find (bit m) [0..<32] of None \<Rightarrow> 0 | Some i \<Rightarrow> Suc i)"

definition io_sched_encode_nbytes :: "u64 \<Rightarrow> u8" where
  "io_sched_encode_nbytes n_bytes = of_nat (ffsll n_bytes) - 1"

definition io_sched_decode_nbytes :: "u8 \<Rightarrow> u64" where
  "io_sched_decode_nbytes n_bytes_log2 = push_bit (unat n_bytes_log2) 1"

subsection \<open>Requests and the queue\<close>

record io_request_t =
  rq_byte_offset :: u64
  rq_pc_entry :: u64
  rq_opcode :: u8
  rq_n_bytes_log2 :: u8

record io_queue_t =
  ioq_entries :: "nat \<Rightarrow> io_request_t"
  ioq_done_flags :: "nat \<Rightarrow> u32"
  ioq_done_seq :: "nat \<Rightarrow> u32"
  ioq_prod_seq :: "nat \<Rightarrow> u32"
  ioq_capacity :: u32
  ioq_capacity_mask :: u32
  ioq_prod_tail :: u32
  ioq_prod_ready :: u32
  ioq_cons_head :: u32
  ioq_shutdown :: u32
  ioq_sched_paused :: u32
  ioq_submitted_ios :: u64
  ioq_merged_ios :: u64
  ioq_sched_qp_base :: u32

definition io_request :: "u64 \<Rightarrow> u64 \<Rightarrow> u64 \<Rightarrow> u8 \<Rightarrow> io_request_t" where
  "io_request byte_offset n_bytes pc_entry opcode =
     \<lparr>rq_byte_offset = byte_offset, rq_pc_entry = pc_entry, rq_opcode = opcode,
      rq_n_bytes_log2 = io_sched_encode_nbytes n_bytes\<rparr>"

text \<open>\<open>io_sched_scan_ready\<close>: the loop over the entries, and the number of entries it looks at.\<close>

fun scan_loop :: "io_queue_t \<Rightarrow> u32 \<Rightarrow> nat \<Rightarrow> u32 \<Rightarrow> u32" where
  "scan_loop q start 0 i = i"
| "scan_loop q start (Suc n) i =
     (if ioq_prod_seq q (unat ((start + i) AND ioq_capacity_mask q)) \<noteq> start + i + 1 then i
      else scan_loop q start n (i + 1))"

definition scan_pending :: "io_queue_t \<Rightarrow> u32 \<Rightarrow> u32 \<Rightarrow> u32" where
  "scan_pending q start max_count =
     (let pending = ioq_prod_tail q - start in if pending > max_count then max_count else pending)"

definition io_sched_scan_ready :: "io_queue_t \<Rightarrow> u32 \<Rightarrow> u32 \<Rightarrow> u32" where
  "io_sched_scan_ready q start max_count = scan_loop q start (unat (scan_pending q start max_count)) 0"

definition io_sched_shutdown :: "io_queue_t \<Rightarrow> io_queue_t" where
  "io_sched_shutdown q = q\<lparr>ioq_shutdown := 1\<rparr>"

subsection \<open>Producers\<close>

datatype io_call = Sync | Async | Forget

datatype io_pc = N_wait | N_clear | N_write | N_seq | N_poll | N_flag | N_reset | N_ret

text \<open>Where the block of the scheduler is: the local variables are the head \<open>base_head\<close> and the number \<open>accumulated\<close>
  of requests in the batch, the entries of this round, which threads have looked at or loaded theirs, the
  delay before the batch is sorted, and how far each request of the batch is notified.\<close>

datatype notify_pc = V_seq | V_flag | V_victim | V_readers | V_free | V_next

datatype sched_pc =
    S_base | S_tail u32 u32 | S_check u32 u32 u32 "u32 \<Rightarrow> bool option" | S_load u32 u32 u32 "u32 \<Rightarrow> bool"
  | S_empty u32 | S_shutdown u32 | S_wait u32 u32 u32 | S_submit u32 u32 | S_notify u32 u32 "u32 \<Rightarrow> notify_pc"
  | S_move u32 u32 | S_exit

record victim_entries =
  ve_byte_offsets :: "nat \<Rightarrow> u64"
  ve_reader_counts :: "nat \<Rightarrow> u32"
  ve_states :: "nat \<Rightarrow> u32"

record io_sys =
  i_q :: io_queue_t
  i_n :: nat
  i_req :: "nat \<Rightarrow> io_request_t"
  i_kind :: "nat \<Rightarrow> io_call"
  i_pc :: "nat \<Rightarrow> io_pc"
  i_sched :: sched_pc
  i_got :: "u32 \<Rightarrow> io_request_t"
  i_batch :: "io_request_t list"
  i_drain_ns :: u32
  i_batch_count :: u64
  i_n_groups :: u32
  i_victim :: victim_entries
  i_drained :: "io_request_t list"

text \<open>The first action of \<open>io_sched_enqueue\<close> claims the slot.\<close>

definition io_sched_enqueue_start :: "io_call \<Rightarrow> u64 \<Rightarrow> u64 \<Rightarrow> u64 \<Rightarrow> u8 \<Rightarrow> io_sys \<Rightarrow> io_sys" where
  "io_sched_enqueue_start kind byte_offset n_bytes pc_entry opcode s =
     s\<lparr>i_n := i_n s + 1,
       i_req := (i_req s)(i_n s := io_request byte_offset n_bytes pc_entry opcode),
       i_kind := (i_kind s)(i_n s := kind),
       i_pc := (i_pc s)(i_n s := N_wait),
       i_q := (i_q s)\<lparr>ioq_prod_tail := ioq_prod_tail (i_q s) + 1\<rparr>\<rparr>"

definition io_sched_read :: "u64 \<Rightarrow> u64 \<Rightarrow> u64 \<Rightarrow> io_sys \<Rightarrow> io_sys" where
  "io_sched_read byte_offset n_bytes pc_entry =
     io_sched_enqueue_start Sync byte_offset n_bytes pc_entry (io_opcode NVM_IO_READ)"

definition io_sched_write :: "u64 \<Rightarrow> u64 \<Rightarrow> u64 \<Rightarrow> io_sys \<Rightarrow> io_sys" where
  "io_sched_write byte_offset n_bytes pc_entry =
     io_sched_enqueue_start Sync byte_offset n_bytes pc_entry (io_opcode NVM_IO_WRITE)"

definition io_sched_access :: "u64 \<Rightarrow> u64 \<Rightarrow> u64 \<Rightarrow> u8 \<Rightarrow> io_sys \<Rightarrow> io_sys" where
  "io_sched_access = io_sched_enqueue_start Sync"

definition io_sched_enqueue_forget :: "u64 \<Rightarrow> u64 \<Rightarrow> u64 \<Rightarrow> io_sys \<Rightarrow> io_sys" where
  "io_sched_enqueue_forget byte_offset n_bytes pc_entry =
     io_sched_enqueue_start Forget byte_offset n_bytes pc_entry (io_opcode NVM_IO_WRITE)"

definition io_sched_submit_read :: "u64 \<Rightarrow> u64 \<Rightarrow> u64 \<Rightarrow> io_sys \<Rightarrow> io_sys" where
  "io_sched_submit_read byte_offset n_bytes pc_entry =
     io_sched_enqueue_start Async byte_offset n_bytes pc_entry (io_opcode NVM_IO_READ)"

definition io_sched_submit_write :: "u64 \<Rightarrow> u64 \<Rightarrow> u64 \<Rightarrow> io_sys \<Rightarrow> io_sys" where
  "io_sched_submit_write byte_offset n_bytes pc_entry =
     io_sched_enqueue_start Async byte_offset n_bytes pc_entry (io_opcode NVM_IO_WRITE)"

definition io_sched_submit :: "u64 \<Rightarrow> u64 \<Rightarrow> u64 \<Rightarrow> u8 \<Rightarrow> io_sys \<Rightarrow> io_sys" where
  "io_sched_submit = io_sched_enqueue_start Async"

definition ngoto :: "nat \<Rightarrow> io_pc \<Rightarrow> io_sys \<Rightarrow> io_sys" where
  "ngoto c pc s = s\<lparr>i_pc := (i_pc s)(c := pc)\<rparr>"

text \<open>The test of the loop in which a synchronous caller waits.\<close>

definition not_done :: "io_queue_t \<Rightarrow> u32 \<Rightarrow> bool" where
  "not_done q slot = (let ticket = slot + 1 in ioq_done_seq q (unat (slot AND ioq_capacity_mask q)) < ticket)"

text \<open>\<open>io_sched_wait\<close>: the test of its loop, and the store after it.\<close>

definition io_sched_wait_test :: "io_queue_t \<Rightarrow> nat \<Rightarrow> bool" where
  "io_sched_wait_test q idx \<longleftrightarrow> ioq_done_flags q idx = 0"

definition io_sched_wait_release :: "io_queue_t \<Rightarrow> nat \<Rightarrow> io_queue_t" where
  "io_sched_wait_release q idx = q\<lparr>ioq_done_flags := (ioq_done_flags q)(idx := 0)\<rparr>"

definition after_enqueue :: "io_call \<Rightarrow> io_pc" where
  "after_enqueue kind = (case kind of Sync \<Rightarrow> N_poll | Async \<Rightarrow> N_flag | Forget \<Rightarrow> N_ret)"

definition io_sched_enqueue_step :: "nat \<Rightarrow> io_sys \<Rightarrow> io_sys" where
  "io_sched_enqueue_step c s =
     (let q = i_q s;
          slot = of_nat c :: u32;
          idx = unat (slot AND ioq_capacity_mask q)
      in case i_pc s c of
        N_wait \<Rightarrow> if slot - ioq_cons_head q \<ge> ioq_capacity q then s else ngoto c N_clear s
      | N_clear \<Rightarrow> ngoto c N_write (s\<lparr>i_q := q\<lparr>ioq_done_flags := (ioq_done_flags q)(idx := 0)\<rparr>\<rparr>)
      | N_write \<Rightarrow> ngoto c N_seq (s\<lparr>i_q := q\<lparr>ioq_entries := (ioq_entries q)(idx := i_req s c)\<rparr>\<rparr>)
      | N_seq \<Rightarrow>
          ngoto c (after_enqueue (i_kind s c)) (s\<lparr>i_q := q\<lparr>ioq_prod_seq := (ioq_prod_seq q)(idx := slot + 1)\<rparr>\<rparr>)
      | N_poll \<Rightarrow> if not_done q slot then s else ngoto c N_ret s
      | N_flag \<Rightarrow> if io_sched_wait_test q idx then s else ngoto c N_reset s
      | N_reset \<Rightarrow> ngoto c N_ret (s\<lparr>i_q := io_sched_wait_release q idx\<rparr>)
      | N_ret \<Rightarrow> s)"

subsection \<open>The scheduler\<close>

text \<open>The entries that are ready from the first one on: thread 0 adds up the ballots of the four warps.\<close>

definition ready_masks :: "u32 \<Rightarrow> (u32 \<Rightarrow> bool option) \<Rightarrow> u32 list" where
  "ready_masks round_max seen =
     map (\<lambda>w. ballot (\<lambda>lane. let tid = of_nat (w * 32 + lane) in tid < round_max \<and> seen tid = Some True)) [0..<4]"

fun consecutive_ready :: "u32 list \<Rightarrow> u32 \<Rightarrow> u32" where
  "consecutive_ready [] a = a"
| "consecutive_ready (wmask # wmasks) a =
     (if wmask = 0xFFFFFFFF then consecutive_ready wmasks (a + 32) else a + (of_nat (ffs (NOT wmask)) - 1))"

definition ready_count :: "u32 \<Rightarrow> (u32 \<Rightarrow> bool option) \<Rightarrow> u32" where
  "ready_count round_max seen =
     (let a = consecutive_ready (ready_masks round_max seen) 0 in if a > round_max then round_max else a)"

definition all_threads :: "(u32 \<Rightarrow> bool) \<Rightarrow> u32 \<Rightarrow> bool" where
  "all_threads p n = list_all (\<lambda>i. p (of_nat i)) [0..<unat n]"

text \<open>The accumulation of a batch. \<open>tid\<close> is the thread that acts in a phase in which all threads act; when all have
  acted, the block passes the barrier.\<close>

definition sched_drain_step :: "u32 \<Rightarrow> io_sys \<Rightarrow> io_sys" where
  "sched_drain_step tid s =
     (let q = i_q s; at = (\<lambda>slot :: u32. unat (slot AND ioq_capacity_mask q))
      in case i_sched s of
        S_base \<Rightarrow>
          s\<lparr>i_sched := S_tail (ioq_cons_head q) 0, i_batch := [],
            i_drain_ns := if i_batch_count s = 0 then 8192 else i_drain_ns s\<rparr>
      | S_tail base acc \<Rightarrow>
          let pending = ioq_prod_tail q - (base + acc);
              room = ioq_capacity q - acc;
              avail = (if pending < room then pending else room)
          in s\<lparr>i_sched := S_check base acc (if avail > kSchedThreads then kSchedThreads else avail) (\<lambda>_. None)\<rparr>
      | S_check base acc round_max seen \<Rightarrow>
          if all_threads (\<lambda>t. seen t \<noteq> None) round_max
          then s\<lparr>i_sched := S_load base acc (ready_count round_max seen) (\<lambda>_. False)\<rparr>
          else if tid < round_max then
            let my_slot = base + acc + tid
            in s\<lparr>i_sched := S_check base acc round_max (seen(tid \<mapsto> (ioq_prod_seq q (at my_slot) = my_slot + 1)))\<rparr>
          else s
      | S_load base acc avail loaded \<Rightarrow>
          if all_threads loaded avail then
            let s = s\<lparr>i_batch := i_batch s @ map (\<lambda>i. i_got s (of_nat i)) [0..<unat avail]\<rparr>;
                acc = acc + avail
            in if avail = kSchedThreads then s\<lparr>i_sched := S_tail base acc\<rparr>
               else if acc = 0 then s\<lparr>i_sched := S_empty base\<rparr>
               else s\<lparr>i_sched := S_wait base acc (i_drain_ns s)\<rparr>
          else if tid < avail then
            s\<lparr>i_sched := S_load base acc avail (loaded(tid := True)),
              i_got := (i_got s)(tid := ioq_entries q (at (base + acc + tid)))\<rparr>
          else s
      | S_empty base \<Rightarrow>
          if ioq_shutdown q \<noteq> 0 then s\<lparr>i_sched := S_shutdown base\<rparr> else s\<lparr>i_sched := S_tail base 0\<rparr>
      | S_shutdown base \<Rightarrow>
          if io_sched_scan_ready q base (ioq_capacity q) = 0 then s\<lparr>i_sched := S_exit\<rparr>
          else s\<lparr>i_sched := S_tail base 0\<rparr>
      | S_wait base acc ns \<Rightarrow>
          if ns < 64 then
            s\<lparr>i_sched := S_submit base acc, i_drain_ns := if i_drain_ns s > 64 then i_drain_ns s div 2 else i_drain_ns s\<rparr>
          else if io_sched_scan_ready q (base + acc) (ioq_capacity q - acc) > 0 then
            s\<lparr>i_sched := S_tail base acc, i_drain_ns := if i_drain_ns s < 8192 then i_drain_ns s * 2 else i_drain_ns s\<rparr>
          else s\<lparr>i_sched := S_wait base acc (ns div 2)\<rparr>
      | _ \<Rightarrow> s)"

text \<open>The notification of the producers and the release of the victim buffer entries; \<open>orig\<close> is the request a thread
  works on.\<close>

definition sched_notify_step :: "u32 \<Rightarrow> io_sys \<Rightarrow> io_sys" where
  "sched_notify_step orig s =
     (let q = i_q s
      in case i_sched s of
        S_notify base acc ph \<Rightarrow>
          if all_threads (\<lambda>v. ph v = V_next) acc then s\<lparr>i_sched := S_move base acc\<rparr>
          else if \<not> orig < acc then s
          else
            let ring_idx = unat ((base + orig) AND ioq_capacity_mask q);
                pe = rq_pc_entry (i_batch s ! unat orig);
                v_idx = unat (ucast (pe AND VICTIM_PC_ENTRY_MASK) :: u32);
                vb = i_victim s;
                next = (\<lambda>p. S_notify base acc (ph(orig := p)))
            in (case ph orig of
                  V_seq \<Rightarrow> s\<lparr>i_sched := next V_flag, i_q := q\<lparr>ioq_done_seq := (ioq_done_seq q)(ring_idx := base + orig + 1)\<rparr>\<rparr>
                | V_flag \<Rightarrow>
                    s\<lparr>i_sched := next (if pe AND VICTIM_PC_ENTRY_BIT \<noteq> 0 then V_victim else V_next),
                      i_q := q\<lparr>ioq_done_flags := (ioq_done_flags q)(ring_idx := 1)\<rparr>\<rparr>
                | V_victim \<Rightarrow>
                    s\<lparr>i_sched := next V_readers, i_victim := vb\<lparr>ve_byte_offsets := (ve_byte_offsets vb)(v_idx := - 1)\<rparr>\<rparr>
                | V_readers \<Rightarrow> s\<lparr>i_sched := next (if ve_reader_counts vb v_idx = 0 then V_free else V_next)\<rparr>
                | V_free \<Rightarrow>
                    s\<lparr>i_sched := next V_next, i_victim := vb\<lparr>ve_states := (ve_states vb)(v_idx := VICTIM_FREE)\<rparr>\<rparr>
                | V_next \<Rightarrow> s)
      | S_move base acc \<Rightarrow>
          s\<lparr>i_sched := S_base, i_batch_count := i_batch_count s + 1,
            i_q := q\<lparr>ioq_submitted_ios := ioq_submitted_ios q + ucast acc,
              ioq_merged_ios := ioq_merged_ios q + ucast (i_n_groups s), ioq_cons_head := ioq_cons_head q + acc\<rparr>\<rparr>
      | _ \<Rightarrow> s)"

text \<open>The loop of the kernel. \<open>groups\<close> is the number of commands the batch was merged into.\<close>

definition sched_step :: "u32 \<Rightarrow> u32 \<Rightarrow> io_sys \<Rightarrow> io_sys" where
  "sched_step tid groups s =
     (case i_sched s of
        S_submit base acc \<Rightarrow>
          s\<lparr>i_sched := S_notify base acc (\<lambda>_. V_seq), i_n_groups := groups, i_drained := i_drained s @ i_batch s\<rparr>
      | S_notify base acc ph \<Rightarrow> sched_notify_step tid s
      | S_move base acc \<Rightarrow> sched_notify_step tid s
      | S_exit \<Rightarrow> s
      | _ \<Rightarrow> sched_drain_step tid s)"

inductive io_step :: "io_sys \<Rightarrow> io_sys \<Rightarrow> bool" where
  call: "i_n s + 2 \<le> 2 ^ 32 \<Longrightarrow> io_step s (io_sched_enqueue_start kind byte_offset n_bytes pc_entry opcode s)"
| run: "c < i_n s \<Longrightarrow> io_step s (io_sched_enqueue_step c s)"
| sched: "io_step s (sched_step tid groups s)"
| evict: "io_step s (s\<lparr>i_victim := v\<rparr>)"
| stop: "io_step s (s\<lparr>i_q := io_sched_shutdown (i_q s)\<rparr>)"

definition io_init :: "io_queue_t \<Rightarrow> io_sys" where
  "io_init q =
     \<lparr>i_q = q, i_n = 0, i_req = (\<lambda>_. io_request 0 0 0 0), i_kind = (\<lambda>_. Sync), i_pc = (\<lambda>_. N_wait),
      i_sched = S_base, i_got = (\<lambda>_. io_request 0 0 0 0), i_batch = [], i_drain_ns = 0, i_batch_count = 0, i_n_groups = 0,
      i_victim = \<lparr>ve_byte_offsets = (\<lambda>_. - 1), ve_reader_counts = (\<lambda>_. 0), ve_states = (\<lambda>_. VICTIM_FREE)\<rparr>,
      i_drained = []\<rparr>"

text \<open>A queue as \<open>io_sched_create\<close> leaves it.\<close>

definition fresh_queue :: "nat \<Rightarrow> io_queue_t \<Rightarrow> bool" where
  "fresh_queue k q \<longleftrightarrow>
     k < 32 \<and> ioq_capacity q = 2 ^ k \<and> ioq_capacity_mask q = ioq_capacity q - 1 \<and> ioq_prod_tail q = 0 \<and>
     ioq_cons_head q = 0 \<and> (\<forall>p < 2 ^ k. ioq_prod_seq q p = 0 \<and> ioq_done_seq q p = 0)"

inductive io_reach :: "nat \<Rightarrow> io_sys \<Rightarrow> bool" for k where
  init: "fresh_queue k q \<Longrightarrow> io_reach k (io_init q)"
| step: "io_reach k s \<Longrightarrow> io_step s s' \<Longrightarrow> io_reach k s'"

lemma key_index_bits: "unat kSortKeyIndexBits = 9"
  by (simp add: kSortKeyIndexBits_def kSchedMaxBatch_def IO_SCHED_MAX_BATCH_def)

lemma key_index_mask: "kSortKeyIndexMask = mask 9"
  by (simp add: kSortKeyIndexMask_def key_index_bits mask_eq_exp_minus_1 push_bit_eq_mult)

lemma unat_make_sort_key:
  assumes "off < 2 ^ 55" "i < 512"
  shows "unat (io_sched_make_sort_key off i) = unat off * 512 + unat i"
proof -
  have i: "(ucast i AND mask 9 :: u64) = ucast i"
    using assms(2) by (simp add: word_unat_eq_iff unat_ucast_mod unat_take_bit word_less_nat_alt flip: take_bit_eq_mask)
  have d: "push_bit 9 off OR ucast i = push_bit 9 off + (ucast i :: u64)"
  proof (rule disjunctive_add[symmetric])
    fix n
    have "\<not> bit (ucast i :: u64) n" if "9 \<le> n"
      using that arg_cong[OF i, of "\<lambda>w. bit w n"] by (simp add: bit_simps)
    then show "\<not> bit (push_bit 9 off) n \<or> \<not> bit (ucast i :: u64) n"
      by (auto simp: bit_simps)
  qed
  have o: "unat off < 2 ^ 55" "unat i < 512"
    using assms by (simp_all add: word_less_nat_alt)
  have "unat (push_bit 9 off) = unat off * 512"
    using o(1) by (simp add: push_bit_eq_mult unat_word_ariths)
  moreover have "unat (ucast i :: u64) = unat i"
    using o(2) by (simp add: unat_ucast_mod)
  ultimately show ?thesis
    using o by (simp add: io_sched_make_sort_key_def key_index_bits key_index_mask i d unat_word_ariths)
qed

text \<open>Sort keys. For offsets below \<open>2\<^sup>5\<^sup>5\<close> and batch indices below the batch size, a key gives back the
  offset and the index it was made of, the order of the keys is the order of the offsets with the
  index as tie-breaker, and no key but that of the last offset and index is the padding value.\<close>

theorem sort_key_spec:
  assumes "off < 2 ^ 55" "off' < 2 ^ 55" "i < kSchedMaxBatch" "i' < kSchedMaxBatch"
  shows "io_sched_key_byte_offset (io_sched_make_sort_key off i) = off \<and>
    io_sched_key_batch_index (io_sched_make_sort_key off i) = i \<and>
    (io_sched_make_sort_key off i \<le> io_sched_make_sort_key off' i' \<longleftrightarrow> off < off' \<or> off = off' \<and> i \<le> i') \<and>
    (io_sched_make_sort_key off i = - 1 \<longleftrightarrow> off = 2 ^ 55 - 1 \<and> i = kSchedMaxBatch - 1)"
proof -
  have b: "unat off < 2 ^ 55" "unat off' < 2 ^ 55" "i < 512" "i' < 512" "unat i < 512" "unat i' < 512"
    using assms by (simp_all add: word_less_nat_alt kSchedMaxBatch_def IO_SCHED_MAX_BATCH_def)
  note k = unat_make_sort_key[OF assms(1) b(3)] unat_make_sort_key[OF assms(2) b(4)]
  have "io_sched_key_byte_offset (io_sched_make_sort_key off i) = off"
    using b by (simp add: word_unat_eq_iff io_sched_key_byte_offset_def key_index_bits unat_drop_bit k)
  moreover have "io_sched_key_batch_index (io_sched_make_sort_key off i) = i"
    using b by (simp add: word_unat_eq_iff io_sched_key_batch_index_def key_index_mask unat_ucast_mod unat_take_bit k
        flip: take_bit_eq_mask)
  moreover have "io_sched_make_sort_key off i \<le> io_sched_make_sort_key off' i' \<longleftrightarrow> off < off' \<or> off = off' \<and> i \<le> i'"
    using b by (auto simp add: word_le_nat_alt word_less_nat_alt word_unat_eq_iff k)
  moreover have "unat (- 1 :: u64) = (2 ^ 55 - 1) * 512 + 511"
    by (simp add: unsigned_minus_1_eq_mask mask_eq_exp_minus_1)
  then have "io_sched_make_sort_key off i = - 1 \<longleftrightarrow> off = 2 ^ 55 - 1 \<and> i = kSchedMaxBatch - 1"
    using b by (simp add: word_unat_eq_iff k kSchedMaxBatch_def IO_SCHED_MAX_BATCH_def) linarith
  ultimately show ?thesis
    by blast
qed

theorem sort_key_spec_witness:
  "io_sched_key_byte_offset (io_sched_make_sort_key 0x100000 7) = 0x100000 \<and>
   io_sched_make_sort_key 0x100000 7 \<le> io_sched_make_sort_key 0x100000 8 \<and>
   io_sched_make_sort_key 0x100000 7 \<noteq> - 1"
  using sort_key_spec[of "0x100000" "0x100000" 7 8]
  by (simp add: kSchedMaxBatch_def IO_SCHED_MAX_BATCH_def)

lemma find_upt_Some:
  assumes "P i" "i < n" "\<And>j. j < i \<Longrightarrow> \<not> P j"
  shows "find P [0..<n] = Some i"
  using assms by (auto simp: find_Some_iff intro!: exI[of _ i])

text \<open>Sizes. The encoded size of a request is the exponent of the largest power of two that divides
  it: decoding gives that power, and the size itself exactly when it is a power of two.\<close>

theorem nbytes_roundtrip:
  assumes "n \<noteq> 0"
  shows "(\<exists>i < 64. io_sched_encode_nbytes n = of_nat i \<and> io_sched_decode_nbytes (io_sched_encode_nbytes n) = 2 ^ i \<and>
      2 ^ i dvd unat n \<and> \<not> 2 ^ Suc i dvd unat n) \<and>
    (io_sched_decode_nbytes (io_sched_encode_nbytes n) = n \<longleftrightarrow> (\<exists>i < 64. n = 2 ^ i))"
proof -
  define i where "i = (LEAST i. bit n i)"
  have ex: "\<exists>i. bit n i"
    using assms by (metis bit_0_eq bit_word_eqI bot_apply bot_bool_def)
  then have bi: "bit n i" and least: "\<And>j. j < i \<Longrightarrow> \<not> bit n j"
    unfolding i_def by (rule LeastI_ex) (rule not_less_Least)
  have i: "i < 64"
    using bit_imp_le_length[OF bi] by simp
  have "ffsll n = Suc i"
    using find_upt_Some[of "bit n" i 64] bi least i by (simp add: ffsll_def)
  then have e: "io_sched_encode_nbytes n = of_nat i"
    by (simp add: io_sched_encode_nbytes_def)
  have d: "io_sched_decode_nbytes (io_sched_encode_nbytes n) = 2 ^ i"
    using i unfolding e io_sched_decode_nbytes_def by (simp add: unat_of_nat push_bit_eq_mult take_bit_nat_eq_self)
  have "take_bit i n = 0"
    using least by (intro bit_word_eqI) (auto simp: bit_simps)
  then have dv: "2 ^ i dvd unat n"
    using unat_take_bit[of i n] by (simp add: dvd_eq_mod_eq_0)
  have odd: "odd (unat n div 2 ^ i)"
    using bi unsigned_less[of n, where 'a = nat] by (simp add: bit_unsigned_iff flip: bit_iff_odd)
  have nd: "\<not> 2 ^ Suc i dvd unat n"
  proof
    assume "2 ^ Suc i dvd unat n"
    then obtain m where "unat n = 2 ^ i * (2 * m)"
      by (auto simp: dvd_def mult.assoc)
    then show False
      using odd by simp
  qed
  have pow: "n = 2 ^ i" if "j < 64" "n = 2 ^ j" for j
    using that bi by (simp add: bit_simps)
  have "2 ^ i = n \<longleftrightarrow> (\<exists>j < 64. n = 2 ^ j)"
  proof
    assume "2 ^ i = n"
    then show "\<exists>j < 64. n = 2 ^ j"
      using i by (intro exI[of _ i] conjI) (rule i, rule sym)
  next
    assume "\<exists>j < 64. n = 2 ^ j"
    then show "2 ^ i = n"
      by (elim exE conjE) (rule sym[OF pow])
  qed
  then have "io_sched_decode_nbytes (io_sched_encode_nbytes n) = n \<longleftrightarrow> (\<exists>i < 64. n = 2 ^ i)"
    by (simp only: d)
  then show ?thesis
    using i e d dv nd by blast
qed

theorem nbytes_roundtrip_witness:
  "io_sched_decode_nbytes (io_sched_encode_nbytes 4096) = 4096 \<and>
   io_sched_decode_nbytes (io_sched_encode_nbytes 12288) \<noteq> 12288"
proof -
  have "(12288 :: u64) \<noteq> 2 ^ i" if "i < 64" for i
  proof
    assume "(12288 :: u64) = 2 ^ i"
    then have "unat (12288 :: u64) = unat (2 ^ i :: u64)"
      by (rule arg_cong)
    then have "(12288 :: nat) = 2 ^ i"
      using that by (simp add: unat_power2)
    moreover have "i < 14 \<or> 14 \<le> i" by linarith
    ultimately show False
      using power_increasing[of 14 i "2::nat"] power_increasing[of i 13 "2::nat"] by auto
  qed
  moreover have "\<exists>i < 64. (4096 :: u64) = 2 ^ i"
    by (intro exI[of _ 12]) simp
  ultimately show ?thesis
    using conjunct2[OF nbytes_roundtrip[of 4096]] conjunct2[OF nbytes_roundtrip[of 12288]] by force
qed

subsection \<open>Counting ready entries\<close>

lemma bit_ballot: "bit (ballot p) l \<longleftrightarrow> l < 32 \<and> p l"
  by (auto simp: ballot_def bit_horner_sum_bit_word_iff simp del: upt_rec_numeral)

lemma ffs_lowest:
  assumes "bit m k" "\<And>j. j < k \<Longrightarrow> \<not> bit m j"
  shows "ffs m = Suc k"
proof -
  have "k < 32"
    using bit_imp_le_length[OF assms(1)] by simp
  then show ?thesis
    using find_upt_Some[of "bit m" k 32, OF assms(1) _ assms(2)] by (simp add: ffs_def del: upt_rec_numeral)
qed

lemma ballot_full: "ballot p = 0xFFFFFFFF \<longleftrightarrow> (\<forall>l < 32. p l)"
proof -
  have full: "(0xFFFFFFFF :: u32) = - 1"
    by simp
  show ?thesis
    unfolding full by (auto simp: bit_eq_iff bit_ballot)
qed

lemma ballot_first_clear:
  assumes "k < 32" "\<not> p k" "\<And>j. j < k \<Longrightarrow> p j"
  shows "ffs (NOT (ballot p)) = Suc k"
  using assms by (intro ffs_lowest) (auto simp: bit_simps bit_ballot)

lemma consecutive_ready_spec:
  "\<exists>j \<le> 32 * n. consecutive_ready (map (\<lambda>w. ballot (\<lambda>lane. p (w * 32 + lane))) [m..<m + n]) a = a + of_nat j \<and>
     (\<forall>t < j. p (m * 32 + t)) \<and> (j < 32 * n \<longrightarrow> \<not> p (m * 32 + j))"
proof (induction n arbitrary: m a)
  case (Suc n)
  have l: "[m..<m + Suc n] = m # [Suc m..<Suc m + n]"
    by (simp add: upt_conv_Cons)
  show ?case
  proof (cases "\<forall>l < 32. p (m * 32 + l)")
    case True
    obtain j where j: "j \<le> 32 * n" "consecutive_ready (map (\<lambda>w. ballot (\<lambda>lane. p (w * 32 + lane))) [Suc m..<Suc m + n]) (a + 32) =
        a + 32 + of_nat j" "\<forall>t < j. p (Suc m * 32 + t)" "j < 32 * n \<longrightarrow> \<not> p (Suc m * 32 + j)"
      using Suc[of "Suc m" "a + 32"] by blast
    have "p (m * 32 + t)" if "t < 32 + j" for t
      using True j(3)[rule_format, of "t - 32"] that by (cases "t < 32") (auto simp: add.assoc)
    then show ?thesis
      using True j unfolding l by (intro exI[of _ "32 + j"]) (auto simp: ballot_full add.assoc ac_simps)
  next
    case False
    define k where "k = (LEAST l. \<not> p (m * 32 + l))"
    have k: "\<not> p (m * 32 + k)" "\<And>j. j < k \<Longrightarrow> p (m * 32 + j)"
      using False LeastI_ex[of "\<lambda>l. \<not> p (m * 32 + l)"] not_less_Least[of _ "\<lambda>l. \<not> p (m * 32 + l)"] by (auto simp: k_def)
    have "k < 32"
      using False k(2) by (metis less_trans linorder_neqE_nat)
    then have "ffs (NOT (ballot (\<lambda>lane. p (m * 32 + lane)))) = Suc k"
      using k by (intro ballot_first_clear)
    then show ?thesis
      using False k \<open>k < 32\<close> unfolding l by (intro exI[of _ k]) (auto simp: ballot_full)
  qed
qed simp

text \<open>The ballots count what a scan from the first entry on finds: the ready entries before the first that is not.\<close>

lemma ready_count_eq:
  assumes "round_max \<le> kSchedThreads"
  shows "unat (ready_count round_max seen) = length (takeWhile (\<lambda>t. seen (of_nat t) = Some True) [0..<unat round_max])"
proof -
  let ?p = "\<lambda>t. (of_nat t :: u32) < round_max \<and> seen (of_nat t) = Some True"
  have n: "unat round_max \<le> 128"
    using assms by (simp add: kSchedThreads_def word_le_nat_alt)
  obtain j where j: "j \<le> 128" "consecutive_ready (ready_masks round_max seen) 0 = of_nat j" "\<forall>t < j. ?p t" "j < 128 \<longrightarrow> \<not> ?p j"
    using consecutive_ready_spec[of 4 ?p 0 0] by (auto simp: ready_masks_def Let_def simp del: upt_rec_numeral)
  have lt: "(of_nat t :: u32) < round_max \<longleftrightarrow> t < unat round_max" if "t \<le> 128" for t
    using that unat_slot[of t] by (simp add: word_less_nat_alt)
  have jn: "j \<le> unat round_max"
    using j(1,3) lt[of "j - 1"] by (cases j) auto
  have "takeWhile (\<lambda>t. seen (of_nat t) = Some True) [0..<unat round_max] = take j [0..<unat round_max]"
    using j n lt jn by (intro takeWhile_eq_take_P_nth) auto
  moreover have "unat (of_nat j :: u32) = j"
    using j(1) by (intro unat_slot) simp
  ultimately show ?thesis
    using jn j(2) by (simp add: ready_count_def Let_def word_less_nat_alt min_def)
qed

lemma ready_count_sound:
  assumes "round_max \<le> kSchedThreads"
  shows "unat (ready_count round_max seen) \<le> unat round_max \<and>
    (\<forall>t < unat (ready_count round_max seen). seen (of_nat t) = Some True)"
proof -
  let ?w = "takeWhile (\<lambda>t. seen (of_nat t) = Some True) [0..<unat round_max]"
  have le: "length ?w \<le> unat round_max"
    using length_takeWhile_le[of _ "[0..<unat round_max]"] by simp
  have "seen (of_nat t) = Some True" if "t < length ?w" for t
  proof -
    have "?w ! t = t"
      using that le by (simp add: takeWhile_nth)
    then show ?thesis
      using nth_mem[OF that] by (auto dest!: set_takeWhileD)
  qed
  then show ?thesis
    using le unfolding ready_count_eq[OF assms] by blast
qed

subsection \<open>Invariant\<close>

definition head_of :: "io_sys \<Rightarrow> nat" where "head_of s = unat (ioq_cons_head (i_q s))"

definition published :: "io_pc \<Rightarrow> bool" where "published pc \<longleftrightarrow> pc \<in> {N_poll, N_flag, N_reset, N_ret}"
definition stored :: "io_pc \<Rightarrow> bool" where "stored pc \<longleftrightarrow> pc = N_seq \<or> published pc"

definition knv_shape :: "nat \<Rightarrow> io_sys \<Rightarrow> bool" where
  "knv_shape k s \<longleftrightarrow> k < 32 \<and> ioq_capacity (i_q s) = 2 ^ k \<and> ioq_capacity_mask (i_q s) = 2 ^ k - 1 \<and>
     ioq_prod_tail (i_q s) = of_nat (i_n s) \<and> i_n s < 2 ^ 32 \<and> (\<forall>c \<ge> i_n s. i_pc s c = N_wait)"

definition knv_calls :: "nat \<Rightarrow> io_sys \<Rightarrow> bool" where
  "knv_calls k s \<longleftrightarrow> (\<forall>c. i_pc s c \<noteq> N_wait \<longrightarrow> c < head_of s + 2 ^ k) \<and> (\<forall>c < head_of s. published (i_pc s c))"

definition slot_ok :: "nat \<Rightarrow> io_sys \<Rightarrow> nat \<Rightarrow> bool" where
  "slot_ok k s c \<longleftrightarrow>
     (if published (i_pc s c) then unat (ioq_prod_seq (i_q s) (c mod 2 ^ k)) = c + 1
      else unat (ioq_prod_seq (i_q s) (c mod 2 ^ k)) \<le> c) \<and>
     (stored (i_pc s c) \<longrightarrow> ioq_entries (i_q s) (c mod 2 ^ k) = i_req s c)"

definition knv_ring :: "nat \<Rightarrow> io_sys \<Rightarrow> bool" where
  "knv_ring k s \<longleftrightarrow> (\<forall>c. head_of s \<le> c \<longrightarrow> c < head_of s + 2 ^ k \<longrightarrow> slot_ok k s c)"

text \<open>What the scheduler has taken: \<open>a\<close> requests from the head are known to be published.\<close>

definition taken :: "nat \<Rightarrow> io_sys \<Rightarrow> u32 \<Rightarrow> nat \<Rightarrow> bool" where
  "taken k s base a \<longleftrightarrow> base = ioq_cons_head (i_q s) \<and> a \<le> 2 ^ k \<and> head_of s + a \<le> i_n s \<and>
     (\<forall>c < head_of s + a. published (i_pc s c))"

definition batch_is :: "io_sys \<Rightarrow> nat \<Rightarrow> bool" where
  "batch_is s a \<longleftrightarrow> i_batch s = map (i_req s) [head_of s..<head_of s + a]"

definition drained_is :: "io_sys \<Rightarrow> nat \<Rightarrow> bool" where
  "drained_is s a \<longleftrightarrow> i_drained s = map (i_req s) [0..<head_of s + a]"

fun knv_local :: "nat \<Rightarrow> io_sys \<Rightarrow> sched_pc \<Rightarrow> bool" where
  "knv_local k s S_base = drained_is s 0"
| "knv_local k s (S_tail base acc) = (taken k s base (unat acc) \<and> batch_is s (unat acc) \<and> drained_is s 0)"
| "knv_local k s (S_check base acc round_max seen) =
     (taken k s base (unat acc) \<and> batch_is s (unat acc) \<and> drained_is s 0 \<and> unat acc + unat round_max \<le> 2 ^ k \<and>
      head_of s + unat acc + unat round_max \<le> i_n s \<and> round_max \<le> kSchedThreads \<and>
      (\<forall>t < unat round_max. seen (of_nat t) = Some True \<longrightarrow> published (i_pc s (head_of s + unat acc + t))))"
| "knv_local k s (S_load base acc avail loaded) =
     (taken k s base (unat acc + unat avail) \<and> batch_is s (unat acc) \<and> drained_is s 0 \<and>
      (\<forall>t < unat avail. loaded (of_nat t) \<longrightarrow> i_got s (of_nat t) = i_req s (head_of s + unat acc + t)))"
| "knv_local k s (S_empty base) = (taken k s base 0 \<and> batch_is s 0 \<and> drained_is s 0)"
| "knv_local k s (S_shutdown base) = (taken k s base 0 \<and> batch_is s 0 \<and> drained_is s 0)"
| "knv_local k s (S_wait base acc ns) = (taken k s base (unat acc) \<and> batch_is s (unat acc) \<and> drained_is s 0)"
| "knv_local k s (S_submit base acc) = (taken k s base (unat acc) \<and> batch_is s (unat acc) \<and> drained_is s 0)"
| "knv_local k s (S_notify base acc ph) = (taken k s base (unat acc) \<and> drained_is s (unat acc))"
| "knv_local k s (S_move base acc) = (taken k s base (unat acc) \<and> drained_is s (unat acc))"
| "knv_local k s S_exit = drained_is s 0"

fun notified :: "sched_pc \<Rightarrow> nat \<Rightarrow> bool" where
  "notified (S_notify base acc ph) v = (v < unat acc \<and> ph (of_nat v) \<noteq> V_seq)"
| "notified (S_move base acc) v = (v < unat acc)"
| "notified _ v = False"

definition completed :: "io_sys \<Rightarrow> nat \<Rightarrow> bool" where
  "completed s c \<longleftrightarrow> c < head_of s \<or> notified (i_sched s) (c - head_of s)"

definition seq_ok :: "nat \<Rightarrow> io_sys \<Rightarrow> bool" where
  "seq_ok k s \<longleftrightarrow> (\<forall>c. completed s c \<longrightarrow> c + 1 \<le> unat (ioq_done_seq (i_q s) (c mod 2 ^ k))) \<and>
     (\<forall>p < 2 ^ k. ioq_done_seq (i_q s) p = 0 \<or>
        (\<exists>c. c mod 2 ^ k = p \<and> completed s c \<and> unat (ioq_done_seq (i_q s) p) = c + 1))"

definition rets_ok :: "io_sys \<Rightarrow> bool" where
  "rets_ok s \<longleftrightarrow> (\<forall>c. i_pc s c = N_ret \<longrightarrow> i_kind s c = Sync \<longrightarrow> completed s c) \<and>
     (\<forall>c. i_pc s c = N_poll \<longrightarrow> i_kind s c = Sync) \<and> (\<forall>c. i_pc s c \<in> {N_flag, N_reset} \<longrightarrow> i_kind s c = Async)"

definition io_inv :: "nat \<Rightarrow> io_sys \<Rightarrow> bool" where
  "io_inv k s \<longleftrightarrow> knv_shape k s \<and> knv_calls k s \<and> knv_ring k s \<and> knv_local k s (i_sched s) \<and> seq_ok k s \<and> rets_ok s"

subsection \<open>Arithmetic of slots\<close>

lemma slot_index: "c < 2 ^ 32 \<Longrightarrow> k < 32 \<Longrightarrow> unat (of_nat c AND (2 ^ k - 1) :: u32) = c mod 2 ^ k"
  by (simp add: unat_take_bit unat_slot flip: mask_eq_exp_minus_1 take_bit_eq_mask)

lemma word_and_slot: "k < 32 \<Longrightarrow> unat (w AND (2 ^ k - 1) :: u32) = unat w mod 2 ^ k"
  by (simp add: unat_take_bit flip: mask_eq_exp_minus_1 take_bit_eq_mask)

text \<open>Two slots of one window share an index only when they are equal.\<close>

lemma window_inj:
  fixes c c' h n :: nat
  assumes "c mod n = c' mod n" "h \<le> c" "c < h + n" "h \<le> c'" "c' < h + n"
  shows "c = c'"
proof -
  have *: "c = c'" if "c mod n = c' mod n" "c \<le> c'" "c' < c + n" for c c'
  proof -
    have "n dvd c' - c"
      using that(1,2) by (subst mod_eq_dvd_iff_nat[symmetric]) simp_all
    then have "c' - c = 0"
      using that(3) nat_dvd_not_less[of "c' - c" n] by linarith
    then show ?thesis
      using that(2) by simp
  qed
  show ?thesis
    using *[of c c'] *[of c' c] assms by (cases "c \<le> c'") simp_all
qed

lemma of_nat_add_head: "of_nat (unat h + a) = h + (of_nat a :: u32)"
  by simp

lemma unat_head_add: "unat h + a < 2 ^ 32 \<Longrightarrow> unat (h + of_nat a :: u32) = unat h + a"
  using unat_slot[of "unat h + a"] by simp

subsection \<open>Producers keep the invariant\<close>

lemma ngoto_simps [simp]:
  "i_q (ngoto c pc s) = i_q s" "i_n (ngoto c pc s) = i_n s" "i_req (ngoto c pc s) = i_req s"
  "i_kind (ngoto c pc s) = i_kind s" "i_sched (ngoto c pc s) = i_sched s" "i_batch (ngoto c pc s) = i_batch s"
  "i_got (ngoto c pc s) = i_got s"
  "i_drained (ngoto c pc s) = i_drained s" "i_pc (ngoto c pc s) = (i_pc s)(c := pc)" "head_of (ngoto c pc s) = head_of s"
  by (simp_all add: ngoto_def head_of_def)

lemma taken_mono:
  "taken k s base a \<Longrightarrow> ioq_cons_head (i_q t) = ioq_cons_head (i_q s) \<Longrightarrow> i_n s \<le> i_n t \<Longrightarrow>
   (\<And>c. published (i_pc s c) \<Longrightarrow> published (i_pc t c)) \<Longrightarrow> taken k t base a"
  unfolding taken_def head_of_def by auto

lemma knv_local_mono:
  assumes "knv_local k s pc" "ioq_cons_head (i_q t) = ioq_cons_head (i_q s)" "i_n s \<le> i_n t"
    and "\<And>c. published (i_pc s c) \<Longrightarrow> published (i_pc t c)" "i_batch t = i_batch s" "i_drained t = i_drained s"
    and "\<And>c. c < i_n s \<Longrightarrow> i_req t c = i_req s c" "i_got t = i_got s" "head_of s \<le> i_n s"
  shows "knv_local k t pc"
proof -
  have h: "head_of t = head_of s"
    using assms(2) by (simp add: head_of_def)
  have t: "taken k t base a" if "taken k s base a" for base a
    using that assms(2-4) by (rule taken_mono)
  have b: "batch_is t a" if "batch_is s a" "head_of s + a \<le> i_n s" for a
    using that assms(5,7) by (auto simp: batch_is_def h)
  have d: "drained_is t a" if "drained_is s a" "head_of s + a \<le> i_n s" for a
    using that assms(6,7) by (auto simp: drained_is_def h)
  show ?thesis
  proof (cases pc)
    case (S_load base acc avail loaded)
    then have "head_of s + unat acc + unat avail \<le> i_n s"
      using assms(1) by (simp add: taken_def)
    then show ?thesis
      using assms(1,7) S_load by (simp add: h assms(8); intro conjI t b d; simp add: assms(9))
  qed (use assms(1,3,4,9) in \<open>simp add: h word_le_nat_alt; (intro conjI t b d)?; simp add: taken_def\<close>)+
qed

lemma completed_cong: "head_of t = head_of s \<Longrightarrow> i_sched t = i_sched s \<Longrightarrow> completed t = completed s"
  by (simp add: completed_def fun_eq_iff)

lemma notified_bound: "knv_local k s pc \<Longrightarrow> notified pc v \<Longrightarrow> v < 2 ^ k \<and> head_of s + v < i_n s"
  by (cases pc) (auto simp: taken_def)

lemma completed_bound:
  assumes "io_inv k s" "completed s c"
  shows "c < head_of s + 2 ^ k \<and> c < i_n s"
proof (cases "c < head_of s")
  case True
  then have "i_pc s c \<noteq> N_wait"
    using assms(1) by (auto simp: io_inv_def knv_calls_def published_def)
  then show ?thesis
    using True assms(1) by (metis io_inv_def knv_shape_def not_le trans_less_add1)
next
  case False
  then have "notified (i_sched s) (c - head_of s)"
    using assms(2) by (simp add: completed_def)
  then show ?thesis
    using notified_bound[of k s "i_sched s" "c - head_of s"] assms(1) False by (auto simp: io_inv_def)
qed

lemma head_le: "io_inv k s \<Longrightarrow> head_of s \<le> i_n s"
  using completed_bound[of k s "head_of s - 1"] by (cases "head_of s") (auto simp: completed_def)

lemma inv_window:
  assumes "io_inv k s" "i_pc s c \<noteq> N_wait" "\<not> published (i_pc s c)"
  shows "head_of s \<le> c \<and> c < head_of s + 2 ^ k"
  using assms by (auto simp: io_inv_def knv_calls_def not_less)

lemma inv_index:
  assumes "io_inv k s" "c < i_n s"
  shows "unat (of_nat c AND ioq_capacity_mask (i_q s)) = c mod 2 ^ k" "unat (of_nat c :: u32) = c"
  using assms by (simp_all add: io_inv_def knv_shape_def slot_index unat_slot)

text \<open>A step of the producer \<open>c\<close> that may write the entry and the sequence number of its own slot.\<close>

lemma inv_producer:
  assumes "io_inv k s" "c < i_n s" "t = ngoto c pc (s\<lparr>i_q := q\<rparr>)"
    and "ioq_capacity q = ioq_capacity (i_q s)" "ioq_capacity_mask q = ioq_capacity_mask (i_q s)"
    and "ioq_prod_tail q = ioq_prod_tail (i_q s)" "ioq_cons_head q = ioq_cons_head (i_q s)"
    and "ioq_done_seq q = ioq_done_seq (i_q s)"
    and "\<And>p. p \<noteq> c mod 2 ^ k \<Longrightarrow> ioq_prod_seq q p = ioq_prod_seq (i_q s) p \<and> ioq_entries q p = ioq_entries (i_q s) p"
    and "published (i_pc s c) \<Longrightarrow> published pc" "c < head_of s + 2 ^ k" "head_of s \<le> c \<Longrightarrow> slot_ok k t c"
    and "c < head_of s \<Longrightarrow> ioq_prod_seq q = ioq_prod_seq (i_q s) \<and> ioq_entries q = ioq_entries (i_q s)"
    and "rets_ok t"
  shows "io_inv k t"
proof -
  have h: "head_of t = head_of s"
    using assms(3,7) by (simp add: head_of_def ngoto_def)
  have p: "published (i_pc t c')" if "published (i_pc s c')" for c'
    using that assms(10) by (auto simp: assms(3))
  have "knv_shape k t"
    using assms(1-6) by (simp add: io_inv_def knv_shape_def)
  moreover have "knv_calls k t"
    using assms(1,3,11) p unfolding io_inv_def knv_calls_def h by auto
  moreover have "slot_ok k t c'" if w: "head_of s \<le> c'" "c' < head_of s + 2 ^ k" for c'
  proof (cases "c' = c")
    case True
    then show ?thesis using assms(12) w by simp
  next
    case False
    then have "c' mod 2 ^ k \<noteq> c mod 2 ^ k \<or> c < head_of s"
      using window_inj[of c' "2 ^ k" c "head_of s"] w assms(11) by linarith
    then have "ioq_prod_seq q (c' mod 2 ^ k) = ioq_prod_seq (i_q s) (c' mod 2 ^ k)"
      "ioq_entries q (c' mod 2 ^ k) = ioq_entries (i_q s) (c' mod 2 ^ k)"
      using assms(9,13) by auto
    moreover have "slot_ok k s c'"
      using w assms(1) by (simp add: io_inv_def knv_ring_def)
    ultimately show ?thesis
      using False assms(3) by (simp add: slot_ok_def)
  qed
  then have "knv_ring k t"
    by (simp add: knv_ring_def h)
  moreover have "knv_local k s (i_sched s)"
    using assms(1) by (simp add: io_inv_def)
  then have "knv_local k t (i_sched s)"
    by (rule knv_local_mono) (use assms(3,7) p head_le[OF assms(1)] in simp_all)
  moreover have "completed t = completed s"
    using h assms(3) by (intro completed_cong) simp_all
  then have "seq_ok k t"
    using assms(1,8) unfolding io_inv_def seq_ok_def by (simp add: assms(3))
  ultimately show ?thesis
    using assms(3,14) by (simp add: io_inv_def)
qed

lemma poll_completed:
  assumes "io_inv k s" "c < i_n s" "i_pc s c \<noteq> N_wait" "\<not> not_done (i_q s) (of_nat c)"
  shows "completed s c"
proof -
  let ?d = "ioq_done_seq (i_q s) (c mod 2 ^ k)"
  have n: "i_n s < 2 ^ 32" "k < 32"
    using assms(1) by (simp_all add: io_inv_def knv_shape_def)
  have "unat (of_nat c + 1 :: u32) = c + 1"
    using n assms(2) unat_slot[of "c + 1"] by (simp add: add.commute)
  then have le: "c + 1 \<le> unat ?d"
    using assms(4) inv_index[OF assms(1,2)] by (simp add: not_done_def word_less_nat_alt not_less)
  then have "?d \<noteq> 0"
    by auto
  moreover have "\<forall>p < 2 ^ k. ioq_done_seq (i_q s) p = 0 \<or>
      (\<exists>c. c mod 2 ^ k = p \<and> completed s c \<and> unat (ioq_done_seq (i_q s) p) = c + 1)"
    using assms(1) unfolding io_inv_def seq_ok_def by blast
  ultimately obtain c' where c': "c' mod 2 ^ k = c mod 2 ^ k" "completed s c'" "unat ?d = c' + 1"
    by (metis mod_less_divisor zero_less_numeral zero_less_power)
  have "c' < head_of s + 2 ^ k"
    using completed_bound[OF assms(1) c'(2)] by simp
  then have "c = c' \<or> c < head_of s"
    using window_inj[of c "2 ^ k" c' "head_of s"] c'(1,3) le by linarith
  then show ?thesis
    using c'(2) by (auto simp: completed_def)
qed

lemma rets_goto:
  assumes "rets_ok s" "t = ngoto c pc (s\<lparr>i_q := q\<rparr>)" "ioq_cons_head q = ioq_cons_head (i_q s)"
    and "pc = N_ret \<Longrightarrow> i_kind s c = Sync \<Longrightarrow> completed s c" "pc = N_poll \<Longrightarrow> i_kind s c = Sync"
    and "pc \<in> {N_flag, N_reset} \<Longrightarrow> i_kind s c = Async"
  shows "rets_ok t"
proof -
  have "completed t = completed s"
    using assms(2,3) by (intro completed_cong) (simp_all add: head_of_def)
  then show ?thesis
    using assms(1,4-6) unfolding rets_ok_def by (simp add: assms(2))
qed

lemma not_full:
  assumes "io_inv k s" "c < i_n s" "i_pc s c = N_wait"
    and "\<not> ioq_capacity (i_q s) \<le> of_nat c - ioq_cons_head (i_q s)"
  shows "head_of s \<le> c \<and> c < head_of s + 2 ^ k"
proof -
  have "published (i_pc s c)" if "c < head_of s"
    using assms(1) that by (simp add: io_inv_def knv_calls_def)
  then have "head_of s \<le> c"
    using assms(3) by (auto simp: published_def not_less[symmetric])
  moreover have "unat (of_nat c - ioq_cons_head (i_q s)) < unat (2 ^ k :: u32)"
    using assms(1,4) by (simp add: io_inv_def knv_shape_def word_less_nat_alt not_le)
  then have "unat (of_nat c - ioq_cons_head (i_q s)) < 2 ^ k"
    using assms(1) by (simp add: io_inv_def knv_shape_def unat_power2)
  ultimately show ?thesis
    using inv_index(2)[OF assms(1,2)] by (simp add: unat_sub_if' head_of_def)
qed

lemma inv_parts: "io_inv k s \<Longrightarrow> rets_ok s" "io_inv k s \<Longrightarrow> i_n s < 2 ^ 32" "io_inv k s \<Longrightarrow> k < 32"
  by (simp_all add: io_inv_def knv_shape_def)

lemma inv_slot: "io_inv k s \<Longrightarrow> head_of s \<le> c \<Longrightarrow> c < head_of s + 2 ^ k \<Longrightarrow> slot_ok k s c"
  by (simp add: io_inv_def knv_ring_def)

lemma slot_goto:
  "slot_ok k s c \<Longrightarrow> published pc = published (i_pc s c) \<Longrightarrow> stored pc = stored (i_pc s c) \<Longrightarrow>
   ioq_prod_seq q = ioq_prod_seq (i_q s) \<Longrightarrow> ioq_entries q = ioq_entries (i_q s) \<Longrightarrow>
   slot_ok k (ngoto c pc (s\<lparr>i_q := q\<rparr>)) c"
  by (simp add: slot_ok_def)

lemma pc_classes [simp]:
  "\<not> published N_wait" "\<not> published N_clear" "\<not> published N_write" "\<not> published N_seq" "published N_poll"
  "published N_flag" "published N_reset" "published N_ret"
  "\<not> stored N_wait" "\<not> stored N_clear" "\<not> stored N_write" "stored N_seq" "stored N_poll" "stored N_flag"
  "stored N_reset" "stored N_ret"
  by (simp_all add: published_def stored_def)

lemma published_after [simp]: "published (after_enqueue kind)"
  by (cases kind) (simp_all add: after_enqueue_def)

text \<open>Steps that leave the ring entry alone.\<close>

lemma inv_ngoto:
  assumes "io_inv k s" "c < i_n s" "ioq_capacity q = ioq_capacity (i_q s)"
    and "ioq_capacity_mask q = ioq_capacity_mask (i_q s)" "ioq_prod_tail q = ioq_prod_tail (i_q s)"
    and "ioq_cons_head q = ioq_cons_head (i_q s)" "ioq_done_seq q = ioq_done_seq (i_q s)"
    and "ioq_prod_seq q = ioq_prod_seq (i_q s)" "ioq_entries q = ioq_entries (i_q s)"
    and "c < head_of s + 2 ^ k" "published pc = published (i_pc s c)" "stored pc = stored (i_pc s c)"
    and "pc = N_ret \<Longrightarrow> i_kind s c = Sync \<Longrightarrow> completed s c" "pc = N_poll \<Longrightarrow> i_kind s c = Sync"
    and "pc \<in> {N_flag, N_reset} \<Longrightarrow> i_kind s c = Async"
  shows "io_inv k (ngoto c pc (s\<lparr>i_q := q\<rparr>))"
proof (rule inv_producer[OF assms(1,2) refl assms(3-7) _ _ assms(10)])
  show "slot_ok k (ngoto c pc (s\<lparr>i_q := q\<rparr>)) c" if "head_of s \<le> c"
    using inv_slot[OF assms(1) that assms(10)] assms(11,12,8,9) by (rule slot_goto)
  show "rets_ok (ngoto c pc (s\<lparr>i_q := q\<rparr>))"
    using inv_parts(1)[OF assms(1)] refl assms(6,13-15) by (rule rets_goto)
qed (use assms(8,9,11) in simp_all)

lemma sync_of:
  assumes "io_inv k s"
  shows "i_pc s c = N_poll \<Longrightarrow> i_kind s c = Sync" "i_pc s c \<in> {N_flag, N_reset} \<Longrightarrow> i_kind s c = Async"
  using inv_parts(1)[OF assms] unfolding rets_ok_def by blast+

lemma passed_window: "io_inv k s \<Longrightarrow> i_pc s c \<noteq> N_wait \<Longrightarrow> c < head_of s + 2 ^ k"
  by (simp add: io_inv_def knv_calls_def)

lemma inv_write:
  assumes "io_inv k s" "c < i_n s" "i_pc s c = N_write"
  shows "io_inv k (ngoto c N_seq (s\<lparr>i_q := (i_q s)\<lparr>ioq_entries := (ioq_entries (i_q s))(c mod 2 ^ k := i_req s c)\<rparr>\<rparr>))"
    (is "io_inv k ?t")
proof (rule inv_producer[OF assms(1,2) refl])
  show "c < head_of s + 2 ^ k"
    using passed_window[OF assms(1), of c] assms(3) by simp
  then show "slot_ok k ?t c" if "head_of s \<le> c"
    using inv_slot[OF assms(1) that] assms(3) by (simp add: slot_ok_def)
  show "rets_ok ?t"
    using inv_parts(1)[OF assms(1)] refl by (rule rets_goto) simp_all
qed (use assms(3) inv_window[OF assms(1), of c] in simp_all)

lemma inv_seq:
  assumes "io_inv k s" "c < i_n s" "i_pc s c = N_seq"
  shows "io_inv k (ngoto c (after_enqueue (i_kind s c))
    (s\<lparr>i_q := (i_q s)\<lparr>ioq_prod_seq := (ioq_prod_seq (i_q s))(c mod 2 ^ k := of_nat c + 1)\<rparr>\<rparr>))"
    (is "io_inv k ?t")
proof (rule inv_producer[OF assms(1,2) refl])
  show "c < head_of s + 2 ^ k"
    using passed_window[OF assms(1), of c] assms(3) by simp
  moreover have "unat (of_nat c + 1 :: u32) = c + 1"
    using inv_parts(2)[OF assms(1)] assms(2) unat_slot[of "c + 1"] by (simp add: add.commute)
  ultimately show "slot_ok k ?t c" if "head_of s \<le> c"
    using inv_slot[OF assms(1) that] assms(3) by (simp add: slot_ok_def)
  show "rets_ok ?t"
    using inv_parts(1)[OF assms(1)] refl by (rule rets_goto) (auto simp: after_enqueue_def split: io_call.splits)
qed (use assms(3) inv_window[OF assms(1), of c] in simp_all)

lemma inv_enqueue_step:
  assumes "io_inv k s" "c < i_n s"
  shows "io_inv k (io_sched_enqueue_step c s)"
proof -
  note goto = inv_ngoto[OF assms, where q = "i_q s", simplified]
  note win = passed_window[OF assms(1), of c]
  show ?thesis
  proof (cases "i_pc s c")
    case N_wait
    then show ?thesis
      using assms not_full[OF assms N_wait] by (auto simp: io_sched_enqueue_step_def Let_def intro!: goto)
  next
    case N_clear
    then show ?thesis
      using win unfolding io_sched_enqueue_step_def Let_def by (auto intro!: inv_ngoto[OF assms])
  next
    case N_write
    then show ?thesis
      using inv_write[OF assms N_write] inv_index[OF assms] by (simp add: io_sched_enqueue_step_def Let_def)
  next
    case N_seq
    then show ?thesis
      using inv_seq[OF assms N_seq] inv_index[OF assms] by (simp add: io_sched_enqueue_step_def Let_def)
  next
    case N_poll
    then show ?thesis
      using assms win poll_completed[OF assms] by (auto simp: io_sched_enqueue_step_def Let_def intro!: goto)
  next
    case N_flag
    then show ?thesis
      using assms win sync_of(2)[OF assms(1), of c] by (auto simp: io_sched_enqueue_step_def Let_def intro!: goto)
  next
    case N_reset
    then show ?thesis
      using win sync_of(2)[OF assms(1), of c] unfolding io_sched_enqueue_step_def Let_def io_sched_wait_release_def by (auto intro!: inv_ngoto[OF assms])
  next
    case N_ret
    then show ?thesis
      using assms by (simp add: io_sched_enqueue_step_def)
  qed
qed

lemma inv_enqueue_start:
  assumes "io_inv k s" "i_n s + 2 \<le> 2 ^ 32"
  shows "io_inv k (io_sched_enqueue_start kind byte_offset n_bytes pc_entry opcode s)" (is "io_inv k ?t")
proof -
  have idle: "i_pc s (i_n s) = N_wait"
    using assms(1) by (simp add: io_inv_def knv_shape_def)
  have pc: "i_pc ?t = i_pc s"
    using idle by (simp add: io_sched_enqueue_start_def fun_eq_iff)
  have h: "head_of ?t = head_of s"
    by (simp add: io_sched_enqueue_start_def head_of_def)
  have c: "completed ?t = completed s"
    using h by (intro completed_cong) (simp_all add: io_sched_enqueue_start_def)
  have "knv_shape k ?t"
    using assms pc unfolding io_inv_def knv_shape_def by (simp add: io_sched_enqueue_start_def)
  moreover have "knv_calls k ?t"
    using assms(1) unfolding io_inv_def knv_calls_def pc h by simp
  moreover have "slot_ok k ?t c'" if "slot_ok k s c'" for c'
    using that idle unfolding slot_ok_def pc by (auto simp: io_sched_enqueue_start_def)
  then have "knv_ring k ?t"
    using assms(1) unfolding io_inv_def knv_ring_def h by simp
  moreover have "knv_local k s (i_sched s)"
    using assms(1) by (simp add: io_inv_def)
  then have "knv_local k ?t (i_sched s)"
    by (rule knv_local_mono) (use pc head_le[OF assms(1)] in \<open>simp_all add: io_sched_enqueue_start_def\<close>)
  moreover have "seq_ok k ?t"
    using assms(1) unfolding io_inv_def seq_ok_def c by (simp add: io_sched_enqueue_start_def)
  moreover have "rets_ok ?t"
    using assms(1) idle unfolding io_inv_def rets_ok_def c pc by (auto simp: io_sched_enqueue_start_def)
  ultimately show ?thesis
    by (simp add: io_inv_def) (simp add: io_sched_enqueue_start_def)
qed

subsection \<open>The scheduler keeps the invariant\<close>

lemma inv_local: "io_inv k s \<Longrightarrow> knv_local k s (i_sched s)"
  by (simp add: io_inv_def)

text \<open>Steps that move neither the head nor a producer.\<close>

lemma inv_sched:
  assumes "io_inv k s" "i_n t = i_n s" "i_req t = i_req s" "i_kind t = i_kind s" "i_pc t = i_pc s"
    and q: "i_q t = (i_q s)\<lparr>ioq_done_seq := f, ioq_done_flags := g\<rparr>"
    and "knv_local k t (i_sched t)" "seq_ok k t" "\<And>c. completed s c \<Longrightarrow> completed t c"
  shows "io_inv k t"
proof -
  have h: "head_of t = head_of s"
    by (simp add: head_of_def q)
  have "knv_shape k t"
    using assms(1) unfolding io_inv_def knv_shape_def by (simp add: q assms(2,5))
  moreover have "knv_calls k t"
    using assms(1) unfolding io_inv_def knv_calls_def h assms(5) by simp
  moreover have "slot_ok k t = slot_ok k s"
    unfolding slot_ok_def fun_eq_iff assms(3,5) by (simp add: q)
  then have "knv_ring k t"
    using assms(1) unfolding io_inv_def knv_ring_def h by simp
  moreover have "rets_ok t"
    using assms(1,9) unfolding io_inv_def rets_ok_def assms(4,5) by blast
  ultimately show ?thesis
    using assms(7,8) by (simp add: io_inv_def)
qed

lemma inv_quiet:
  assumes "io_inv k s" "i_n t = i_n s" "i_req t = i_req s" "i_kind t = i_kind s" "i_pc t = i_pc s" "i_q t = i_q s"
    and "\<And>v. notified (i_sched t) v = notified (i_sched s) v" "knv_local k t (i_sched t)"
  shows "io_inv k t"
proof -
  have h: "head_of t = head_of s"
    by (simp add: head_of_def assms(6))
  then have c: "completed t = completed s"
    by (simp add: completed_def fun_eq_iff assms(7))
  have "seq_ok k t"
    using assms(1) unfolding io_inv_def seq_ok_def c by (simp add: assms(6))
  then show ?thesis
    using assms(8) c
    by (intro inv_sched[OF assms(1-5), where f = "ioq_done_seq (i_q s)" and g = "ioq_done_flags (i_q s)"])
      (simp_all add: assms(6))
qed

lemma head_of_update [simp]:
  "head_of (s\<lparr>i_sched := pc\<rparr>) = head_of s" "head_of (s\<lparr>i_batch := b\<rparr>) = head_of s"
  "head_of (s\<lparr>i_drained := d\<rparr>) = head_of s" "head_of (s\<lparr>i_got := g\<rparr>) = head_of s"
  "head_of (s\<lparr>i_drain_ns := n\<rparr>) = head_of s" "head_of (s\<lparr>i_n_groups := m\<rparr>) = head_of s"
  "head_of (s\<lparr>i_victim := v\<rparr>) = head_of s"
  by (simp_all add: head_of_def)

lemma taken_update [simp]:
  "taken k (s\<lparr>i_sched := pc\<rparr>) = taken k s" "taken k (s\<lparr>i_batch := b\<rparr>) = taken k s"
  "taken k (s\<lparr>i_drained := d\<rparr>) = taken k s" "taken k (s\<lparr>i_got := g\<rparr>) = taken k s"
  "taken k (s\<lparr>i_drain_ns := n\<rparr>) = taken k s" "taken k (s\<lparr>i_n_groups := m\<rparr>) = taken k s"
  "taken k (s\<lparr>i_victim := v\<rparr>) = taken k s"
  by (simp_all add: taken_def fun_eq_iff)

lemma batch_is_update [simp]:
  "batch_is (s\<lparr>i_sched := pc\<rparr>) = batch_is s" "batch_is (s\<lparr>i_drained := d\<rparr>) = batch_is s"
  "batch_is (s\<lparr>i_got := g\<rparr>) = batch_is s" "batch_is (s\<lparr>i_drain_ns := n\<rparr>) = batch_is s"
  "batch_is (s\<lparr>i_n_groups := m\<rparr>) = batch_is s" "batch_is (s\<lparr>i_victim := v\<rparr>) = batch_is s"
  by (simp_all add: batch_is_def fun_eq_iff)

lemma drained_is_update [simp]:
  "drained_is (s\<lparr>i_sched := pc\<rparr>) = drained_is s" "drained_is (s\<lparr>i_batch := b\<rparr>) = drained_is s"
  "drained_is (s\<lparr>i_got := g\<rparr>) = drained_is s" "drained_is (s\<lparr>i_drain_ns := n\<rparr>) = drained_is s"
  "drained_is (s\<lparr>i_n_groups := m\<rparr>) = drained_is s" "drained_is (s\<lparr>i_victim := v\<rparr>) = drained_is s"
  by (simp_all add: drained_is_def fun_eq_iff)

text \<open>The slots of a batch, as words.\<close>

lemma batch_slot:
  assumes "io_inv k s" "taken k s base a" "unat acc + unat i < a"
  shows "unat ((base + acc + i) AND ioq_capacity_mask (i_q s)) = (head_of s + unat acc + unat i) mod 2 ^ k"
    and "unat (base + acc + i + 1) = head_of s + unat acc + unat i + 1"
proof -
  have b: "head_of s + unat acc + unat i < i_n s" "i_n s < 2 ^ 32" "k < 32"
    using assms inv_parts[OF assms(1)] by (simp_all add: taken_def)
  have h: "base + acc + i = of_nat (head_of s + unat acc + unat i)"
    using assms(2) by (simp add: taken_def head_of_def)
  show "unat ((base + acc + i) AND ioq_capacity_mask (i_q s)) = (head_of s + unat acc + unat i) mod 2 ^ k"
    using inv_index(1)[OF assms(1) b(1)] by (simp only: h)
  have "base + acc + i + 1 = of_nat (head_of s + unat acc + unat i + 1)"
    by (simp only: h of_nat_add) simp
  then show "unat (base + acc + i + 1) = head_of s + unat acc + unat i + 1"
    using b unat_slot[of "head_of s + unat acc + unat i + 1"] by (simp add: ac_simps)
qed

lemma batch_slot_ok:
  assumes "io_inv k s" "taken k s base a" "i < a"
  shows "slot_ok k s (head_of s + i)"
  using inv_slot[OF assms(1), of "head_of s + i"] assms(2,3) by (simp add: taken_def)

text \<open>The number of entries thread 0 lets the threads look at.\<close>

definition round_of :: "io_queue_t \<Rightarrow> u32 \<Rightarrow> u32 \<Rightarrow> u32" where
  "round_of q base acc =
     (let pending = ioq_prod_tail q - (base + acc); room = ioq_capacity q - acc;
          avail = (if pending < room then pending else room)
      in if avail > kSchedThreads then kSchedThreads else avail)"

lemma round_bound:
  assumes "io_inv k s" "taken k s base (unat acc)"
  defines "n \<equiv> round_of (i_q s) base acc"
  shows "unat acc + unat n \<le> 2 ^ k" "head_of s + unat acc + unat n \<le> i_n s" "n \<le> kSchedThreads"
proof -
  have sh: "i_n s < 2 ^ 32" "k < 32" "ioq_capacity (i_q s) = 2 ^ k" "ioq_prod_tail (i_q s) = of_nat (i_n s)"
    using assms(1) by (simp_all add: io_inv_def knv_shape_def)
  have tk: "unat acc \<le> 2 ^ k" "head_of s + unat acc \<le> i_n s" "base = ioq_cons_head (i_q s)"
    using assms(2) by (simp_all add: taken_def)
  have room: "unat (ioq_capacity (i_q s) - acc) = 2 ^ k - unat acc"
    using tk(1) sh by (subst unat_sub_le) (simp_all add: word_le_nat_alt unat_power2)
  have st: "unat (base + acc) = head_of s + unat acc"
    using tk sh(1) unat_head_add[of base "unat acc"] by (simp add: head_of_def)
  have left: "unat (ioq_prod_tail (i_q s) - (base + acc)) = i_n s - (head_of s + unat acc)"
    using tk(2) sh st by (subst unat_sub_le) (simp_all add: word_le_nat_alt unat_slot)
  have "unat n \<le> 2 ^ k - unat acc \<and> unat n \<le> i_n s - (head_of s + unat acc)"
    using room left unfolding n_def round_of_def Let_def by (auto simp: word_less_nat_alt)
  then show "unat acc + unat n \<le> 2 ^ k" "head_of s + unat acc + unat n \<le> i_n s"
    using tk by linarith+
  show "n \<le> kSchedThreads"
    by (auto simp: n_def round_of_def Let_def not_less)
qed

lemma of_nat_thread: "t < unat (n :: u32) \<Longrightarrow> unat (of_nat t :: u32) = t \<and> (of_nat t :: u32) < n"
  using unsigned_less[of n, where 'a = nat] by (simp add: unat_slot word_less_nat_alt)

lemma inv_check:
  assumes "io_inv k s" "i_sched s = S_check base acc round_max seen"
  shows "io_inv k (sched_step tid groups s)"
proof -
  have l: "taken k s base (unat acc)" "batch_is s (unat acc)" "drained_is s 0" "unat acc + unat round_max \<le> 2 ^ k"
    "head_of s + unat acc + unat round_max \<le> i_n s" "round_max \<le> kSchedThreads"
    "\<forall>t < unat round_max. seen (of_nat t) = Some True \<longrightarrow> published (i_pc s (head_of s + unat acc + t))"
    using inv_local[OF assms(1)] by (simp_all add: assms(2))
  consider (count) "all_threads (\<lambda>t. seen t \<noteq> None) round_max"
    | (look) "\<not> all_threads (\<lambda>t. seen t \<noteq> None) round_max" "tid < round_max"
    | (idle) "\<not> all_threads (\<lambda>t. seen t \<noteq> None) round_max" "\<not> tid < round_max"
    by blast
  then show ?thesis
  proof cases
    case count
    let ?a = "ready_count round_max seen"
    have r: "unat ?a \<le> unat round_max" "\<forall>t < unat ?a. seen (of_nat t) = Some True"
      using ready_count_sound[OF l(6)] by auto
    have "taken k s base (unat acc + unat ?a)"
      unfolding taken_def
    proof (intro conjI allI impI)
      show "published (i_pc s c)" if "c < head_of s + (unat acc + unat ?a)" for c
      proof (cases "c < head_of s + unat acc")
        case False
        define t where "t = c - (head_of s + unat acc)"
        have "c = head_of s + unat acc + t" "t < unat ?a"
          using False that by (simp_all add: t_def)
        then show ?thesis
          using l(7) r by (metis order_less_le_trans)
      qed (use l(1) in \<open>simp add: taken_def\<close>)
    qed (use l r(1) in \<open>simp_all add: taken_def\<close>)
    then show ?thesis
      using count l assms by (intro inv_quiet[OF assms(1)]) (simp_all add: sched_step_def sched_drain_step_def)
  next
    case look
    define c where "c = head_of s + unat acc + unat tid"
    have w: "head_of s \<le> c" "c < head_of s + 2 ^ k" "c < i_n s"
      using l look(2) by (simp_all add: c_def word_less_nat_alt)
    have e: "base + acc + tid = of_nat c"
      using l(1) by (simp add: c_def taken_def head_of_def)
    have one: "unat (of_nat c + 1 :: u32) = c + 1"
      using inv_parts(2)[OF assms(1)] w(3) unat_slot[of "c + 1"] by (simp add: add.commute)
    have p: "published (i_pc s c)"
      if "ioq_prod_seq (i_q s) (unat ((base + acc + tid) AND ioq_capacity_mask (i_q s))) = base + acc + tid + 1"
    proof -
      have "unat (ioq_prod_seq (i_q s) (c mod 2 ^ k)) = c + 1"
        using that one inv_index(1)[OF assms(1) w(3)] by (simp only: e)
      then show ?thesis
        using inv_slot[OF assms(1) w(1,2)] by (auto simp: slot_ok_def split: if_splits)
    qed
    have "published (i_pc s (head_of s + unat acc + t))" if "t < unat round_max" "of_nat t = tid"
      "ioq_prod_seq (i_q s) (unat ((base + acc + tid) AND ioq_capacity_mask (i_q s))) = base + acc + tid + 1" for t
      using p[OF that(3)] of_nat_thread[OF that(1)] that(2) by (auto simp: c_def)
    then show ?thesis
      using look l assms by (intro inv_quiet[OF assms(1)]) (auto simp: sched_step_def sched_drain_step_def Let_def)
  next
    case idle
    then show ?thesis
      using assms by (simp add: sched_step_def sched_drain_step_def)
  qed
qed

lemma inv_load:
  assumes "io_inv k s" "i_sched s = S_load base acc avail loaded"
  shows "io_inv k (sched_step tid groups s)"
proof -
  have l: "taken k s base (unat acc + unat avail)" "batch_is s (unat acc)" "drained_is s 0"
    "\<forall>t < unat avail. loaded (of_nat t) \<longrightarrow> i_got s (of_nat t) = i_req s (head_of s + unat acc + t)"
    using inv_local[OF assms(1)] by (simp_all add: assms(2))
  consider (full) "all_threads loaded avail" | (one) "\<not> all_threads loaded avail" "tid < avail"
    | (idle) "\<not> all_threads loaded avail" "\<not> tid < avail"
    by blast
  then show ?thesis
  proof cases
    case full
    have k: "k < 32" "unat acc + unat avail \<le> 2 ^ k"
      using inv_parts[OF assms(1)] l(1) by (simp_all add: taken_def)
    moreover have "(2 :: nat) ^ k < 2 ^ 32"
      using k(1) by (intro power_strict_increasing) simp_all
    ultimately have a: "unat (acc + avail) = unat acc + unat avail"
      by (intro unat_add_no_wrap) simp
    define b where "b = i_batch s @ map (\<lambda>i. i_got s (of_nat i)) [0..<unat avail]"
    have "map (\<lambda>i. i_got s (of_nat i)) [0..<unat avail] =
        map (i_req s) [head_of s + unat acc..<head_of s + unat acc + unat avail]"
      using full l(4) by (intro nth_equalityI) (auto simp: all_threads_def list_all_iff)
    moreover have "[head_of s..<head_of s + (unat acc + unat avail)] =
        [head_of s..<head_of s + unat acc] @ [head_of s + unat acc..<head_of s + unat acc + unat avail]"
      using upt_add_eq_append[of "head_of s" "head_of s + unat acc" "unat avail"] by (simp add: add.assoc)
    ultimately have b: "batch_is (s\<lparr>i_batch := b\<rparr>) (unat acc + unat avail)"
      using l(2) by (simp add: batch_is_def b_def)
    have z: "acc + avail = 0 \<Longrightarrow> unat acc = 0 \<and> unat avail = 0"
      using a by auto
    have "io_inv k (s\<lparr>i_batch := b, i_sched := pc\<rparr>)"
      if "pc = S_tail base (acc + avail) \<or> pc = S_empty base \<and> acc + avail = 0 \<or> pc = S_wait base (acc + avail) ns" for pc ns
      using that l b z by (intro inv_quiet[OF assms(1)]) (auto simp: assms(2) a)
    then show ?thesis
      using full by (auto simp: sched_step_def sched_drain_step_def assms(2) Let_def simp flip: b_def)
  next
    case one
    have lt: "unat acc + unat tid < unat acc + unat avail"
      using one(2) by (simp add: word_less_nat_alt)
    let ?c = "head_of s + unat acc + unat tid"
    have "published (i_pc s ?c)" "slot_ok k s ?c"
      using l(1) lt batch_slot_ok[OF assms(1) l(1) lt] by (simp_all add: taken_def add.assoc)
    then have e: "ioq_entries (i_q s) (unat ((base + acc + tid) AND ioq_capacity_mask (i_q s))) = i_req s ?c"
      using batch_slot(1)[OF assms(1) l(1) lt] by (simp add: slot_ok_def stored_def)
    have "t = unat tid" if "t < unat avail" "of_nat t = tid" for t
      using of_nat_thread[OF that(1)] that(2) by auto
    then show ?thesis
      using one l assms(2) by (intro inv_quiet[OF assms(1)]) (auto simp: sched_step_def sched_drain_step_def e Let_def)
  next
    case idle
    then show ?thesis
      using assms by (simp add: sched_step_def sched_drain_step_def)
  qed
qed

lemma inv_notify_seq:
  assumes "io_inv k s" "i_sched s = S_notify base acc ph" "\<not> all_threads (\<lambda>v. ph v = V_next) acc" "v < acc" "ph v = V_seq"
  shows "io_inv k (sched_step v groups s)"
proof -
  have l: "taken k s base (unat acc)" "drained_is s (unat acc)"
    using inv_local[OF assms(1)] by (simp_all add: assms(2))
  define c where "c = head_of s + unat v"
  have v: "unat v < unat acc"
    using assms(4) by (simp add: word_less_nat_alt)
  have w: "c < i_n s" "head_of s \<le> c" "c < head_of s + 2 ^ k"
    using l(1) v by (simp_all add: taken_def c_def)
  have idx: "unat ((base + v) AND ioq_capacity_mask (i_q s)) = c mod 2 ^ k" "unat (base + v + 1) = c + 1"
    using batch_slot[OF assms(1) l(1), of 0 v] v by (simp_all add: c_def)
  define t where "t = s\<lparr>i_sched := S_notify base acc (ph(v := V_flag)),
      i_q := (i_q s)\<lparr>ioq_done_seq := (ioq_done_seq (i_q s))(c mod 2 ^ k := base + v + 1)\<rparr>\<rparr>"
  have t: "sched_step v groups s = t"
    using assms(3-5) by (simp add: sched_step_def sched_notify_step_def assms(2) t_def idx(1) Let_def)
  have h: "head_of t = head_of s"
    by (simp add: head_of_def t_def)
  have nv: "of_nat (c' - head_of s) = v \<longleftrightarrow> c' = c" if "head_of s \<le> c'" "c' - head_of s < unat acc" for c'
    using that of_nat_thread[OF that(2)] by (auto simp: c_def)
  have cp: "completed t c' \<longleftrightarrow> completed s c' \<or> c' = c" for c'
    using v nv[of c'] unfolding completed_def h by (auto simp: t_def assms(2) c_def)
  have "seq_ok k t"
    unfolding seq_ok_def
  proof (intro conjI allI impI)
    fix c'
    assume a: "completed t c'"
    have "c' < head_of s + 2 ^ k"
      using a w(3) completed_bound[OF assms(1), of c'] by (auto simp: cp)
    moreover have "c' + 1 \<le> unat (ioq_done_seq (i_q s) (c' mod 2 ^ k))" if "c' \<noteq> c"
      using a that assms(1) by (simp add: cp io_inv_def seq_ok_def)
    moreover have "c' \<le> c" if "c' mod 2 ^ k = c mod 2 ^ k"
      using window_inj[OF that, of "head_of s"] w calculation(1) by linarith
    ultimately show "c' + 1 \<le> unat (ioq_done_seq (i_q t) (c' mod 2 ^ k))"
      using idx(2) by (cases "c' mod 2 ^ k = c mod 2 ^ k") (auto simp: t_def)
  next
    fix p :: nat
    assume "p < 2 ^ k"
    then have "ioq_done_seq (i_q s) p = 0 \<or>
        (\<exists>c. c mod 2 ^ k = p \<and> completed s c \<and> unat (ioq_done_seq (i_q s) p) = c + 1)"
      using assms(1) by (simp add: io_inv_def seq_ok_def)
    then show "ioq_done_seq (i_q t) p = 0 \<or>
        (\<exists>c. c mod 2 ^ k = p \<and> completed t c \<and> unat (ioq_done_seq (i_q t) p) = c + 1)"
      using idx(2) cp by (cases "p = c mod 2 ^ k") (auto simp: t_def)
  qed
  moreover have "knv_local k t (i_sched t)"
    using l unfolding t_def by (simp add: taken_def drained_is_def head_of_def)
  ultimately have "io_inv k t"
    using cp by (intro inv_sched[OF assms(1), where f = "ioq_done_seq (i_q t)" and g = "ioq_done_flags (i_q s)"])
      (simp_all add: t_def)
  then show ?thesis
    by (simp only: t)
qed

text \<open>The other actions of the notification write flags and the victim buffer.\<close>

lemma inv_notify_rest:
  assumes "io_inv k s" "i_sched s = S_notify base acc ph" "p \<noteq> V_seq" "ph v \<noteq> V_seq"
    and "t = s\<lparr>i_sched := S_notify base acc (ph(v := p)), i_victim := vb, i_q := (i_q s)\<lparr>ioq_done_flags := f\<rparr>\<rparr>"
  shows "io_inv k t"
proof -
  have l: "taken k s base (unat acc)" "drained_is s (unat acc)"
    using inv_local[OF assms(1)] by (simp_all add: assms(2))
  have h: "head_of t = head_of s"
    by (simp add: head_of_def assms(5))
  have c: "completed t = completed s"
    unfolding completed_def h by (auto simp: assms(2-5) fun_eq_iff)
  have "seq_ok k t"
    using assms(1) unfolding io_inv_def seq_ok_def c by (simp add: assms(5))
  moreover have "knv_local k t (i_sched t)"
    using l unfolding assms(5) by (simp add: taken_def drained_is_def head_of_def)
  ultimately show ?thesis
    using c by (intro inv_sched[OF assms(1), where f = "ioq_done_seq (i_q s)" and g = f]) (simp_all add: assms(5))
qed

lemma inv_notify:
  assumes "io_inv k s" "i_sched s = S_notify base acc ph"
  shows "io_inv k (sched_step v groups s)"
proof -
  have l: "taken k s base (unat acc)" "drained_is s (unat acc)"
    using inv_local[OF assms(1)] by (simp_all add: assms(2))
  consider (over) "all_threads (\<lambda>v. ph v = V_next) acc" | (idle) "\<not> all_threads (\<lambda>v. ph v = V_next) acc" "\<not> v < acc \<or> ph v = V_next"
    | (first) "\<not> all_threads (\<lambda>v. ph v = V_next) acc" "v < acc" "ph v = V_seq"
    | (rest) "\<not> all_threads (\<lambda>v. ph v = V_next) acc" "v < acc" "ph v \<noteq> V_seq" "ph v \<noteq> V_next"
    by blast
  then show ?thesis
  proof cases
    case over
    have n: "ph (of_nat i) = V_next" if "i < unat acc" for i
      using over that by (simp add: all_threads_def list_all_iff)
    show ?thesis
      using over n l by (intro inv_quiet[OF assms(1)]) (auto simp: sched_step_def sched_notify_step_def assms(2))
  next
    case idle
    then show ?thesis
      using assms by (auto simp: sched_step_def sched_notify_step_def Let_def)
  next
    case first
    then show ?thesis by (rule inv_notify_seq[OF assms])
  next
    case rest
    let ?pe = "rq_pc_entry (i_batch s ! unat v)"
    let ?vi = "unat (ucast (?pe AND VICTIM_PC_ENTRY_MASK) :: u32)" and ?vb = "i_victim s" and ?f = "ioq_done_flags (i_q s)"
    note go = inv_notify_rest[OF assms(1,2) _ rest(3) refl]
    note unfold = sched_step_def sched_notify_step_def assms(2) Let_def
    show ?thesis
    proof (cases "ph v")
      case V_flag
      then show ?thesis
        using rest(1,2) go[where p = "if ?pe AND VICTIM_PC_ENTRY_BIT \<noteq> 0 then V_victim else V_next" and vb = ?vb and
            f = "?f(unat ((base + v) AND ioq_capacity_mask (i_q s)) := 1)"] by (simp add: unfold)
    next
      case V_victim
      then show ?thesis
        using rest(1,2) go[where p = V_readers and vb = "?vb\<lparr>ve_byte_offsets := (ve_byte_offsets ?vb)(?vi := - 1)\<rparr>" and f = ?f] by (simp add: unfold)
    next
      case V_readers
      then show ?thesis
        using rest(1,2) go[where p = "if ve_reader_counts ?vb ?vi = 0 then V_free else V_next" and vb = ?vb and f = ?f] by (simp add: unfold)
    next
      case V_free
      then show ?thesis
        using rest(1,2) go[where p = V_next and vb = "?vb\<lparr>ve_states := (ve_states ?vb)(?vi := VICTIM_FREE)\<rparr>" and f = ?f] by (simp add: unfold)
    qed (use rest(3,4) in simp_all)
  qed
qed

lemma inv_head_move:
  assumes "io_inv k s" "i_sched s = S_move base acc"
  shows "io_inv k (sched_step tid groups s)"
proof -
  define t where "t = sched_step tid groups s"
  have l: "taken k s base (unat acc)" "drained_is s (unat acc)"
    using inv_local[OF assms(1)] by (simp_all add: assms(2))
  have te: "t = s\<lparr>i_sched := S_base, i_batch_count := i_batch_count s + 1,
      i_q := (i_q s)\<lparr>ioq_submitted_ios := ioq_submitted_ios (i_q s) + ucast acc,
        ioq_merged_ios := ioq_merged_ios (i_q s) + ucast (i_n_groups s), ioq_cons_head := ioq_cons_head (i_q s) + acc\<rparr>\<rparr>"
    by (simp add: t_def sched_step_def sched_notify_step_def assms(2) Let_def)
  have a: "unat acc \<le> 2 ^ k" "head_of s + unat acc \<le> i_n s" "\<forall>c < head_of s + unat acc. published (i_pc s c)"
    using l(1) by (simp_all add: taken_def)
  have h: "head_of t = head_of s + unat acc"
    using a(2) inv_parts(2)[OF assms(1)] unat_head_add[of "ioq_cons_head (i_q s)" "unat acc"]
    by (simp add: te head_of_def)
  have c: "completed t = completed s"
    unfolding completed_def h by (auto simp: te assms(2) fun_eq_iff)
  have wait: "\<forall>c. i_pc s c \<noteq> N_wait \<longrightarrow> c < head_of s + 2 ^ k"
    using assms(1) by (simp add: io_inv_def knv_calls_def)
  have "slot_ok k t c'" if w: "head_of t \<le> c'" "c' < head_of t + 2 ^ k" for c'
  proof (cases "c' < head_of s + 2 ^ k")
    case True
    then show ?thesis
      using inv_slot[OF assms(1), of c'] w(1) unfolding h slot_ok_def by (simp add: te)
  next
    case False
    then have idle: "i_pc s c' = N_wait"
      using wait by blast
    have e: "(c' - 2 ^ k) mod 2 ^ k = c' mod 2 ^ k"
      by (rule le_mod_geq[symmetric]) (use False in simp)
    have "published (i_pc s (c' - 2 ^ k))" "slot_ok k s (c' - 2 ^ k)"
      using False w a(1,3) inv_slot[OF assms(1), of "c' - 2 ^ k"] by (auto simp: h)
    then have "unat (ioq_prod_seq (i_q s) (c' mod 2 ^ k)) = c' - 2 ^ k + 1"
      by (simp add: slot_ok_def e)
    moreover have "c' - 2 ^ k + 1 \<le> c'"
      using False one_le_power[of "2::nat" k] by linarith
    ultimately show ?thesis
      using idle unfolding slot_ok_def by (simp add: te)
  qed
  then have "knv_ring k t"
    by (simp add: knv_ring_def)
  moreover have "knv_shape k t"
    using assms(1) unfolding io_inv_def knv_shape_def by (simp add: te)
  moreover have "knv_calls k t"
    using a(3) wait unfolding knv_calls_def h by (auto simp: te intro: trans_less_add2)
  moreover have "knv_local k t (i_sched t)"
    using l(2) h by (simp add: te drained_is_def)
  moreover have "seq_ok k t" "rets_ok t"
    using assms(1) unfolding io_inv_def seq_ok_def rets_ok_def c by (simp_all add: te)
  ultimately show ?thesis
    by (simp add: io_inv_def t_def)
qed

lemma inv_submit:
  assumes "io_inv k s" "i_sched s = S_submit base acc"
  shows "io_inv k (sched_step tid groups s)"
proof -
  have l: "taken k s base (unat acc)" "batch_is s (unat acc)" "drained_is s 0"
    using inv_local[OF assms(1)] by (simp_all add: assms(2))
  have "[0..<head_of s + unat acc] = [0..<head_of s] @ [head_of s..<head_of s + unat acc]"
    by (rule upt_add_eq_append) simp
  then have "drained_is (s\<lparr>i_drained := i_drained s @ i_batch s\<rparr>) (unat acc)"
    using l(2,3) by (simp add: drained_is_def batch_is_def)
  then show ?thesis
    using l by (intro inv_quiet[OF assms(1)]) (simp_all add: sched_step_def assms(2) drained_is_def)
qed

lemma inv_sched_step:
  assumes "io_inv k s"
  shows "io_inv k (sched_step tid groups s)"
proof (cases "i_sched s")
  case S_base
  then have "taken k s (ioq_cons_head (i_q s)) 0" "drained_is s 0"
    using assms head_le[OF assms] inv_local[OF assms] by (simp_all add: taken_def io_inv_def knv_calls_def)
  then show ?thesis
    using S_base by (intro inv_quiet[OF assms]) (simp_all add: sched_step_def sched_drain_step_def Let_def batch_is_def)
next
  case (S_tail base acc)
  then have "sched_step tid groups s = s\<lparr>i_sched := S_check base acc (round_of (i_q s) base acc) (\<lambda>_. None)\<rparr>"
    by (simp add: sched_step_def sched_drain_step_def round_of_def Let_def)
  then show ?thesis
    using inv_local[OF assms] round_bound[OF assms, of base acc] S_tail by (intro inv_quiet[OF assms]) simp_all
next
  case (S_check base acc round_max seen)
  then show ?thesis by (rule inv_check[OF assms])
next
  case (S_load base acc avail loaded)
  then show ?thesis by (rule inv_load[OF assms])
next
  case (S_empty base)
  then show ?thesis
    using inv_local[OF assms] by (intro inv_quiet[OF assms]) (simp_all add: sched_step_def sched_drain_step_def Let_def)
next
  case (S_shutdown base)
  then show ?thesis
    using inv_local[OF assms] by (intro inv_quiet[OF assms]) (simp_all add: sched_step_def sched_drain_step_def Let_def)
next
  case (S_wait base acc ns)
  then show ?thesis
    using inv_local[OF assms] by (intro inv_quiet[OF assms]) (simp_all add: sched_step_def sched_drain_step_def Let_def)
next
  case (S_submit base acc)
  then show ?thesis by (rule inv_submit[OF assms])
next
  case (S_notify base acc ph)
  then show ?thesis by (rule inv_notify[OF assms])
next
  case (S_move base acc)
  then show ?thesis by (rule inv_head_move[OF assms])
next
  case S_exit
  then show ?thesis using assms by (simp add: sched_step_def)
qed

lemma inv_evict:
  assumes "io_inv k s"
  shows "io_inv k (s\<lparr>i_victim := v\<rparr>)"
proof -
  have "knv_local k (s\<lparr>i_victim := v\<rparr>) (i_sched s)"
    using inv_local[OF assms] by (rule knv_local_mono) (simp_all add: head_le[OF assms])
  then show ?thesis
    by (intro inv_quiet[OF assms]) simp_all
qed

lemma inv_init: "fresh_queue k q \<Longrightarrow> io_inv k (io_init q)"
  by (auto simp: fresh_queue_def io_init_def io_inv_def knv_shape_def knv_calls_def knv_ring_def slot_ok_def
      drained_is_def head_of_def seq_ok_def rets_ok_def completed_def)

lemma inv_stop:
  assumes "io_inv k s"
  shows "io_inv k (s\<lparr>i_q := io_sched_shutdown (i_q s)\<rparr>)" (is "io_inv k ?t")
proof -
  have h: "head_of ?t = head_of s"
    by (simp add: head_of_def io_sched_shutdown_def)
  have c: "completed ?t = completed s"
    using h by (intro completed_cong) simp_all
  have "slot_ok k ?t = slot_ok k s"
    by (simp add: slot_ok_def fun_eq_iff io_sched_shutdown_def)
  moreover have "knv_local k ?t (i_sched s)"
    using inv_local[OF assms] by (rule knv_local_mono) (simp_all add: head_le[OF assms] io_sched_shutdown_def)
  ultimately show ?thesis
    using assms unfolding io_inv_def knv_shape_def knv_calls_def knv_ring_def seq_ok_def rets_ok_def c h
    by (simp add: io_sched_shutdown_def)
qed

lemma reach_inv: "io_reach k s \<Longrightarrow> io_inv k s"
proof (induction rule: io_reach.induct)
  case (step s s')
  from step.hyps(2) show ?case
    by (cases rule: io_step.cases) (simp_all add: step.IH inv_enqueue_start inv_enqueue_step inv_sched_step inv_stop inv_evict)
qed (rule inv_init)

lemma local_drained:
  assumes "knv_local k s pc" "head_of s \<le> i_n s" "\<forall>c < head_of s. published (i_pc s c)"
  shows "\<exists>m. head_of s \<le> m \<and> m \<le> i_n s \<and> m \<le> head_of s + 2 ^ k \<and> i_drained s = map (i_req s) [0..<m] \<and>
    (\<forall>c < m. published (i_pc s c)) \<and> (\<forall>v. notified pc v \<longrightarrow> head_of s + v < m)"
  using assms
proof (cases pc)
  case (S_notify base acc ph)
  then show ?thesis
    using assms by (intro exI[of _ "head_of s + unat acc"]) (simp add: taken_def drained_is_def)
next
  case (S_move base acc)
  then show ?thesis
    using assms by (intro exI[of _ "head_of s + unat acc"]) (simp add: taken_def drained_is_def)
qed (intro exI[of _ "head_of s"]; simp add: drained_is_def)+

text \<open>C6: The request ring of the scheduler is a queue, in every interleaving of producers and scheduler.
  The requests the scheduler has submitted are the first \<open>m\<close> requests in the order in which the slots were
  claimed, each exactly as its producer wrote it. A synchronous call returns only when its request is
  among them, and the completion of a request below the head is visible to its caller. Two
  calls that have been let into the ring and are not consumed use different entries.\<close>

theorem io_sched_fifo:
  assumes "io_reach k s"
  shows "(\<exists>m. head_of s \<le> m \<and> m \<le> i_n s \<and> m \<le> head_of s + 2 ^ k \<and> i_drained s = map (i_req s) [0..<m] \<and>
      (\<forall>c < m. published (i_pc s c)) \<and> (\<forall>c. i_pc s c = N_ret \<longrightarrow> i_kind s c = Sync \<longrightarrow> c < m)) \<and>
    (\<forall>c < head_of s. \<not> not_done (i_q s) (of_nat c)) \<and>
    (\<forall>c c'. head_of s \<le> c \<longrightarrow> head_of s \<le> c' \<longrightarrow> i_pc s c \<noteq> N_wait \<longrightarrow> i_pc s c' \<noteq> N_wait \<longrightarrow>
      of_nat c AND ioq_capacity_mask (i_q s) = of_nat c' AND ioq_capacity_mask (i_q s) \<longrightarrow> c = c')"
proof (intro conjI allI impI)
  note inv = reach_inv[OF assms]
  have pub: "\<forall>c < head_of s. published (i_pc s c)"
    using inv by (simp add: io_inv_def knv_calls_def)
  obtain m where m: "head_of s \<le> m" "m \<le> i_n s" "m \<le> head_of s + 2 ^ k" "i_drained s = map (i_req s) [0..<m]"
    "\<forall>c < m. published (i_pc s c)" "\<forall>v. notified (i_sched s) v \<longrightarrow> head_of s + v < m"
    using local_drained[OF inv_local[OF inv] head_le[OF inv] pub] by blast
  have "c < m" if "i_pc s c = N_ret" "i_kind s c = Sync" for c
  proof -
    have "completed s c"
      using inv_parts(1)[OF inv] that by (simp add: rets_ok_def)
    then show ?thesis
      using m(1,6) by (cases "c < head_of s") (auto simp: completed_def)
  qed
  then show "\<exists>m. head_of s \<le> m \<and> m \<le> i_n s \<and> m \<le> head_of s + 2 ^ k \<and> i_drained s = map (i_req s) [0..<m] \<and>
      (\<forall>c < m. published (i_pc s c)) \<and> (\<forall>c. i_pc s c = N_ret \<longrightarrow> i_kind s c = Sync \<longrightarrow> c < m)"
    using m by blast
next
  fix c
  note inv = reach_inv[OF assms]
  assume c: "c < head_of s"
  then have n: "c < i_n s"
    using head_le[OF inv] by simp
  have "c + 1 \<le> unat (ioq_done_seq (i_q s) (c mod 2 ^ k))"
    using inv c by (simp add: io_inv_def seq_ok_def completed_def)
  moreover have "unat (of_nat c + 1 :: u32) = c + 1"
    using inv_parts(2)[OF inv] n unat_slot[of "c + 1"] by (simp add: add.commute)
  ultimately show "\<not> not_done (i_q s) (of_nat c)"
    using inv_index[OF inv n] by (simp add: not_done_def word_less_nat_alt not_less)
next
  fix c c'
  note inv = reach_inv[OF assms]
  assume a: "head_of s \<le> c" "head_of s \<le> c'" "i_pc s c \<noteq> N_wait" "i_pc s c' \<noteq> N_wait"
    "of_nat c AND ioq_capacity_mask (i_q s) = of_nat c' AND ioq_capacity_mask (i_q s)"
  have n: "c < i_n s" "c' < i_n s"
    using inv a(3,4) by (auto simp: io_inv_def knv_shape_def not_less[symmetric])
  have "c mod 2 ^ k = c' mod 2 ^ k"
    using arg_cong[OF a(5), of unat] inv_index(1)[OF inv] n by simp
  then show "c = c'"
    using window_inj[of c "2 ^ k" c' "head_of s"] a(1,2) passed_window[OF inv a(3)] passed_window[OF inv a(4)] by simp
qed

subsection \<open>Runs\<close>

text \<open>Sequences of actions, for examples: a call, a step of a producer, a step of the scheduler in which the threads
  act in their order.\<close>

definition first_thread :: "(u32 \<Rightarrow> bool) \<Rightarrow> u32 \<Rightarrow> u32" where
  "first_thread p n = (case find (\<lambda>i. p (of_nat i)) [0..<unat n] of None \<Rightarrow> 0 | Some i \<Rightarrow> of_nat i)"

fun next_thread :: "sched_pc \<Rightarrow> u32" where
  "next_thread (S_check base acc round_max seen) = first_thread (\<lambda>t. seen t = None) round_max"
| "next_thread (S_load base acc avail loaded) = first_thread (\<lambda>t. \<not> loaded t) avail"
| "next_thread (S_notify base acc ph) = first_thread (\<lambda>v. ph v \<noteq> V_next) acc"
| "next_thread _ = 0"

datatype io_act = Call io_call u64 u64 u64 | Prod nat | Sched

primrec io_act_step :: "io_act \<Rightarrow> io_sys \<Rightarrow> io_sys" where
  "io_act_step (Call kind off n pe) s =
     (if i_n s + 2 \<le> 2 ^ 32 then io_sched_enqueue_start kind off n pe (io_opcode NVM_IO_WRITE) s else s)"
| "io_act_step (Prod c) s = (if c < i_n s then io_sched_enqueue_step c s else s)"
| "io_act_step Sched s = sched_step (next_thread (i_sched s)) 1 s"

definition io_run :: "io_act list \<Rightarrow> io_sys \<Rightarrow> io_sys" where
  "io_run acts s = fold io_act_step acts s"

lemma reach_act: "io_reach k s \<Longrightarrow> io_reach k (io_act_step a s)"
  using io_step.intros(1-3) by (cases a) (auto intro: io_reach.step)

lemma reach_run: "io_reach k s \<Longrightarrow> io_reach k (io_run acts s)"
  unfolding io_run_def by (induction acts arbitrary: s) (simp_all add: reach_act)

definition example_queue :: "nat \<Rightarrow> io_queue_t" where
  "example_queue k =
     \<lparr>ioq_entries = (\<lambda>_. io_request 0 0 0 0), ioq_done_flags = (\<lambda>_. 0), ioq_done_seq = (\<lambda>_. 0), ioq_prod_seq = (\<lambda>_. 0),
      ioq_capacity = 2 ^ k, ioq_capacity_mask = 2 ^ k - 1, ioq_prod_tail = 0, ioq_prod_ready = 0, ioq_cons_head = 0,
      ioq_shutdown = 0, ioq_sched_paused = 0, ioq_submitted_ios = 0, ioq_merged_ios = 0, ioq_sched_qp_base = 0\<rparr>"

lemma reach_example: "k < 32 \<Longrightarrow> io_reach k (io_run acts (io_init (example_queue k)))"
  by (intro reach_run io_reach.init) (simp add: fresh_queue_def example_queue_def)

lemma ready_count_one: "ready_count 1 seen = (if seen 0 = Some True then 1 else 0)"
proof -
  have "unat (ready_count 1 seen) = (if seen 0 = Some True then 1 else 0)"
    by (subst ready_count_eq) (simp_all add: kSchedThreads_def)
  then show ?thesis
    by (simp add: word_unat_eq_iff split: if_splits)
qed

lemma ns_halves:
  "(8192 :: u32) div 2 = 4096" "(4096 :: u32) div 2 = 2048" "(2048 :: u32) div 2 = 1024" "(1024 :: u32) div 2 = 512"
  "(512 :: u32) div 2 = 256" "(256 :: u32) div 2 = 128" "(128 :: u32) div 2 = 64" "(64 :: u32) div 2 = 32"
  by code_simp+

lemmas io_run_defs = io_run_def io_init_def example_queue_def io_sched_enqueue_start_def io_sched_enqueue_step_def
  sched_step_def sched_drain_step_def sched_notify_step_def ngoto_def after_enqueue_def not_done_def scan_pending_def
  io_sched_scan_ready_def io_sched_wait_test_def io_sched_wait_release_def all_threads_def first_thread_def
  ready_count_one ns_halves kSchedThreads_def io_request_def VICTIM_PC_ENTRY_BIT_def Let_def

text \<open>One request through the ring: the scheduler takes 20 actions, nine of them in the wait before the sort.\<close>

definition sync_run :: "io_sys" where
  "sync_run = io_run (Call Sync 4096 512 7 # Prod 0 # Prod 0 # Prod 0 # Prod 0 #
      Sched # Sched # Sched # Sched # Sched # Sched # Sched # Sched # Sched # Sched #
      Sched # Sched # Sched # Sched # Sched # Sched # Sched # Sched # Sched # Sched # [Prod 0])
     (io_init (example_queue 1))"

lemma sync_run_end: "i_pc sync_run 0 = N_ret \<and> i_kind sync_run 0 = Sync \<and> i_sched sync_run = S_base \<and> i_n sync_run = 1"
  by (simp add: sync_run_def io_run_defs del: not_None_eq)

theorem io_sched_fifo_witness:
  "i_pc sync_run 0 = N_ret \<and> 0 < length (i_drained sync_run) \<and> i_drained sync_run ! 0 = i_req sync_run 0"
proof -
  have "io_reach 1 sync_run"
    unfolding sync_run_def by (rule reach_example) simp
  note f = conjunct1[OF io_sched_fifo[OF this]]
  obtain m where "i_drained sync_run = map (i_req sync_run) [0..<m]"
    "\<forall>c. i_pc sync_run c = N_ret \<longrightarrow> i_kind sync_run c = Sync \<longrightarrow> c < m"
    using f by blast
  then show ?thesis
    using sync_run_end by simp
qed


text \<open>\<open>io_sched_wait\<close> polls the flag of an entry, and the entry is given to the next producer as soon as the
  scheduler has moved the head. Here two requests use a ring of one entry: both complete, the second caller
  takes the flag, and the first, whose flag was cleared by the second enqueue, finds the flag
  cleared in a state in which no request is left.\<close>

definition lost_wakeup_run :: "io_sys" where
  "lost_wakeup_run = io_run
     (Call Async 4096 512 7 # Prod 0 # Prod 0 # Prod 0 # Prod 0 #
      Sched # Sched # Sched # Sched # Sched # Sched # Sched # Sched # Sched # Sched #
      Sched # Sched # Sched # Sched # Sched # Sched # Sched # Sched # Sched # Sched # Call Async 8192 512 8 #
      Prod 1 # Prod 1 # Prod 1 # Prod 1 #
      Sched # Sched # Sched # Sched # Sched # Sched # Sched # Sched # Sched # Sched #
      Sched # Sched # Sched # Sched # Sched # Sched # Sched # Sched # Sched # Prod 1 # [Prod 1])
     (io_init (example_queue 0))"

lemma io_sched_wait_lost_wakeup:
  "io_reach 0 lost_wakeup_run \<and> i_n lost_wakeup_run = 2 \<and> head_of lost_wakeup_run = 2 \<and>
   i_pc lost_wakeup_run 0 = N_flag \<and> i_pc lost_wakeup_run 1 = N_ret \<and> ioq_done_flags (i_q lost_wakeup_run) 0 = 0"
proof -
  have "io_reach 0 lost_wakeup_run"
    unfolding lost_wakeup_run_def by (rule reach_example) simp
  then show ?thesis
    by (simp add: lost_wakeup_run_def io_run_defs head_of_def del: not_None_eq)
qed

text \<open>The bound on the number of requests is needed: the ticket of the last slot before the counters wrap is 0, and
  its caller does not wait at all.\<close>

lemma not_done_wrap: "\<not> not_done q (- 1)"
  by (simp add: not_done_def)

lemma scan_loop_spec:
  "unat i + n < 2 ^ 32 \<Longrightarrow>
   unat i \<le> unat (scan_loop q start n i) \<and> unat (scan_loop q start n i) \<le> unat i + n \<and>
   (\<forall>j. unat i \<le> j \<longrightarrow> j < unat (scan_loop q start n i) \<longrightarrow>
     ioq_prod_seq q (unat ((start + of_nat j) AND ioq_capacity_mask q)) = start + of_nat j + 1) \<and>
   (unat (scan_loop q start n i) < unat i + n \<longrightarrow>
     ioq_prod_seq q (unat ((start + scan_loop q start n i) AND ioq_capacity_mask q)) \<noteq> start + scan_loop q start n i + 1)"
proof (induction q start n i rule: scan_loop.induct)
  case (2 q start n i)
  have i: "unat (i + 1) = unat i + 1"
    using 2(2) by (simp add: unat_add_no_wrap)
  show ?case
  proof (cases "ioq_prod_seq q (unat ((start + i) AND ioq_capacity_mask q)) = start + i + 1")
    case True
    then have "scan_loop q start (Suc n) i = scan_loop q start n (i + 1)"
      by simp
    moreover note 2(1)[OF _ , simplified i]
    ultimately show ?thesis
      using True 2(2) by (auto simp: i Suc_le_eq le_less[of "unat i"])
  qed simp
qed simp

text \<open>\<open>io_sched_scan_ready\<close> returns the length of the run of ready entries that starts at \<open>start\<close>, cut off
  at the number of claimed entries and at \<open>max_count\<close>.\<close>

theorem io_sched_scan_ready_spec:
  "io_sched_scan_ready q start max_count \<le> max_count \<and> io_sched_scan_ready q start max_count \<le> ioq_prod_tail q - start \<and>
   (\<forall>j < unat (io_sched_scan_ready q start max_count).
      ioq_prod_seq q (unat ((start + of_nat j) AND ioq_capacity_mask q)) = start + of_nat j + 1) \<and>
   (io_sched_scan_ready q start max_count = min max_count (ioq_prod_tail q - start) \<or>
    ioq_prod_seq q (unat ((start + io_sched_scan_ready q start max_count) AND ioq_capacity_mask q)) \<noteq>
      start + io_sched_scan_ready q start max_count + 1)"
proof -
  let ?p = "scan_pending q start max_count"
  have p: "?p = min max_count (ioq_prod_tail q - start)"
    by (auto simp: scan_pending_def Let_def min_def)
  have "unat ?p < 2 ^ 32"
    using unsigned_less[of ?p, where 'a = nat] by simp
  then have r: "io_sched_scan_ready q start max_count \<le> ?p \<and>
    (\<forall>j < unat (io_sched_scan_ready q start max_count).
      ioq_prod_seq q (unat ((start + of_nat j) AND ioq_capacity_mask q)) = start + of_nat j + 1) \<and>
    (io_sched_scan_ready q start max_count < ?p \<longrightarrow>
      ioq_prod_seq q (unat ((start + io_sched_scan_ready q start max_count) AND ioq_capacity_mask q)) \<noteq>
      start + io_sched_scan_ready q start max_count + 1)"
    using scan_loop_spec[of 0 "unat ?p" q start] unfolding io_sched_scan_ready_def
    by (simp add: word_le_nat_alt word_less_nat_alt)
  then have "io_sched_scan_ready q start max_count = ?p \<or> io_sched_scan_ready q start max_count < ?p"
    by auto
  then show ?thesis
    using r unfolding p by auto
qed

theorem io_sched_scan_ready_spec_witness:
  "io_sched_scan_ready ((example_queue 2)\<lparr>ioq_prod_tail := 3, ioq_prod_seq := (\<lambda>_. 0)(0 := 1, 1 := 2)\<rparr>) 0 4 \<le> 3"
  using io_sched_scan_ready_spec[of "(example_queue 2)\<lparr>ioq_prod_tail := 3, ioq_prod_seq := (\<lambda>_. 0)(0 := 1, 1 := 2)\<rparr>" 0 4]
  by simp

end
