(* ===== verification/IoAlloc.thy ===== *)
theory IoAlloc
  imports IoQueue Dma
begin

text \<open>
  Creation and destruction of the scheduler's queue and of the victim buffer, the host side of
  \<open>include/io_scheduler.cuh\<close>.

  GPU memory is a heap of blocks: \<open>cudaMalloc\<close> and \<open>cudaMallocManaged\<close> take the next block or fail, as the
  oracle \<open>g_oom\<close> says, and leave their result parameter alone when they fail; the device address of a
  block is what the runtime chose, \<open>g_addr\<close>. Pointers are blocks, \<open>None\<close> the null pointer. Memory fresh
  from \<open>cudaMallocManaged\<close> has arbitrary contents, which is the argument \<open>junk\<close>. DMA mappings are made by the
  operations of \<open>Dma\<close>.
\<close>

subsection \<open>GPU memory\<close>

record gpu_heap =
  g_live :: "nat \<Rightarrow> bool"
  g_next :: nat
  g_oom :: "nat \<Rightarrow> bool"
  g_addr :: "nat \<Rightarrow> u64"

definition cuda_malloc :: "nat option \<Rightarrow> gpu_heap \<Rightarrow> nat option \<times> gpu_heap" where
  "cuda_malloc old h =
     (if g_oom h (g_next h) then (old, h\<lparr>g_next := g_next h + 1\<rparr>)
      else (Some (g_next h), h\<lparr>g_next := g_next h + 1, g_live := (g_live h)(g_next h := True)\<rparr>))"

definition cuda_free :: "nat option \<Rightarrow> gpu_heap \<Rightarrow> gpu_heap" where
  "cuda_free p h = (case p of None \<Rightarrow> h | Some b \<Rightarrow> h\<lparr>g_live := (g_live h)(b := False)\<rparr>)"

definition align_up_64k :: "u64 \<Rightarrow> u64" where
  "align_up_64k raw = (let align = 64 * 1024 in (raw + align) AND NOT (align - 1))"

subsection \<open>The queue\<close>

record io_queue_mem =
  qm_self :: nat
  qm_q :: io_queue_t
  qm_entries :: "nat option"
  qm_done_flags :: "nat option"
  qm_done_seq :: "nat option"
  qm_prod_seq :: "nat option"
  qm_prp_pool_vaddr :: "nat option"
  qm_prp_pool_ioaddr :: "nat option"
  qm_prp_pool_vaddrs :: "u64 list"
  qm_prp_pool_ioaddrs :: "u64 list"
  qm_prp_pool_n_slots :: u32
  qm_prp_pool_raw :: "nat option"
  qm_prp_pool_dma :: "nat option"
  qm_gsort_keys :: "nat option"
  qm_gsort_keys_alt :: "nat option"
  qm_gsort_vals :: "nat option"
  qm_gsort_vals_alt :: "nat option"
  qm_gsort_pc_entries :: "nat option"
  qm_gsort_nbytes :: "nat option"
  qm_gsort_group_starts :: "nat option"

definition zero_request :: io_request_t where
  "zero_request = \<lparr>rq_byte_offset = 0, rq_pc_entry = 0, rq_opcode = 0, rq_n_bytes_log2 = 0\<rparr>"

definition init_queue :: "u32 \<Rightarrow> u32 \<Rightarrow> io_queue_t" where
  "init_queue capacity sched_qp_base =
     \<lparr>ioq_entries = (\<lambda>_. zero_request), ioq_done_flags = (\<lambda>_. 0), ioq_done_seq = (\<lambda>_. 0), ioq_prod_seq = (\<lambda>_. 0),
      ioq_capacity = capacity, ioq_capacity_mask = capacity - 1, ioq_prod_tail = 0, ioq_prod_ready = 0,
      ioq_cons_head = 0, ioq_shutdown = 0, ioq_sched_paused = 0, ioq_submitted_ios = 0, ioq_merged_ios = 0,
      ioq_sched_qp_base = sched_qp_base\<rparr>"

definition no_pool :: "io_queue_mem \<Rightarrow> io_queue_mem" where
  "no_pool m = m\<lparr>qm_prp_pool_vaddr := None, qm_prp_pool_ioaddr := None, qm_prp_pool_n_slots := 0,
     qm_prp_pool_raw := None, qm_prp_pool_dma := None\<rparr>"

definition handle_of :: "nat \<Rightarrow> 'a dma_state_scheme \<Rightarrow> nvm_dma_t" where
  "handle_of c s = (case ds_conts s c of None \<Rightarrow> empty_handle False | Some co \<Rightarrow> d_handle co)"

text \<open>The pool of PRP lists, one page per merged command.\<close>

definition create_prp_pool ::
  "os \<Rightarrow> kern \<Rightarrow> nat \<Rightarrow> io_queue_mem \<Rightarrow> gpu_heap \<Rightarrow> 'a dma_state_scheme \<Rightarrow>
   io_queue_mem \<times> gpu_heap \<times> 'a dma_state_scheme" where
  "create_prp_pool os k ctrl m h s =
     (let n_slots = kSchedMaxBatch;
          pool_bytes = ucast n_slots * 4096 :: u64
      in case cuda_malloc None h of
           (None, h) \<Rightarrow> (m, h, s)
         | (Some raw, h) \<Rightarrow>
             let aligned = align_up_64k (g_addr h raw)
             in case nvm_dma_map_device os k ctrl (unat aligned) pool_bytes s of
                  (err, dma, s) \<Rightarrow>
                    if err \<noteq> 0 \<or> dma = None then (no_pool m, cuda_free (Some raw) h, s)
                    else
                      let h_va = map (\<lambda>i. aligned + of_nat i * 4096) [0..<unat n_slots];
                          h_io = map (\<lambda>i. dma_ioaddrs (handle_of (the dma) s) ! i) [0..<unat n_slots]
                      in case cuda_malloc None h of
                           (d_va, h) \<Rightarrow>
                         case cuda_malloc None h of
                           (d_io, h) \<Rightarrow>
                             (m\<lparr>qm_prp_pool_vaddr := d_va, qm_prp_pool_ioaddr := d_io,
                                qm_prp_pool_vaddrs := h_va, qm_prp_pool_ioaddrs := h_io,
                                qm_prp_pool_n_slots := n_slots, qm_prp_pool_raw := Some raw, qm_prp_pool_dma := dma\<rparr>,
                              h, s))"

definition create_gsort :: "io_queue_mem \<Rightarrow> gpu_heap \<Rightarrow> io_queue_mem \<times> gpu_heap" where
  "create_gsort m h =
     (let (p1, h) = cuda_malloc (qm_gsort_keys m) h;
          (p2, h) = cuda_malloc (qm_gsort_keys_alt m) h;
          (p3, h) = cuda_malloc (qm_gsort_vals m) h;
          (p4, h) = cuda_malloc (qm_gsort_vals_alt m) h;
          (p5, h) = cuda_malloc (qm_gsort_pc_entries m) h;
          (p6, h) = cuda_malloc (qm_gsort_nbytes m) h;
          (p7, h) = cuda_malloc (qm_gsort_group_starts m) h
      in (m\<lparr>qm_gsort_keys := p1, qm_gsort_keys_alt := p2, qm_gsort_vals := p3, qm_gsort_vals_alt := p4,
            qm_gsort_pc_entries := p5, qm_gsort_nbytes := p6, qm_gsort_group_starts := p7\<rparr>, h))"

definition no_gsort :: "io_queue_mem \<Rightarrow> io_queue_mem" where
  "no_gsort m = m\<lparr>qm_gsort_keys := None, qm_gsort_keys_alt := None, qm_gsort_vals := None, qm_gsort_vals_alt := None,
     qm_gsort_pc_entries := None, qm_gsort_nbytes := None, qm_gsort_group_starts := None\<rparr>"

definition io_sched_create ::
  "os \<Rightarrow> kern \<Rightarrow> u32 \<Rightarrow> u32 \<Rightarrow> nat option \<Rightarrow> io_queue_mem \<Rightarrow> gpu_heap \<Rightarrow> 'a dma_state_scheme \<Rightarrow>
   io_queue_mem option \<times> gpu_heap \<times> 'a dma_state_scheme" where
  "io_sched_create os k capacity sched_qp_base ctrl junk h s =
     (if capacity = 0 \<or> capacity AND (capacity - 1) \<noteq> 0 then (None, h, s)
      else case cuda_malloc None h of
        (None, h) \<Rightarrow> (None, h, s)
      | (Some q, h) \<Rightarrow>
      case cuda_malloc None h of
        (None, h) \<Rightarrow> (None, cuda_free (Some q) h, s)
      | (entries, h) \<Rightarrow>
      case cuda_malloc None h of
        (None, h) \<Rightarrow> (None, cuda_free (Some q) (cuda_free entries h), s)
      | (done_flags, h) \<Rightarrow>
      case cuda_malloc None h of
        (None, h) \<Rightarrow> (None, cuda_free (Some q) (cuda_free entries (cuda_free done_flags h)), s)
      | (done_seq, h) \<Rightarrow>
      case cuda_malloc None h of
        (None, h) \<Rightarrow>
          (None, cuda_free (Some q) (cuda_free entries (cuda_free done_flags (cuda_free done_seq h))), s)
      | (prod_seq, h) \<Rightarrow>
          let m = junk\<lparr>qm_self := q, qm_q := init_queue capacity sched_qp_base, qm_entries := entries,
                  qm_done_flags := done_flags, qm_done_seq := done_seq, qm_prod_seq := prod_seq\<rparr>
          in case ctrl of
               None \<Rightarrow> (Some (no_gsort (no_pool m)), h, s)
             | Some c \<Rightarrow>
                 (case create_prp_pool os k c m h s of
                    (m, h, s) \<Rightarrow> case create_gsort m h of (m, h) \<Rightarrow> (Some m, h, s)))"

definition io_sched_destroy :: "io_queue_mem option \<Rightarrow> gpu_heap \<Rightarrow> 'a dma_state_scheme \<Rightarrow> gpu_heap \<times> 'a dma_state_scheme" where
  "io_sched_destroy qo h s =
     (case qo of None \<Rightarrow> (h, s)
      | Some q \<Rightarrow>
          let h = fold cuda_free [qm_entries q, qm_done_flags q, qm_done_seq q, qm_prod_seq q,
                 qm_prp_pool_vaddr q, qm_prp_pool_ioaddr q] h;
              s = nvm_dma_unmap (qm_prp_pool_dma q) s;
              h = fold cuda_free [qm_prp_pool_raw q, qm_gsort_keys q, qm_gsort_keys_alt q, qm_gsort_vals q,
                 qm_gsort_vals_alt q, qm_gsort_pc_entries q, qm_gsort_nbytes q, qm_gsort_group_starts q,
                 Some (qm_self q)] h
          in (h, s))"

subsection \<open>The victim buffer\<close>

definition VICTIM_COPYING :: u32 where "VICTIM_COPYING = 1"
definition VICTIM_OCCUPIED :: u32 where "VICTIM_OCCUPIED = 2"






subsection \<open>Creation and destruction\<close>


lemma cuda_malloc_fails: "g_oom h (g_next h) \<Longrightarrow> cuda_malloc p h = (p, h\<lparr>g_next := g_next h + 1\<rparr>)"
  by (simp add: cuda_malloc_def)

lemma cuda_malloc_takes:
  "\<not> g_oom h (g_next h) \<Longrightarrow>
   cuda_malloc p h = (Some (g_next h), h\<lparr>g_next := g_next h + 1, g_live := (g_live h)(g_next h := True)\<rparr>)"
  by (simp add: cuda_malloc_def)

text \<open>\<open>h'\<close> is \<open>h\<close> with the new blocks \<open>B\<close>.\<close>

definition grown :: "gpu_heap \<Rightarrow> nat set \<Rightarrow> gpu_heap \<Rightarrow> bool" where
  "grown h B h' \<longleftrightarrow> g_next h \<le> g_next h' \<and> g_oom h' = g_oom h \<and> (\<forall>b \<in> B. g_next h \<le> b \<and> b < g_next h') \<and>
     (\<forall>b. g_live h' b \<longleftrightarrow> g_live h b \<or> b \<in> B)"

lemma grown_refl: "grown h {} h"
  by (simp add: grown_def)























definition example_heap :: "(nat \<Rightarrow> bool) \<Rightarrow> gpu_heap" where
  "example_heap oom = \<lparr>g_live = (\<lambda>b. b = 0), g_next = 1, g_oom = oom, g_addr = (\<lambda>b. of_nat b * 0x100000)\<rparr>"

definition example_junk :: io_queue_mem where
  "example_junk = \<lparr>qm_self = 0, qm_q = init_queue 0 0, qm_entries = Some 0, qm_done_flags = Some 0, qm_done_seq = Some 0,
     qm_prod_seq = Some 0, qm_prp_pool_vaddr = Some 0, qm_prp_pool_ioaddr = Some 0, qm_prp_pool_vaddrs = [],
     qm_prp_pool_ioaddrs = [], qm_prp_pool_n_slots = 3, qm_prp_pool_raw = Some 0, qm_prp_pool_dma = None,
     qm_gsort_keys = Some 0, qm_gsort_keys_alt = Some 0, qm_gsort_vals = Some 0, qm_gsort_vals_alt = Some 0,
     qm_gsort_pc_entries = Some 0, qm_gsort_nbytes = Some 0, qm_gsort_group_starts = Some 0\<rparr>"


text \<open>When the pool cannot be allocated its fields are not written, and \<open>io_sched_destroy\<close> frees whatever pointers the fresh
  memory held: here block 0, which belongs to somebody else.\<close>

lemma io_sched_create_stale_pool:
  "case io_sched_create example_os \<lparr>k_map = (\<lambda>_ _ _. (-1, [])), k_memalign = 0\<rparr> 8 0 (Some 7) example_junk
     (example_heap (\<lambda>b. b = 6)) example_dma_state of
   (r, h', s') \<Rightarrow> r \<noteq> None \<and> g_live h' 0 \<and> \<not> g_live (fst (io_sched_destroy r h' s')) 0"
  by (simp add: example_heap_def io_sched_create_def create_prp_pool_def create_gsort_def cuda_malloc_def cuda_free_def
      io_sched_destroy_def example_junk_def Let_def)

subsection \<open>The address table of the victim buffer\<close>









end
