(* ===== verification/IoSort.thy ===== *)
theory IoSort
  imports IoQueue
begin

text \<open>
  The sorting phase of the write scheduler, \<open>benchmarks/io_scheduler/io_scheduler_impl.cuh\<close>: the radix sort with a
  serial scatter (\<open>io_sched_radix_sort\<close>) and the one with a parallel scatter (\<open>io_sched_radix_sort_v2\<close>).

  Threads of a block meet at every barrier, so a phase between two barriers is one step: loops over
  the threads that write disjoint places are loops over the elements. Warp intrinsics are functions of the
  values of the 32 lanes; masks are 32 bit words.
\<close>

subsection \<open>Warp intrinsics\<close>

definition popc :: "u32 \<Rightarrow> nat" where
  "popc m = length (filter (bit m) [0..<32])"

definition match_any :: "u32 \<Rightarrow> (nat \<Rightarrow> nat) \<Rightarrow> nat \<Rightarrow> u32" where
  "match_any valid_mask digit lane = ballot (\<lambda>l. bit valid_mask l \<and> digit l = digit lane)"

definition lane_mask_lt :: "nat \<Rightarrow> u32" where
  "lane_mask_lt lane = push_bit lane 1 - 1"

subsection \<open>Radix sort\<close>

definition radix_digit :: "nat \<Rightarrow> u64 \<Rightarrow> nat" where
  "radix_digit shift key = unat (drop_bit shift key AND 0xFF)"

definition build_hist :: "nat \<Rightarrow> u64 list \<Rightarrow> nat \<Rightarrow> nat \<Rightarrow> u32" where
  "build_hist shift keys n = fold (\<lambda>i h. let d = radix_digit shift (keys ! i) in h(d := h d + 1)) [0..<n] (\<lambda>_. 0)"

definition prefix_sum :: "(nat \<Rightarrow> u32) \<Rightarrow> nat \<Rightarrow> u32" where
  "prefix_sum hist = fst (fold (\<lambda>d (h, s). (h(d := s), s + h d)) [0..<256] (hist, 0))"

definition scatter_step ::
  "nat \<Rightarrow> u64 list \<Rightarrow> u32 list \<Rightarrow> nat \<Rightarrow> (nat \<Rightarrow> u32) \<times> u64 list \<times> u32 list \<Rightarrow> (nat \<Rightarrow> u32) \<times> u64 list \<times> u32 list" where
  "scatter_step shift keys vals i st =
     (let (hist, keys_a, vals_a) = st;
          d = radix_digit shift (keys ! i);
          p = unat (hist d)
      in (hist(d := hist d + 1), keys_a[p := keys ! i], vals_a[p := vals ! i]))"

definition radix_pass ::
  "nat \<Rightarrow> nat \<Rightarrow> u64 list \<times> u32 list \<times> u64 list \<times> u32 list \<Rightarrow> u64 list \<times> u32 list \<times> u64 list \<times> u32 list" where
  "radix_pass n pass st =
     (let (keys, vals, keys_a, vals_a) = st;
          shift = pass * 8;
          hist = prefix_sum (build_hist shift keys n);
          (_, keys_a, vals_a) = fold (scatter_step shift keys vals) [0..<n] (hist, keys_a, vals_a)
      in (keys_a, vals_a, keys, vals))"

text \<open>The buffers are swapped after each pass; the result is what the caller's buffers hold at the end.\<close>

definition io_sched_radix_sort ::
  "u64 list \<Rightarrow> u32 list \<Rightarrow> u64 list \<Rightarrow> u32 list \<Rightarrow> u32 \<Rightarrow> nat \<Rightarrow> u64 list \<times> u32 list" where
  "io_sched_radix_sort keys vals keys_a vals_a n n_passes =
     (case fold (radix_pass (unat n)) [0..<n_passes] (keys, vals, keys_a, vals_a) of
        (keys, vals, keys_a, vals_a) \<Rightarrow> if even n_passes then (keys, vals) else (keys_a, vals_a))"

subsection \<open>Parallel scatter\<close>

text \<open>One warp of a chunk. \<open>idx\<close> is the element of a lane; lanes beyond the end are not valid. The lane of
  rank 0 of each digit claims the positions of its peers; all peers get its position.\<close>

definition warp_scatter ::
  "nat \<Rightarrow> nat \<Rightarrow> u64 list \<Rightarrow> u32 list \<Rightarrow> nat \<Rightarrow> (nat \<Rightarrow> u32) \<times> u64 list \<times> u32 list \<Rightarrow> (nat \<Rightarrow> u32) \<times> u64 list \<times> u32 list" where
  "warp_scatter shift n keys vals first st =
     (let (hist, keys_a, vals_a) = st;
          valid = (\<lambda>lane. first + lane < n);
          digit = (\<lambda>lane. if valid lane then radix_digit shift (keys ! (first + lane)) else 0);
          valid_mask = ballot valid;
          peer_mask = (\<lambda>lane. if valid lane then match_any valid_mask digit lane else 0);
          local_rank = (\<lambda>lane. popc (peer_mask lane AND lane_mask_lt lane));
          count = (\<lambda>lane. popc (peer_mask lane));
          leaders = filter (\<lambda>lane. valid lane \<and> local_rank lane = 0) [0..<32];
          my_pos = (\<lambda>lane. hist (digit (ffs (peer_mask lane) - 1)));
          hist' = fold (\<lambda>lane h. h(digit lane := h (digit lane) + of_nat (count lane))) leaders hist;
          place = (\<lambda>lane. unat (my_pos lane + of_nat (local_rank lane)));
          lanes = filter valid [0..<32]
      in (hist',
          fold (\<lambda>lane a. a[place lane := keys ! (first + lane)]) lanes keys_a,
          fold (\<lambda>lane a. a[place lane := vals ! (first + lane)]) lanes vals_a))"

text \<open>Four warps to a chunk, one after the other; chunks in ascending order.\<close>

definition chunk_scatter ::
  "nat \<Rightarrow> nat \<Rightarrow> u64 list \<Rightarrow> u32 list \<Rightarrow> nat \<Rightarrow> (nat \<Rightarrow> u32) \<times> u64 list \<times> u32 list \<Rightarrow> (nat \<Rightarrow> u32) \<times> u64 list \<times> u32 list" where
  "chunk_scatter shift n keys vals chunk st =
     fold (\<lambda>w. warp_scatter shift n keys vals (chunk + w * 32)) [0..<4] st"

definition radix_pass_v2 ::
  "nat \<Rightarrow> nat \<Rightarrow> u64 list \<times> u32 list \<times> u64 list \<times> u32 list \<Rightarrow> u64 list \<times> u32 list \<times> u64 list \<times> u32 list" where
  "radix_pass_v2 n pass st =
     (let (keys, vals, keys_a, vals_a) = st;
          shift = pass * 8;
          hist = prefix_sum (build_hist shift keys n);
          chunks = (n + unat kSchedThreads - 1) div unat kSchedThreads;
          (_, keys_a, vals_a) =
            fold (\<lambda>c. chunk_scatter shift n keys vals (c * unat kSchedThreads)) [0..<chunks] (hist, keys_a, vals_a)
      in (keys_a, vals_a, keys, vals))"

definition io_sched_radix_sort_v2 ::
  "u64 list \<Rightarrow> u32 list \<Rightarrow> u64 list \<Rightarrow> u32 list \<Rightarrow> u32 \<Rightarrow> nat \<Rightarrow> u64 list \<times> u32 list" where
  "io_sched_radix_sort_v2 keys vals keys_a vals_a n n_passes =
     (case fold (radix_pass_v2 (unat n)) [0..<n_passes] (keys, vals, keys_a, vals_a) of
        (keys, vals, keys_a, vals_a) \<Rightarrow> if even n_passes then (keys, vals) else (keys_a, vals_a))"

subsection \<open>Stable sorting by a key\<close>

lemma sorted_key_split:
  "sorted (map f xs) \<Longrightarrow> filter (\<lambda>x. f x < Suc n) xs = filter (\<lambda>x. f x < n) xs @ filter (\<lambda>x. f x = n) xs"
  for f :: "'a \<Rightarrow> nat"
proof (induction xs)
  case (Cons x xs)
  show ?case
  proof (cases "f x < n")
    case False
    then have "filter (\<lambda>x. f x < n) xs = []"
      using Cons.prems by (auto simp: filter_empty_conv)
    then show ?thesis
      using Cons False by (auto simp: less_Suc_eq)
  qed (use Cons in auto)
qed simp

lemma sorted_key_concat:
  fixes f :: "'a \<Rightarrow> nat"
  assumes "sorted (map f xs)" "\<forall>x \<in> set xs. f x < n"
  shows "xs = concat (map (\<lambda>d. filter (\<lambda>x. f x = d) xs) [0..<n])"
proof -
  have "filter (\<lambda>x. f x < m) xs = concat (map (\<lambda>d. filter (\<lambda>x. f x = d) xs) [0..<m])" for m
    by (induction m) (simp_all add: sorted_key_split[OF assms(1)])
  moreover have "filter (\<lambda>x. f x < n) xs = xs"
    using assms(2) by (simp add: filter_id_conv)
  ultimately show ?thesis
    by metis
qed

lemma sort_key_unique:
  fixes f :: "'a \<Rightarrow> nat"
  assumes "sorted (map f ys)" "\<And>d. filter (\<lambda>x. f x = d) ys = filter (\<lambda>x. f x = d) xs" "\<forall>x \<in> set ys. f x < n"
  shows "ys = sort_key f xs"
proof -
  have fl: "filter (\<lambda>x. f x = d) (sort_key f xs) = filter (\<lambda>x. f x = d) xs" for d
    by (rule sort_key_stable)
  have "\<forall>x \<in> set (sort_key f xs). f x < n"
  proof
    fix x
    assume "x \<in> set (sort_key f xs)"
    then have "x \<in> set (filter (\<lambda>y. f y = f x) xs)"
      by simp
    then show "f x < n"
      using assms(2)[of "f x"] assms(3) by (metis filter_is_subset subsetD)
  qed
  then have "sort_key f xs = concat (map (\<lambda>d. filter (\<lambda>x. f x = d) xs) [0..<n])"
    using sorted_key_concat[of f "sort_key f xs" n] by (simp add: fl)
  moreover have "ys = concat (map (\<lambda>d. filter (\<lambda>x. f x = d) xs) [0..<n])"
    using sorted_key_concat[OF assms(1,3)] by (simp add: assms(2))
  ultimately show ?thesis
    by simp
qed

lemma sorted_lex:
  fixes f g :: "'a \<Rightarrow> nat"
  assumes "sorted (map g xs)" "\<And>c. sorted (map f (filter (\<lambda>x. g x = c) xs))" "\<forall>x \<in> set xs. f x < b"
  shows "sorted (map (\<lambda>x. g x * b + f x) xs)"
  using assms
proof (induction xs)
  case (Cons x xs)
  have "g x * b + f x \<le> g y * b + f y" if y: "y \<in> set xs" for y
  proof (cases "g x = g y")
    case True
    then show ?thesis
      using Cons.prems(2)[of "g x"] y by auto
  next
    case False
    then have "Suc (g x) * b \<le> g y * b"
      using Cons.prems(1) y by (intro mult_le_mono1) (simp add: Suc_le_eq le_neq_implies_less)
    then show ?thesis
      using Cons.prems(3) by simp
  qed
  moreover have "sorted (map f (filter (\<lambda>x. g x = c) xs))" for c
    using Cons.prems(2)[of c] by (cases "g x = c") simp_all
  ultimately show ?case
    using Cons by simp
qed simp

lemma sort_key_lex:
  fixes f g :: "'a \<Rightarrow> nat"
  assumes "\<forall>x \<in> set xs. f x < b \<and> g x < n"
  shows "sort_key g (sort_key f xs) = sort_key (\<lambda>x. g x * b + f x) xs"
proof (rule sort_key_unique)
  let ?L = "sort_key g (sort_key f xs)"
  have fg: "filter (\<lambda>x. g x = c) ?L = filter (\<lambda>x. g x = c) (sort_key f xs)" for c
    by (rule sort_key_stable)
  show "sorted (map (\<lambda>x. g x * b + f x) ?L)"
  proof (rule sorted_lex)
    show "sorted (map f (filter (\<lambda>x. g x = c) ?L))" for c
      unfolding fg by (rule sorted_filter) simp
  qed (use assms in simp_all)
  show "filter (\<lambda>x. g x * b + f x = d) ?L = filter (\<lambda>x. g x * b + f x = d) xs" for d
  proof -
    have e: "g x * b + f x = d \<longleftrightarrow> f x = d mod b \<and> g x = d div b" if "x \<in> set xs" for x
      using assms that by (metis add.commute div_less div_mult_self3 mod_less mod_mult_self3 mod_div_mult_eq add_0
          div_mult_self1 less_nat_zero_code)
    have "filter (\<lambda>x. g x * b + f x = d) ?L = filter (\<lambda>x. f x = d mod b) (filter (\<lambda>x. g x = d div b) ?L)"
      unfolding filter_filter by (rule filter_cong[OF refl]) (use e in auto)
    also have "\<dots> = filter (\<lambda>x. g x = d div b) (filter (\<lambda>x. f x = d mod b) (sort_key f xs))"
      unfolding fg filter_filter by (rule filter_cong) auto
    also have "\<dots> = filter (\<lambda>x. g x = d div b) (filter (\<lambda>x. f x = d mod b) xs)"
      by (simp only: sort_key_stable)
    also have "\<dots> = filter (\<lambda>x. g x * b + f x = d) xs"
      unfolding filter_filter by (rule filter_cong[OF refl]) (use e in auto)
    finally show ?thesis .
  qed
  show "\<forall>x \<in> set ?L. g x * b + f x < n * b"
  proof
    fix x
    assume "x \<in> set ?L"
    then have "f x < b" "Suc (g x) \<le> n"
      using assms by (simp_all add: Suc_le_eq)
    then show "g x * b + f x < n * b"
      using mult_le_mono1[of "Suc (g x)" n b] by simp
  qed
qed

subsection \<open>Counting sort\<close>

text \<open>The scatter loop on lists of elements, with the histogram as natural numbers.\<close>

definition place :: "('a \<Rightarrow> nat) \<Rightarrow> 'a \<Rightarrow> (nat \<Rightarrow> nat) \<times> 'a list \<Rightarrow> (nat \<Rightarrow> nat) \<times> 'a list" where
  "place f x st = ((fst st)(f x := Suc (fst st (f x))), (snd st)[fst st (f x) := x])"

definition cnt :: "('a \<Rightarrow> nat) \<Rightarrow> nat \<Rightarrow> 'a list \<Rightarrow> nat" where
  "cnt f d xs = length (filter (\<lambda>x. f x = d) xs)"

definition base :: "('a \<Rightarrow> nat) \<Rightarrow> 'a list \<Rightarrow> nat \<Rightarrow> nat" where
  "base f xs d = length (filter (\<lambda>x. f x < d) xs)"

lemma base_0 [simp]: "base f xs 0 = 0"
  by (simp add: base_def)

lemma base_Suc: "base f xs (Suc d) = base f xs d + cnt f d xs"
  by (induction xs) (auto simp: base_def cnt_def less_Suc_eq)

lemma base_mono: "d \<le> e \<Longrightarrow> base f xs d \<le> base f xs e"
  by (induction e) (auto simp: le_Suc_eq base_Suc)

lemma base_le: "base f xs d \<le> length xs"
  by (simp add: base_def)

lemma base_step: "d < e \<Longrightarrow> base f xs d + cnt f d xs \<le> base f xs e"
  using base_mono[of "Suc d" e f xs] by (simp add: base_Suc)

lemma base_inj:
  assumes "base f xs d + j = base f xs d' + j'" "j < cnt f d xs" "j' < cnt f d' xs"
  shows "d = d' \<and> j = j'"
proof -
  have "\<not> d < d'" "\<not> d' < d"
    using base_step[of d d' f xs] base_step[of d' d f xs] assms by linarith+
  then show ?thesis
    using assms(1) by auto
qed

lemma place_loop:
  assumes "ys @ zs = xs" "length xs \<le> length out"
  shows "let st = fold (place f) ys (base f xs, out) in
    (\<forall>d. fst st d = base f xs d + cnt f d ys) \<and> length (snd st) = length out \<and> drop (length xs) (snd st) = drop (length xs) out \<and>
    (\<forall>d j. j < cnt f d ys \<longrightarrow> snd st ! (base f xs d + j) = filter (\<lambda>x. f x = d) ys ! j)"
  using assms
proof (induction ys arbitrary: zs rule: rev_induct)
  case Nil
  then show ?case by (simp add: cnt_def)
next
  case (snoc y ys)
  define st where "st = fold (place f) ys (base f xs, out)"
  have IH: "\<forall>d. fst st d = base f xs d + cnt f d ys" "length (snd st) = length out"
    "drop (length xs) (snd st) = drop (length xs) out"
    "\<forall>d j. j < cnt f d ys \<longrightarrow> snd st ! (base f xs d + j) = filter (\<lambda>x. f x = d) ys ! j"
    using snoc.IH[of "y # zs"] snoc.prems by (simp_all add: st_def Let_def)
  define p where "p = base f xs (f y) + cnt f (f y) ys"
  have xs: "cnt f d xs = cnt f d ys + cnt f d (y # zs)" for d
    using snoc.prems(1) by (auto simp: cnt_def)
  have more: "cnt f (f y) ys < cnt f (f y) xs"
    by (simp add: xs) (simp add: cnt_def)
  have p: "p < length xs"
    using base_step[of "f y" "Suc (f y)" f xs] base_le[of f xs "Suc (f y)"] more by (simp add: p_def)
  have e: "fold (place f) (ys @ [y]) (base f xs, out) = ((fst st)(f y := Suc (fst st (f y))), (snd st)[p := y])"
    using IH(1) by (simp add: st_def[symmetric] place_def p_def)
  have "(snd st)[p := y] ! (base f xs d + j) = filter (\<lambda>x. f x = d) (ys @ [y]) ! j" if j: "j < cnt f d (ys @ [y])" for d j
  proof (cases "d = f y \<and> j = cnt f (f y) ys")
    case True
    then show ?thesis
      using p IH(2) snoc.prems(2) by (auto simp: p_def nth_append cnt_def)
  next
    case False
    then have j': "j < cnt f d ys"
      using j by (auto simp: cnt_def less_Suc_eq split: if_splits)
    then have "base f xs d + j \<noteq> p"
      using base_inj[of f xs d j "f y" "cnt f (f y) ys"] more xs[of d] False by (auto simp: p_def)
    then show ?thesis
      using IH(4) j' by (simp add: nth_append cnt_def)
  qed
  moreover have "((fst st)(f y := Suc (fst st (f y)))) d = base f xs d + cnt f d (ys @ [y])" for d
    using IH(1) by (simp add: cnt_def)
  ultimately show ?case
    unfolding Let_def e using IH(2,3) p by (simp add: drop_update_cancel)
qed

lemma concat_nth:
  assumes "p < length (concat (map g [0..<n]))"
  shows "\<exists>d < n. \<exists>j < length (g d). p = length (concat (map g [0..<d])) + j \<and> concat (map g [0..<n]) ! p = g d ! j"
  using assms
proof (induction n)
  case (Suc n)
  show ?case
  proof (cases "p < length (concat (map g [0..<n]))")
    case True
    then show ?thesis
      using Suc.IH by (fastforce simp: nth_append less_Suc_eq)
  next
    case False
    then show ?thesis
      using Suc.prems by (intro exI[of _ n] conjI exI[of _ "p - length (concat (map g [0..<n]))"]) (simp_all add: nth_append)
  qed
qed simp

lemma length_buckets: "length (concat (map (\<lambda>d. filter (\<lambda>x. f x = d) xs) [0..<n])) = base f xs n"
  by (induction n) (simp_all add: base_Suc cnt_def)

text \<open>Placing all elements sorts them stably.\<close>

lemma place_sorts:
  assumes "length xs \<le> length out" "\<forall>x \<in> set xs. f x < n"
  shows "snd (fold (place f) xs (base f xs, out)) = sort_key f xs @ drop (length xs) out"
proof -
  define st where "st = fold (place f) xs (base f xs, out)"
  have l: "length (snd st) = length out" "drop (length xs) (snd st) = drop (length xs) out"
    "\<And>d j. j < cnt f d xs \<Longrightarrow> snd st ! (base f xs d + j) = filter (\<lambda>x. f x = d) xs ! j"
    using place_loop[of xs "[]" xs out f] assms(1) by (simp_all add: st_def Let_def)
  let ?g = "\<lambda>d. filter (\<lambda>x. f x = d) xs"
  have all: "base f xs n = length xs"
    using assms(2) by (simp add: base_def filter_id_conv)
  have "take (length xs) (snd st) = concat (map ?g [0..<n])"
  proof (rule nth_equalityI)
    show "length (take (length xs) (snd st)) = length (concat (map ?g [0..<n]))"
      using assms(1) l(1) all by (simp add: length_buckets)
    fix p
    assume "p < length (take (length xs) (snd st))"
    then have p: "p < length xs" "p < length (concat (map ?g [0..<n]))"
      using all by (simp_all add: length_buckets)
    obtain d j where "d < n" "j < length (?g d)" "p = length (concat (map ?g [0..<d])) + j" "concat (map ?g [0..<n]) ! p = ?g d ! j"
      using concat_nth[OF p(2)] by blast
    then show "take (length xs) (snd st) ! p = concat (map ?g [0..<n]) ! p"
      using l(3)[of j d] p(1) by (simp add: length_buckets cnt_def)
  qed
  moreover have "sort_key f xs = concat (map ?g [0..<n])"
    using sorted_key_concat[of f "sort_key f xs" n] assms(2) by (simp add: sort_key_stable)
  ultimately show ?thesis
    using l(2) unfolding st_def by (metis append_take_drop_id)
qed

subsection \<open>The passes\<close>

definition elems :: "nat \<Rightarrow> u64 list \<Rightarrow> u32 list \<Rightarrow> (u64 \<times> u32) list" where
  "elems n keys vals = zip (take n keys) (take n vals)"

definition digit_of :: "nat \<Rightarrow> u64 \<times> u32 \<Rightarrow> nat" where
  "digit_of shift x = radix_digit shift (fst x)"

lemma radix_digit_div: "radix_digit shift k = unat k div 2 ^ shift mod 256"
proof -
  have "drop_bit shift k AND 0xFF = take_bit 8 (drop_bit shift k)"
    by (simp add: take_bit_eq_mask mask_eq_exp_minus_1)
  then show ?thesis
    by (simp add: radix_digit_def take_bit_drop_bit_unat)
qed

lemma digit_of_less: "digit_of shift x < 256"
  by (simp add: digit_of_def radix_digit_div)

lemma length_elems: "n \<le> length keys \<Longrightarrow> n \<le> length vals \<Longrightarrow> length (elems n keys vals) = n"
  by (simp add: elems_def)

lemma elems_nth: "n \<le> length keys \<Longrightarrow> n \<le> length vals \<Longrightarrow> i < n \<Longrightarrow> elems n keys vals ! i = (keys ! i, vals ! i)"
  by (simp add: elems_def)

lemma build_hist_cnt:
  assumes "n \<le> length keys" "n \<le> length vals"
  shows "build_hist shift keys n d = of_nat (cnt (digit_of shift) d (elems n keys vals))"
proof -
  have "fold (\<lambda>i h. let d = radix_digit shift (keys ! i) in h(d := h d + 1)) [0..<m] (\<lambda>_. 0) d =
      (of_nat (cnt (digit_of shift) d (take m (elems n keys vals))) :: u32)" if "m \<le> n" for m d
    using that
  proof (induction m arbitrary: d)
    case (Suc m)
    then have "take (Suc m) (elems n keys vals) = take m (elems n keys vals) @ [(keys ! m, vals ! m)]"
      using assms by (simp add: take_Suc_conv_app_nth length_elems elems_nth)
    then show ?case
      using Suc by (simp add: cnt_def digit_of_def Let_def)
  qed (simp add: cnt_def)
  from this[of n d] show ?thesis
    using assms by (simp add: build_hist_def length_elems)
qed

lemma prefix_sum_base:
  assumes "\<And>d. hist d = of_nat (cnt f d xs)" "d < 256"
  shows "prefix_sum hist d = of_nat (base f xs d)"
proof -
  have "snd (fold (\<lambda>d (h, s). (h(d := s), s + h d)) [0..<m] (hist, 0)) = of_nat (base f xs m) \<and>
      (\<forall>d. fst (fold (\<lambda>d (h, s). (h(d := s), s + h d)) [0..<m] (hist, 0)) d =
        (if d < m then of_nat (base f xs d) else hist d))" for m
  proof (induction m)
    case (Suc m)
    then show ?case
      by (auto simp: case_prod_beta base_Suc assms(1) less_Suc_eq)
  qed simp
  from this[of 256] show ?thesis
    using assms(2) by (simp add: prefix_sum_def del: upt_rec_numeral)
qed


text \<open>The concrete loop follows the abstract one.\<close>

definition follows :: "(nat \<Rightarrow> u32) \<times> u64 list \<times> u32 list \<Rightarrow> (nat \<Rightarrow> nat) \<times> (u64 \<times> u32) list \<Rightarrow> bool" where
  "follows c a \<longleftrightarrow> (\<forall>d < 256. fst c d = of_nat (fst a d)) \<and> fst (snd c) = map fst (snd a) \<and> snd (snd c) = map snd (snd a)"

lemma scatter_follows:
  assumes "follows (hist, ka, va) a" "i < length keys" "i < length vals" "fst a (digit_of shift (keys ! i, vals ! i)) < 2 ^ 32"
  shows "follows (scatter_step shift keys vals i (hist, ka, va)) (place (digit_of shift) (keys ! i, vals ! i) a)"
proof -
  let ?d = "radix_digit shift (keys ! i)"
  have d: "?d < 256" "digit_of shift (keys ! i, vals ! i) = ?d"
    using digit_of_less[of shift "(keys ! i, vals ! i)"] by (simp_all add: digit_of_def)
  have "hist ?d = of_nat (fst a ?d)"
    using assms(1) d(1) by (simp add: follows_def)
  moreover from this have "unat (hist ?d) = fst a ?d"
    using assms(4) d(2) unat_slot[of "fst a ?d"] by simp
  ultimately show ?thesis
    using assms(1) by (simp add: follows_def scatter_step_def place_def d(2) map_update add.commute Let_def)
qed

lemma place_bound:
  assumes "length xs < 2 ^ 32" "length xs \<le> length out" "m < length xs"
  shows "fst (fold (place f) (take m xs) (base f xs, out)) (f (xs ! m)) < 2 ^ 32"
proof -
  have "fst (fold (place f) (take m xs) (base f xs, out)) (f (xs ! m)) = base f xs (f (xs ! m)) + cnt f (f (xs ! m)) (take m xs)"
    using place_loop[of "take m xs" "drop m xs" xs out f] assms(2) by (simp add: Let_def)
  also have "\<dots> \<le> base f xs (f (xs ! m)) + cnt f (f (xs ! m)) xs"
    by (metis add_left_mono append_take_drop_id cnt_def filter_append le_add1 length_append)
  also have "\<dots> \<le> length xs"
    using base_le[of f xs "Suc (f (xs ! m))"] by (simp add: base_Suc)
  finally show ?thesis
    using assms(1) by simp
qed

lemma scatter_loop_follows:
  assumes "n \<le> length keys" "n \<le> length vals" "n < 2 ^ 32" "n \<le> length out" "follows (hist, ka, va) (base (digit_of shift) (elems n keys vals), out)"
    and "m \<le> n"
  shows "follows (fold (scatter_step shift keys vals) [0..<m] (hist, ka, va))
    (fold (place (digit_of shift)) (take m (elems n keys vals)) (base (digit_of shift) (elems n keys vals), out))"
  using assms(6)
proof (induction m)
  case (Suc m)
  let ?xs = "elems n keys vals"
  obtain h a b where st: "fold (scatter_step shift keys vals) [0..<m] (hist, ka, va) = (h, a, b)"
    by (metis prod_cases3)
  have x: "?xs ! m = (keys ! m, vals ! m)" "length ?xs = n"
    using Suc.prems assms(1,2) by (simp_all add: elems_nth length_elems)
  have t: "take (Suc m) ?xs = take m ?xs @ [(keys ! m, vals ! m)]"
    using Suc.prems x by (simp add: take_Suc_conv_app_nth)
  have "follows (scatter_step shift keys vals m (h, a, b))
      (place (digit_of shift) (keys ! m, vals ! m) (fold (place (digit_of shift)) (take m ?xs) (base (digit_of shift) ?xs, out)))"
    using Suc st place_bound[of ?xs out m "digit_of shift"] x assms(1-4)
    by (intro scatter_follows) simp_all
  then show ?case
    by (simp add: st t)
qed (use assms(5) in simp)

lemma start_follows:
  assumes "n \<le> length keys" "n \<le> length vals" "length ka = length va"
  shows "follows (prefix_sum (build_hist shift keys n), ka, va) (base (digit_of shift) (elems n keys vals), zip ka va)"
  using assms prefix_sum_base[OF build_hist_cnt[OF assms(1,2)]] by (simp add: follows_def)

lemma radix_pass_spec:
  assumes "n \<le> length keys" "length vals = length keys" "length ka = length keys" "length va = length keys" "n < 2 ^ 32"
    and "radix_pass n pass (keys, vals, ka, va) = (k', v', ka', va')"
  shows "elems n k' v' = sort_key (digit_of (pass * 8)) (elems n keys vals) \<and> ka' = keys \<and> va' = vals \<and>
    length k' = length keys \<and> length v' = length keys"
proof -
  let ?xs = "elems n keys vals" and ?f = "digit_of (pass * 8)"
  obtain h where st: "fold (scatter_step (pass * 8) keys vals) [0..<n] (prefix_sum (build_hist (pass * 8) keys n), ka, va) = (h, k', v')"
    and r: "ka' = keys" "va' = vals"
    using assms(6) by (auto simp: radix_pass_def Let_def split: prod.splits)
  have xs: "length ?xs = n"
    using assms by (simp add: length_elems)
  have "follows (h, k', v') (fold (place ?f) ?xs (base ?f ?xs, zip ka va))"
    using scatter_loop_follows[OF _ _ _ _ start_follows, where shift = "pass * 8" and m = n and n = n and keys = keys and vals = vals and ka = ka and va = va]
      assms st xs by simp
  moreover have "snd (fold (place ?f) ?xs (base ?f ?xs, zip ka va)) = sort_key ?f ?xs @ drop n (zip ka va)"
    using place_sorts[of ?xs "zip ka va" ?f 256] assms xs by (simp add: digit_of_less)
  ultimately have kv: "k' = map fst (sort_key ?f ?xs @ drop n (zip ka va))" "v' = map snd (sort_key ?f ?xs @ drop n (zip ka va))"
    by (simp_all add: follows_def)
  have "elems n k' v' = sort_key ?f ?xs"
    using xs by (simp add: elems_def kv zip_map_fst_snd)
  then show ?thesis
    using r xs assms by (simp add: kv)
qed


definition low_key :: "nat \<Rightarrow> u64 \<times> u32 \<Rightarrow> nat" where
  "low_key b x = unat (fst x) mod 2 ^ b"

lemma low_key_less: "low_key b x < 2 ^ b"
  by (simp add: low_key_def)

lemma low_key_step: "digit_of b x * 2 ^ b + low_key b x = low_key (b + 8) x"
proof -
  have "unat (fst x) mod (2 ^ b * 256) = 2 ^ b * (unat (fst x) div 2 ^ b mod 256) + unat (fst x) mod 2 ^ b"
    by (rule mod_mult2_eq)
  then show ?thesis
    by (simp add: low_key_def digit_of_def radix_digit_div power_add mult.commute)
qed

text \<open>Both buffers keep their length, and after \<open>p\<close> passes the current one is sorted by the lowest \<open>8 p\<close> bits.\<close>

lemma passes_spec:
  assumes "n \<le> length keys" "length vals = length keys" "length ka = length keys" "length va = length keys" "n < 2 ^ 32"
  shows "case fold (radix_pass n) [0..<m] (keys, vals, ka, va) of (k, v, k', v') \<Rightarrow>
    elems n k v = sort_key (low_key (8 * m)) (elems n keys vals) \<and> length k = length keys \<and> length v = length keys \<and>
    length k' = length keys \<and> length v' = length keys"
proof (induction m)
  case 0
  have "low_key 0 = (\<lambda>_. 0)"
    by (simp add: low_key_def fun_eq_iff)
  then show ?case
    using assms by (simp add: sort_key_const)
next
  case (Suc m)
  let ?xs = "elems n keys vals"
  obtain k v k' v' where st: "fold (radix_pass n) [0..<m] (keys, vals, ka, va) = (k, v, k', v')"
    by (metis prod_cases4)
  obtain k2 v2 k2' v2' where p: "radix_pass n m (k, v, k', v') = (k2, v2, k2', v2')"
    by (metis prod_cases4)
  have IH: "elems n k v = sort_key (low_key (8 * m)) ?xs" "length k = length keys" "length v = length keys"
    "length k' = length keys" "length v' = length keys"
    using Suc by (simp_all add: st)
  have "elems n k2 v2 = sort_key (digit_of (m * 8)) (elems n k v)" "k2' = k" "v2' = v" "length k2 = length k" "length v2 = length k"
    using radix_pass_spec[OF _ _ _ _ assms(5) p] IH assms(1) by simp_all
  moreover have "sort_key (digit_of (8 * m)) (sort_key (low_key (8 * m)) ?xs) = sort_key (low_key (8 * m + 8)) ?xs"
    using sort_key_lex[of ?xs "low_key (8 * m)" "2 ^ (8 * m)" "digit_of (8 * m)" 256]
    by (simp add: low_key_step low_key_less digit_of_less)
  ultimately show ?case
    using IH by (simp add: st p mult.commute add.commute)
qed

lemma radix_sort_elems:
  assumes "even n_passes" "unat n \<le> length keys" "length vals = length keys" "length keys_a = length keys" "length vals_a = length keys"
  shows "case io_sched_radix_sort keys vals keys_a vals_a n n_passes of (keys', vals') \<Rightarrow>
    zip (take (unat n) keys') (take (unat n) vals') =
      sort_key (\<lambda>x. unat (fst x) mod 2 ^ (8 * n_passes)) (zip (take (unat n) keys) (take (unat n) vals))"
proof -
  have "unat n < 2 ^ 32"
    using unsigned_less[of n, where 'a = nat] by simp
  then show ?thesis
    using passes_spec[OF assms(2-5), where m = n_passes] assms(1)
    by (auto simp: io_sched_radix_sort_def elems_def low_key_def[abs_def] split: prod.splits)
qed

text \<open>C36: The radix sort of the scheduler. With an even number of passes the caller's buffers hold the first
  \<open>n\<close> elements sorted by the lowest \<open>8 n_passes\<close> bits of their keys, elements with equal bits in their
  former order, and each value stays with its key: what the library's stable sort gives.\<close>

theorem io_sched_radix_sort_spec:
  assumes "even n_passes" "unat n \<le> length keys" "length vals = length keys" "length keys_a = length keys" "length vals_a = length keys"
  shows "case io_sched_radix_sort keys vals keys_a vals_a n n_passes of (keys', vals') \<Rightarrow>
    zip (take (unat n) keys') (take (unat n) vals') =
      sort_key (\<lambda>x. unat (fst x) mod 2 ^ (8 * n_passes)) (zip (take (unat n) keys) (take (unat n) vals))"
  using assms by (rule radix_sort_elems)

theorem io_sched_radix_sort_spec_witness:
  "case io_sched_radix_sort [0x3000, 0x1000, 0x2000, 0x1000] [0, 1, 2, 3] [0, 0, 0, 0] [0, 0, 0, 0] 4 6 of (keys', vals') \<Rightarrow>
     zip (take 4 keys') (take 4 vals') = [(0x1000, 1), (0x1000, 3), (0x2000, 2), (0x3000, 0)]"
  using io_sched_radix_sort_spec[of 6 4 "[0x3000, 0x1000, 0x2000, 0x1000]" "[0, 1, 2, 3]" "[0, 0, 0, 0]" "[0, 0, 0, 0]"]
  by (simp add: sort_key_def)

subsection \<open>The parallel scatter\<close>

lemma bit_lane_mask_lt: "lane < 32 \<Longrightarrow> bit (lane_mask_lt lane) l \<longleftrightarrow> l < lane"
  by (auto simp: lane_mask_lt_def push_bit_of_1 bit_simps simp flip: mask_eq_exp_minus_1)

lemma popc_filter: "popc m = length (filter (bit m) [0..<32])"
  by (simp add: popc_def)

lemma ffs_bit:
  assumes "bit m l"
  shows "ffs m \<noteq> 0 \<and> bit m (ffs m - 1)"
proof -
  have "l < 32"
    using bit_imp_le_length[OF assms] by simp
  then have "find (bit m) [0..<32] \<noteq> None"
    using assms by (auto simp: find_None_iff simp del: upt_rec_numeral)
  then obtain i where i: "find (bit m) [0..<32] = Some i"
    by blast
  then have "bit m i"
    by (auto simp: find_Some_iff simp del: upt_rec_numeral)
  then show ?thesis
    by (simp add: ffs_def i del: upt_rec_numeral)
qed

lemma hist_fold: "fold (\<lambda>l h. h(g l := h (g l) + c l)) ls hist d = (hist d :: u32) + (\<Sum>l\<leftarrow>ls. if g l = d then c l else 0)"
  by (induction ls arbitrary: hist) (auto simp: add.assoc)

lemma filter_first:
  fixes p :: "nat \<Rightarrow> bool"
  assumes "filter p [0..<m] \<noteq> []"
  shows "filter (\<lambda>l. p l \<and> (\<forall>l' < l. \<not> p l')) [0..<m] = [hd (filter p [0..<m])]"
  using assms
proof (induction m)
  case (Suc m)
  show ?case
  proof (cases "filter p [0..<m] = []")
    case True
    then show ?thesis
      using Suc.prems by (auto simp: filter_empty_conv split: if_splits)
  next
    case False
    then have "\<exists>l' < m. p l'"
      by (auto simp: filter_empty_conv)
    then show ?thesis
      using Suc.IH False by simp
  qed
qed simp

lemma filter_upt_cut: "m \<le> k \<Longrightarrow> filter (\<lambda>l. l < m \<and> p l) [0..<k] = filter p [0..<m]"
proof -
  assume "m \<le> k"
  then have "[0..<k] = [0..<m] @ [m..<k]"
    using upt_add_eq_append[of 0 m "k - m"] by simp
  moreover have "filter (\<lambda>l. l < m \<and> p l) [0..<m] = filter p [0..<m]"
    by (rule filter_cong) auto
  moreover have "filter (\<lambda>l. l < m \<and> p l) [m..<k] = []"
    by (auto simp: filter_empty_conv)
  ultimately show ?thesis
    by simp
qed

text \<open>The warp does what the serial loop does on its elements.\<close>

lemma warp_scatter_eq:
  fixes st :: "(nat \<Rightarrow> u32) \<times> u64 list \<times> u32 list"
  shows "warp_scatter shift n keys vals first st = fold (scatter_step shift keys vals) [first..<first + min 32 (n - first)] st"
proof -
  define m where "m = min 32 (n - first)"
  obtain hist ka va where st: "st = (hist, ka, va)"
    by (metis prod_cases3)
  define valid where "valid = (\<lambda>lane. first + lane < n)"
  define digit where "digit = (\<lambda>lane. if valid lane then radix_digit shift (keys ! (first + lane)) else 0)"
  define peer where "peer = (\<lambda>lane. if valid lane then match_any (ballot valid) digit lane else 0)"
  define rank where "rank = (\<lambda>lane. popc (peer lane AND lane_mask_lt lane))"
  define my_pos where "my_pos = (\<lambda>lane. hist (digit (ffs (peer lane) - 1)))"
  define plc where "plc = (\<lambda>lane. unat (my_pos lane + of_nat (rank lane)))"
  have m32: "m \<le> 32"
    by (simp add: m_def)
  have v: "valid l \<longleftrightarrow> l < m" if "l < 32" for l
    using that by (auto simp: valid_def m_def)
  have lanes: "filter valid [0..<32] = [0..<m]"
  proof -
    have "filter valid [0..<32] = filter (\<lambda>l. l < m \<and> True) [0..<32]"
      by (rule filter_cong[OF refl]) (simp add: v del: upt_rec_numeral)
    also have "\<dots> = [0..<m]"
      by (subst filter_upt_cut) (simp_all add: m_def del: upt_rec_numeral)
    finally show ?thesis .
  qed
  have peer: "bit (peer l) l' \<longleftrightarrow> l' < m \<and> digit l' = digit l" if "l < m" for l l'
    using that v[of l] v[of l'] by (auto simp: peer_def match_any_def bit_ballot m_def)
  have count: "popc (peer l) = length (filter (\<lambda>l'. digit l' = digit l) [0..<m])" if "l < m" for l
  proof -
    have "bit (peer l) = (\<lambda>l'. l' < m \<and> digit l' = digit l)"
      by (simp add: fun_eq_iff peer[OF that])
    then show ?thesis
      using filter_upt_cut[OF m32] by (simp add: popc_filter del: upt_rec_numeral)
  qed
  have rank: "rank l = length (filter (\<lambda>l'. digit l' = digit l) [0..<l])" if "l < m" for l
  proof -
    have l: "l < 32"
      using that by (simp add: m_def)
    have "bit (peer l AND lane_mask_lt l) = (\<lambda>l'. l' < l \<and> digit l' = digit l)"
      using that peer[OF that] bit_lane_mask_lt[OF l] by (auto simp: bit_and_iff fun_eq_iff)
    then show ?thesis
      using filter_upt_cut[of l 32] l by (simp add: rank_def popc_filter del: upt_rec_numeral)
  qed
  have pos: "my_pos l = hist (digit l)" if "l < m" for l
    using ffs_bit[of "peer l" l] that peer[OF that] by (auto simp: my_pos_def)
  have digit: "digit l = radix_digit shift (keys ! (first + l))" if "l < m" for l
    using that v[of l] by (simp add: digit_def m_def)
  have serial: "fold (scatter_step shift keys vals) [first..<first + j] (hist, ka, va) =
      (\<lambda>d. hist d + of_nat (length (filter (\<lambda>l. digit l = d) [0..<j])),
       fold (\<lambda>lane a. a[plc lane := keys ! (first + lane)]) [0..<j] ka,
       fold (\<lambda>lane a. a[plc lane := vals ! (first + lane)]) [0..<j] va)" if "j \<le> m" for j
    using that
  proof (induction j)
    case (Suc j)
    then have "plc j = unat (hist (digit j) + of_nat (length (filter (\<lambda>l. digit l = digit j) [0..<j])))"
      by (simp add: plc_def pos rank)
    then show ?case
      using Suc digit[of j] by (simp add: scatter_step_def Let_def fun_eq_iff add.assoc add.commute)
  qed simp
  have heads: "filter (\<lambda>l. valid l \<and> rank l = 0) [0..<32] = filter (\<lambda>l. \<forall>l' < l. digit l' \<noteq> digit l) [0..<m]"
  proof -
    have "filter (\<lambda>l. valid l \<and> rank l = 0) [0..<32] = filter (\<lambda>l. l < m \<and> rank l = 0) [0..<32]"
      by (rule filter_cong[OF refl]) (auto simp: v simp del: upt_rec_numeral)
    also have "\<dots> = filter (\<lambda>l. rank l = 0) [0..<m]"
      by (rule filter_upt_cut) (simp add: m_def)
    also have "\<dots> = filter (\<lambda>l. \<forall>l' < l. digit l' \<noteq> digit l) [0..<m]"
      by (rule filter_cong[OF refl]) (auto simp: rank filter_empty_conv)
    finally show ?thesis .
  qed
  have sums: "(\<Sum>l\<leftarrow>filter (\<lambda>l. \<forall>l' < l. digit l' \<noteq> digit l) [0..<m]. if digit l = d then of_nat (popc (peer l)) else 0) =
      (of_nat (length (filter (\<lambda>l. digit l = d) [0..<m])) :: u32)" (is "?lhs = _") for d
  proof -
    have "?lhs = (\<Sum>l\<leftarrow>filter (\<lambda>l. digit l = d \<and> (\<forall>l' < l. digit l' \<noteq> d)) [0..<m]. of_nat (popc (peer l)))"
      by (simp add: sum_list_map_filter'[symmetric] filter_filter conj_commute cong: conj_cong)
    also have "\<dots> = of_nat (length (filter (\<lambda>l. digit l = d) [0..<m]))"
    proof (cases "filter (\<lambda>l. digit l = d) [0..<m] = []")
      case True
      then show ?thesis
        by (auto simp: filter_empty_conv filter_False)
    next
      case False
      then have "hd (filter (\<lambda>l. digit l = d) [0..<m]) \<in> set (filter (\<lambda>l. digit l = d) [0..<m])"
        by (rule hd_in_set)
      then show ?thesis
        using filter_first[OF False] by (simp add: count)
    qed
    finally show ?thesis .
  qed
  have "warp_scatter shift n keys vals first st =
    (fold (\<lambda>lane h. h(digit lane := h (digit lane) + of_nat (popc (peer lane)))) (filter (\<lambda>l. valid l \<and> rank l = 0) [0..<32]) hist,
     fold (\<lambda>lane a. a[plc lane := keys ! (first + lane)]) (filter valid [0..<32]) ka,
     fold (\<lambda>lane a. a[plc lane := vals ! (first + lane)]) (filter valid [0..<32]) va)"
    unfolding warp_scatter_def st Let_def prod.case valid_def digit_def peer_def rank_def my_pos_def plc_def by simp
  also have "\<dots> = fold (scatter_step shift keys vals) [first..<first + m] (hist, ka, va)"
    unfolding lanes heads serial[OF order_refl] by (simp add: fun_eq_iff hist_fold sums)
  finally show ?thesis
    by (simp add: st m_def)
qed

lemma fold_segments:
  "fold (\<lambda>w. fold g [a + w * k..<a + w * k + min k (n - (a + w * k))]) [0..<m] st = fold g [a..<a + min (m * k) (n - a)] st"
proof (induction m)
  case (Suc m)
  have "[a..<a + min (Suc m * k) (n - a)] = [a..<a + min (m * k) (n - a)] @ [a + m * k..<a + m * k + min k (n - (a + m * k))]"
  proof (cases "m * k \<le> n - a")
    case True
    then have "a + min (Suc m * k) (n - a) = a + m * k + min k (n - (a + m * k))" "a + min (m * k) (n - a) = a + m * k"
      by auto
    then show ?thesis
      using upt_add_eq_append[of a "a + m * k" "min k (n - (a + m * k))"] by (simp add: add.assoc)
  qed auto
  then show ?case
    using Suc by simp
qed simp

lemma chunk_scatter_eq:
  "chunk_scatter shift n keys vals chunk st = fold (scatter_step shift keys vals) [chunk..<chunk + min 128 (n - chunk)] st"
  using fold_segments[of "scatter_step shift keys vals" chunk 32 n 4 st]
  by (simp add: chunk_scatter_def warp_scatter_eq[abs_def] del: upt_rec_numeral)

lemma radix_pass_v2_eq: "radix_pass_v2 n pass st = radix_pass n pass st"
proof -
  have "n \<le> (127 + n) div 128 * 128"
    by linarith
  moreover have "chunk_scatter shift n keys vals c = fold (scatter_step shift keys vals) [c..<c + min 128 (n - c)]" for shift keys vals c
    by (rule ext) (rule chunk_scatter_eq)
  ultimately have "fold (\<lambda>c. chunk_scatter shift n keys vals (c * 128)) [0..<(127 + n) div 128] s =
      fold (scatter_step shift keys vals) [0..<n] s" for shift keys vals s
    using fold_segments[of "scatter_step shift keys vals" 0 128 n "(127 + n) div 128" s]
    by (simp add: min_absorb2)
  then show ?thesis
    by (simp add: radix_pass_v2_def radix_pass_def kSchedThreads_def Let_def)
qed

text \<open>C37: The radix sort with the parallel scatter computes what the one with the serial scatter computes, on all
  inputs: claiming positions warp by warp, with the rank of a lane among the lanes of its digit, gives every
  element the place the serial loop gives it.\<close>

theorem io_sched_radix_sort_v2_equiv:
  "io_sched_radix_sort_v2 keys vals keys_a vals_a n n_passes = io_sched_radix_sort keys vals keys_a vals_a n n_passes"
  by (simp add: io_sched_radix_sort_v2_def io_sched_radix_sort_def radix_pass_v2_eq[abs_def])

end
