(* ===== verification/IoMerge.thy ===== *)
theory IoMerge
  imports IoSort "HOL-Library.Multiset"
begin

text \<open>
  The merging phase of the write scheduler, \<open>benchmarks/io_scheduler/io_scheduler_impl.cuh\<close>, in its parallel
  form: sorted requests whose bytes follow each other on the device become one NVMe command. Boundaries are
  found with warp ballots, runs of more than 2 MB are cut, and each group gets its PRP entries.

  A batch is given by the sorted keys, the original index of each element, and, by original index, the encoded
  size and the page cache entry. The bus addresses of the cache and of the victim buffer are lists.
\<close>

record batch =
  bt_keys :: "u64 list"
  bt_vals :: "u32 list"
  bt_nb :: "u8 list"
  bt_pc :: "u64 list"

definition elem_bytes :: "batch \<Rightarrow> nat \<Rightarrow> u64" where
  "elem_bytes b pos = io_sched_decode_nbytes (bt_nb b ! unat (bt_vals b ! pos))"

subsection \<open>Boundaries\<close>

definition is_boundary :: "batch \<Rightarrow> nat \<Rightarrow> nat \<Rightarrow> bool" where
  "is_boundary b accumulated pos =
     (if pos < accumulated then
        if pos = 0 then True
        else bt_keys b ! pos \<noteq> bt_keys b ! (pos - 1) + elem_bytes b (pos - 1)
      else False)"

text \<open>Thread 0 takes the bits out of a mask, lowest first.\<close>

function extract_bits :: "u32 \<Rightarrow> nat list" where
  "extract_bits m = (if m = 0 then [] else (ffs m - 1) # extract_bits (m AND (m - 1)))"
  by pat_completeness auto
termination
proof (relation "measure unat")
  fix m :: u32
  assume "m \<noteq> 0"
  then have "unat (m - 1) < unat m"
    by (simp add: unat_minus_one unat_gt_0)
  moreover have "unat (m AND (m - 1)) \<le> unat (m - 1)"
    by (metis and.commute word_and_le1 word_le_nat_alt)
  ultimately show "(m AND (m - 1), m) \<in> measure unat"
    by simp
qed simp

declare extract_bits.simps [simp del]

definition round_starts :: "batch \<Rightarrow> nat \<Rightarrow> nat \<Rightarrow> nat list" where
  "round_starts b accumulated bbase =
     concat (map (\<lambda>w. map (\<lambda>bit. bbase + w * 32 + bit)
       (extract_bits (ballot (\<lambda>lane. is_boundary b accumulated (bbase + w * 32 + lane))))) [0..<4])"

definition group_starts :: "batch \<Rightarrow> nat \<Rightarrow> nat list" where
  "group_starts b accumulated =
     (let rounds = (accumulated + unat kSchedThreads - 1) div unat kSchedThreads
      in concat (map (\<lambda>r. round_starts b accumulated (r * unat kSchedThreads)) [0..<rounds]))"

subsection \<open>Cutting long runs\<close>

definition group_end :: "nat list \<Rightarrow> nat \<Rightarrow> nat \<Rightarrow> nat" where
  "group_end starts accumulated i = (if i + 1 < length starts then starts ! (i + 1) else accumulated)"

definition run_bytes :: "batch \<Rightarrow> nat \<Rightarrow> nat \<Rightarrow> u64" where
  "run_bytes b start end = bt_keys b ! (end - 1) - bt_keys b ! start + elem_bytes b (end - 1)"

definition cut_stride :: "batch \<Rightarrow> nat \<Rightarrow> u32" where
  "cut_stride b start =
     (let stride = ucast (kSchedMergeTarget div elem_bytes b start) :: u32 in if stride = 0 then 1 else stride)"

function cut_points :: "nat \<Rightarrow> nat \<Rightarrow> nat \<Rightarrow> nat list" where
  "cut_points pos end stride = (if pos < end \<and> 0 < stride then pos # cut_points (pos + stride) end stride else [])"
  by pat_completeness auto
termination by (relation "measure (\<lambda>(pos, end, stride). end - pos)") auto

declare cut_points.simps [simp del]

definition refine_group :: "batch \<Rightarrow> nat \<Rightarrow> nat \<Rightarrow> nat list" where
  "refine_group b start end =
     (if run_bytes b start end \<le> kSchedMergeTarget then [start]
      else cut_points start end (unat (cut_stride b start)))"

definition refine_starts :: "batch \<Rightarrow> nat \<Rightarrow> nat list \<Rightarrow> nat list" where
  "refine_starts b accumulated starts =
     (let n_orig = length starts;
          n_oversized = length (filter (\<lambda>i. run_bytes b (starts ! i) (group_end starts accumulated i) > kSchedMergeTarget) [0..<n_orig])
      in if n_oversized > 0
         then concat (map (\<lambda>i. refine_group b (starts ! i) (group_end starts accumulated i)) [0..<n_orig])
         else starts)"

text \<open>The groups of a batch, from position \<open>fst\<close> up to, not including, position \<open>snd\<close>.\<close>

definition groups_of :: "nat list \<Rightarrow> nat \<Rightarrow> (nat \<times> nat) list" where
  "groups_of starts accumulated = map (\<lambda>i. (starts ! i, group_end starts accumulated i)) [0..<length starts]"

definition merge_groups :: "batch \<Rightarrow> nat \<Rightarrow> (nat \<times> nat) list" where
  "merge_groups b accumulated = groups_of (refine_starts b accumulated (group_starts b accumulated)) accumulated"

subsection \<open>Commands\<close>




subsection \<open>Boundaries in order\<close>

lemma extract_bits_filter: "extract_bits m = filter (bit m) [0..<32]"
proof (induction m rule: extract_bits.induct)
  case (1 m)
  show ?case
  proof (cases "m = 0")
    case True
    then show ?thesis
      by (simp add: extract_bits.simps del: upt_rec_numeral)
  next
    case False
    then obtain k where k: "bit m k" "\<And>j. j < k \<Longrightarrow> \<not> bit m j" "k < 32"
      using lowest_bit[of m] by auto
    have "[0..<32] = [0..<k] @ k # [Suc k..<32]"
      using k(3) upt_add_eq_append[of 0 k "32 - k"] by (simp add: upt_conv_Cons del: upt_rec_numeral)
    moreover have "filter (bit m) [0..<k] = []"
      using k(2) by (simp add: filter_empty_conv)
    moreover have "filter (bit (m AND (m - 1))) [0..<k] = []" "\<not> bit (m AND (m - 1)) k"
      using k(2) bit_clear_lowest[OF k(1,2)] by (auto simp: filter_empty_conv)
    moreover have "filter (bit (m AND (m - 1))) [Suc k..<32] = filter (bit m) [Suc k..<32]"
      by (rule filter_cong[OF refl]) (auto simp: bit_clear_lowest[OF k(1,2)] simp del: upt_rec_numeral)
    ultimately show ?thesis
      using 1[OF False] False k(1) ffs_lowest[OF k(1,2)]
      by (subst extract_bits.simps) (simp del: upt_rec_numeral)
  qed
qed

lemma filter_shift: "map (\<lambda>i. a + i) (filter (\<lambda>i. p (a + i)) [0..<k]) = filter p [a..<a + k]"
proof -
  have "[a..<a + k] = map (\<lambda>i. a + i) [0..<k]"
    using map_add_upt[of a k] by (simp add: add.commute)
  then show ?thesis
    by (simp add: filter_map comp_def)
qed

lemma concat_segments: "concat (map (\<lambda>w. filter p [a + w * k..<a + w * k + k]) [0..<m]) = filter p [a..<a + m * k]"
proof (induction m)
  case (Suc m)
  have "[a..<a + Suc m * k] = [a..<a + m * k] @ [a + m * k..<a + m * k + k]"
    using upt_add_eq_append[of a "a + m * k" k] by (simp add: ac_simps)
  then show ?case
    using Suc by simp
qed simp

lemma round_starts_filter: "round_starts b acc bbase = filter (is_boundary b acc) [bbase..<bbase + 128]"
proof -
  have "map (\<lambda>bit. bbase + w * 32 + bit) (extract_bits (ballot (\<lambda>lane. is_boundary b acc (bbase + w * 32 + lane)))) =
      filter (is_boundary b acc) [bbase + w * 32..<bbase + w * 32 + 32]" for w
  proof -
    have "filter (bit (ballot (\<lambda>lane. is_boundary b acc (bbase + w * 32 + lane)))) [0..<32] =
        filter (\<lambda>lane. is_boundary b acc (bbase + w * 32 + lane)) [0..<32]"
      by (rule filter_cong[OF refl]) (auto simp: bit_ballot simp del: upt_rec_numeral)
    then show ?thesis
      unfolding extract_bits_filter by (simp only: filter_shift)
  qed
  then show ?thesis
    unfolding round_starts_def using concat_segments[of "is_boundary b acc" bbase 32 4]
    by (simp del: upt_rec_numeral)
qed

lemma group_starts_filter: "group_starts b acc = filter (is_boundary b acc) [0..<acc]"
proof -
  have threads: "unat kSchedThreads = 128"
    by (simp add: kSchedThreads_def)
  define m where "m = (acc + 127) div 128 * 128"
  have "acc \<le> m"
    unfolding m_def by linarith
  then have "[0..<m] = [0..<acc] @ [acc..<m]"
    using upt_add_eq_append[of 0 acc "m - acc"] by simp
  moreover have "filter (is_boundary b acc) [acc..<m] = []"
    by (auto simp: filter_empty_conv is_boundary_def)
  moreover have "group_starts b acc = filter (is_boundary b acc) [0..<m]"
    using concat_segments[of "is_boundary b acc" 0 128 "(acc + 127) div 128"]
    by (simp add: group_starts_def threads round_starts_filter m_def add.commute)
  ultimately show ?thesis
    by simp
qed

subsection \<open>Groups\<close>

text \<open>Start positions in ascending order, the first of them 0, cut the batch into groups.\<close>

definition starts_ok :: "nat list \<Rightarrow> nat \<Rightarrow> bool" where
  "starts_ok starts acc \<longleftrightarrow> sorted_wrt (<) starts \<and> (\<forall>p \<in> set starts. p < acc) \<and> (0 < acc \<longrightarrow> starts \<noteq> [] \<and> hd starts = 0)"

fun groups_rec :: "nat list \<Rightarrow> nat \<Rightarrow> (nat \<times> nat) list" where
  "groups_rec [] acc = []"
| "groups_rec [s] acc = [(s, acc)]"
| "groups_rec (s # t # ss) acc = (s, t) # groups_rec (t # ss) acc"

lemma groups_of_rec: "groups_of starts acc = groups_rec starts acc"
proof (induction starts acc rule: groups_rec.induct)
  case (3 s t ss acc)
  have "group_end (s # t # ss) acc (Suc i) = group_end (t # ss) acc i" for i
    by (simp add: group_end_def)
  moreover have "group_end (s # t # ss) acc 0 = t"
    by (simp add: group_end_def)
  ultimately have "groups_of (s # t # ss) acc = (s, t) # groups_of (t # ss) acc"
    unfolding groups_of_def list.size(4)[of s "t # ss"] add_Suc_right add_0_right map_upt_Suc_conv by simp
  then show ?case
    using 3 by simp
qed (simp_all add: groups_of_def group_end_def)

lemma groups_rec_cover:
  assumes "sorted_wrt (<) (s # ss)" "\<forall>p \<in> set (s # ss). p < acc"
  shows "concat (map (\<lambda>(s, e). [s..<e]) (groups_rec (s # ss) acc)) = [s..<acc]"
  using assms
proof (induction ss arbitrary: s)
  case (Cons t ss)
  then have "[s..<acc] = [s..<t] @ [t..<acc]"
    using upt_add_eq_append[of s t "acc - t"] by simp
  then show ?case
    using Cons by simp
qed simp

lemma groups_rec_mem:
  assumes "sorted_wrt (<) (a # ss)" "\<forall>p \<in> set (a # ss). p < acc" "(s, e) \<in> set (groups_rec (a # ss) acc)"
  shows "s < e \<and> e \<le> acc \<and> s \<in> set (a # ss) \<and> (e \<in> set (a # ss) \<or> e = acc) \<and>
    (\<forall>p \<in> set (a # ss). p \<le> s \<or> e \<le> p)"
  using assms
proof (induction ss arbitrary: a)
  case Nil
  then show ?case by simp
next
  case (Cons t ss)
  have so: "a < t" "sorted_wrt (<) (t # ss)" "\<forall>p \<in> set (t # ss). t \<le> p" "\<forall>p \<in> set (t # ss). p < acc"
    using Cons.prems(1,2) by (auto simp: less_imp_le)
  show ?case
  proof (cases "(s, e) = (a, t)")
    case True
    then show ?thesis
      using so by simp
  next
    case False
    then have "(s, e) \<in> set (groups_rec (t # ss) acc)"
      using Cons.prems(3) by auto
    from Cons.IH[OF so(2,4) this] have IH: "s < e" "e \<le> acc" "s \<in> set (t # ss)"
      "e \<in> set (t # ss) \<or> e = acc" "\<forall>p \<in> set (t # ss). p \<le> s \<or> e \<le> p"
      by blast+
    moreover have "a \<le> s"
      using IH(3) so(1,3) by fastforce
    ultimately show ?thesis
      by auto
  qed
qed

lemma groups_of_mem:
  assumes "starts_ok starts acc" "(s, e) \<in> set (groups_of starts acc)"
  shows "s < e \<and> e \<le> acc \<and> s \<in> set starts \<and> (e \<in> set starts \<or> e = acc) \<and> (\<forall>p \<in> set starts. p \<le> s \<or> e \<le> p)"
proof (cases starts)
  case Nil
  then show ?thesis
    using assms(2) by (simp add: groups_of_def)
next
  case (Cons a ss)
  then have "sorted_wrt (<) (a # ss)" "\<forall>p \<in> set (a # ss). p < acc" "(s, e) \<in> set (groups_rec (a # ss) acc)"
    using assms unfolding starts_ok_def groups_of_rec by blast+
  then show ?thesis
    unfolding Cons by (rule groups_rec_mem)
qed

lemma groups_of_cover:
  assumes "starts_ok starts acc"
  shows "concat (map (\<lambda>(s, e). [s..<e]) (groups_of starts acc)) = [0..<acc]"
proof (cases starts)
  case Nil
  then show ?thesis
    using assms by (simp add: groups_of_def starts_ok_def)
next
  case (Cons a ss)
  then have so: "sorted_wrt (<) (a # ss)" "\<forall>p \<in> set (a # ss). p < acc" "0 < acc \<longrightarrow> hd (a # ss) = 0"
    using assms unfolding starts_ok_def by blast+
  then have "a = 0"
    by auto
  then show ?thesis
    using groups_rec_cover[OF so(1,2)] by (simp only: groups_of_rec Cons)
qed

lemma group_at:
  assumes "starts_ok starts acc" "p < acc"
  shows "\<exists>s e. (s, e) \<in> set (groups_of starts acc) \<and> s \<le> p \<and> p < e"
proof -
  have "p \<in> set (concat (map (\<lambda>(s, e). [s..<e]) (groups_of starts acc)))"
    using assms(2) by (simp add: groups_of_cover[OF assms(1)])
  then show ?thesis
    by auto
qed

lemma group_unique:
  assumes "starts_ok starts acc" "(s, e) \<in> set (groups_of starts acc)" "(s', e') \<in> set (groups_of starts acc)"
    and "s \<le> p" "p < e" "s' \<le> p" "p < e'"
  shows "s' = s \<and> e' = e"
proof -
  note a = groups_of_mem[OF assms(1,2)] and b = groups_of_mem[OF assms(1,3)]
  have s: "s' = s"
    using a b assms(4-7) by (metis leD le_antisym order_trans less_le_trans)
  moreover have "\<not> e < e'" "\<not> e' < e"
    using a b s by (metis leD not_less)+
  ultimately show ?thesis
    by simp
qed

subsection \<open>Cutting\<close>

lemma cut_points_spec:
  assumes "0 < stride" "pos < end"
  shows "cut_points pos end stride \<noteq> [] \<and> hd (cut_points pos end stride) = pos \<and> sorted_wrt (<) (cut_points pos end stride) \<and>
    (\<forall>p \<in> set (cut_points pos end stride). pos \<le> p \<and> p < end \<and> (p + stride < end \<longrightarrow> p + stride \<in> set (cut_points pos end stride)))"
  using assms
proof (induction pos "end" stride rule: cut_points.induct)
  case (1 pos "end" stride)
  have c: "cut_points pos end stride = pos # cut_points (pos + stride) end stride"
    using 1(2,3) by (subst cut_points.simps) simp
  show ?case
  proof (cases "pos + stride < end")
    case True
    define cs where "cs = cut_points (pos + stride) end stride"
    have "cs \<noteq> []" "hd cs = pos + stride" "sorted_wrt (<) cs"
      "\<forall>p \<in> set cs. pos + stride \<le> p \<and> p < end \<and> (p + stride < end \<longrightarrow> p + stride \<in> set cs)"
      using 1(1)[OF _ 1(2) True] 1(2,3) unfolding cs_def by simp_all
    moreover from this have "pos + stride \<in> set cs"
      by (metis hd_in_set)
    moreover have "\<forall>p \<in> set cs. pos < p"
      using calculation(4) 1(2) by auto
    ultimately show ?thesis
      unfolding c cs_def[symmetric] using 1(3) by auto
  next
    case False
    then have "cut_points (pos + stride) end stride = []"
      by (subst cut_points.simps) simp
    then show ?thesis
      using 1(2,3) False unfolding c by simp
  qed
qed

lemma refine_starts_concat:
  "refine_starts b acc starts = concat (map (\<lambda>(s, e). refine_group b s e) (groups_of starts acc))"
proof -
  let ?over = "\<lambda>i. run_bytes b (starts ! i) (group_end starts acc i) > kSchedMergeTarget"
  have c: "concat (map (\<lambda>(s, e). refine_group b s e) (groups_of starts acc)) =
      concat (map (\<lambda>i. refine_group b (starts ! i) (group_end starts acc i)) [0..<length starts])"
    by (simp add: groups_of_def comp_def)
  show ?thesis
  proof (cases "filter ?over [0..<length starts] = []")
    case True
    then have "map (\<lambda>i. refine_group b (starts ! i) (group_end starts acc i)) [0..<length starts] =
        map (\<lambda>i. [starts ! i]) [0..<length starts]"
      by (auto simp: refine_group_def filter_empty_conv not_less)
    moreover have "concat (map (\<lambda>i. [starts ! i]) [0..<length starts]) = starts"
      by (simp add: map_nth)
    ultimately have "concat (map (\<lambda>i. refine_group b (starts ! i) (group_end starts acc i)) [0..<length starts]) = starts"
      by (simp only:)
    then show ?thesis
      using True unfolding c by (simp add: refine_starts_def)
  qed (simp add: refine_starts_def c)
qed

lemma cut_stride_pos: "0 < unat (cut_stride b start)"
  by (simp add: cut_stride_def Let_def unat_gt_0)

lemma refine_group_spec:
  assumes "s < e"
  shows "refine_group b s e \<noteq> [] \<and> hd (refine_group b s e) = s \<and> sorted_wrt (<) (refine_group b s e) \<and>
    (\<forall>p \<in> set (refine_group b s e). s \<le> p \<and> p < e)"
  using cut_points_spec[OF cut_stride_pos assms, of b s] assms by (auto simp: refine_group_def)

lemma refine_rec:
  fixes b :: batch
  assumes "sorted_wrt (<) (a # ss)" "\<forall>p \<in> set (a # ss). p < acc"
  defines "L \<equiv> concat (map (\<lambda>(s, e). refine_group b s e) (groups_rec (a # ss) acc))"
  shows "L \<noteq> [] \<and> hd L = a \<and> sorted_wrt (<) L \<and> (\<forall>p \<in> set L. a \<le> p \<and> p < acc) \<and> set (a # ss) \<subseteq> set L"
  using assms(1,2) unfolding L_def
proof (induction ss arbitrary: a)
  case Nil
  then show ?case
    using refine_group_spec[of a acc b] hd_in_set[of "refine_group b a acc"] by auto
next
  case (Cons t ss)
  define M where "M = concat (map (\<lambda>(s, e). refine_group b s e) (groups_rec (t # ss) acc))"
  have at: "a < t" "t < acc"
    using Cons.prems by simp_all
  have IH: "M \<noteq> []" "hd M = t" "sorted_wrt (<) M" "\<forall>p \<in> set M. t \<le> p \<and> p < acc" "set (t # ss) \<subseteq> set M"
    using Cons.IH[of t] Cons.prems unfolding M_def by simp_all
  have R: "refine_group b a t \<noteq> []" "hd (refine_group b a t) = a" "sorted_wrt (<) (refine_group b a t)"
    "\<forall>p \<in> set (refine_group b a t). a \<le> p \<and> p < t"
    using refine_group_spec[OF at(1)] by simp_all
  have e: "concat (map (\<lambda>(s, e). refine_group b s e) (groups_rec (a # t # ss) acc)) = refine_group b a t @ M"
    by (simp add: M_def)
  have "sorted_wrt (<) (refine_group b a t @ M)"
    using IH(3,4) R(3,4) by (fastforce simp: sorted_wrt_append)
  moreover have "a \<in> set (refine_group b a t)"
    using R(1,2) by (metis hd_in_set)
  moreover have "\<forall>p \<in> set (refine_group b a t @ M). a \<le> p \<and> p < acc"
    using IH(4) R(4) at by fastforce
  ultimately show ?case
    unfolding e using IH(5) R(1,2) by auto
qed

lemma refine_starts_ok:
  assumes "starts_ok starts acc"
  shows "starts_ok (refine_starts b acc starts) acc \<and> set starts \<subseteq> set (refine_starts b acc starts)"
proof (cases starts)
  case Nil
  then show ?thesis
    using assms by (simp add: refine_starts_concat groups_of_def)
next
  case (Cons a ss)
  then have so: "sorted_wrt (<) (a # ss)" "\<forall>p \<in> set (a # ss). p < acc" "0 < acc \<longrightarrow> hd (a # ss) = 0"
    using assms unfolding starts_ok_def by blast+
  define L where "L = refine_starts b acc (a # ss)"
  have "L \<noteq> [] \<and> hd L = a \<and> sorted_wrt (<) L \<and> (\<forall>p \<in> set L. a \<le> p \<and> p < acc) \<and> set (a # ss) \<subseteq> set L"
    using refine_rec[OF so(1,2), of b] unfolding L_def refine_starts_concat groups_of_rec .
  then show ?thesis
    using so(3) unfolding Cons L_def[symmetric] starts_ok_def by simp
qed

lemma group_starts_ok: "starts_ok (group_starts b acc) acc"
proof (cases acc)
  case (Suc n)
  have "group_starts b acc = 0 # filter (is_boundary b acc) [1..<acc]"
    using upt_conv_Cons[of 0 acc] Suc by (simp add: group_starts_filter is_boundary_def del: upt_Suc)
  moreover have "sorted_wrt (<) (group_starts b acc)"
    unfolding group_starts_filter by (intro sorted_wrt_filter) simp
  ultimately show ?thesis
    using Suc by (auto simp: starts_ok_def group_starts_filter)
qed (simp add: starts_ok_def group_starts_filter)


text \<open>A group of the refined list lies in one group of the coarse list; it is that group, or short.\<close>

lemma refined_group:
  assumes "starts_ok starts acc" "(s', e') \<in> set (groups_of (refine_starts b acc starts) acc)"
  shows "\<exists>s e. (s, e) \<in> set (groups_of starts acc) \<and> s \<le> s' \<and> e' \<le> e \<and>
    (run_bytes b s e \<le> kSchedMergeTarget \<longrightarrow> s' = s \<and> e' = e) \<and>
    (\<not> run_bytes b s e \<le> kSchedMergeTarget \<longrightarrow> e' - s' \<le> unat (cut_stride b s))"
proof -
  define R where "R = refine_starts b acc starts"
  have R: "starts_ok R acc" "set starts \<subseteq> set R"
    using refine_starts_ok[OF assms(1)] by (simp_all add: R_def)
  have g: "s' < e'" "e' \<le> acc" "s' \<in> set R" "e' \<in> set R \<or> e' = acc" "\<forall>p \<in> set R. p \<le> s' \<or> e' \<le> p"
    using groups_of_mem[OF R(1)] assms(2) unfolding R_def by blast+
  obtain s e where se: "(s, e) \<in> set (groups_of starts acc)" "s \<le> s'" "s' < e"
    using group_at[OF assms(1), of s'] g(1,2) by auto
  have m: "s < e" "e \<le> acc" "e \<in> set starts \<or> e = acc" "s \<in> set starts"
    using groups_of_mem[OF assms(1) se(1)] by blast+
  have ee: "e' \<le> e"
    using m(3) g(2,5) R(2) se(3) by (metis leD subsetD)
  have in_group: "p \<in> set (refine_group b s e)" if pm: "p \<in> set R" "s \<le> p" "p < e" for p
  proof -
    obtain s2 e2 where "(s2, e2) \<in> set (groups_of starts acc)" "p \<in> set (refine_group b s2 e2)"
      using pm(1) unfolding R_def refine_starts_concat by auto
    moreover from this have "s2 \<le> p" "p < e2"
      using groups_of_mem[OF assms(1)] refine_group_spec[of s2 e2 b] by blast+
    ultimately show ?thesis
      using group_unique[OF assms(1) se(1) _ pm(2,3)] by blast
  qed
  have from_group: "p \<in> set R" if "p \<in> set (refine_group b s e)" for p
    using that se(1) unfolding R_def refine_starts_concat by auto
  have "s' = s \<and> e' = e" if "run_bytes b s e \<le> kSchedMergeTarget"
  proof -
    have "refine_group b s e = [s]"
      using that by (simp add: refine_group_def)
    then have "s' = s" "\<not> (e' \<in> set R \<and> e' < e)"
      using in_group[of s'] in_group[of e'] g(1,3) se by auto
    then show ?thesis
      using ee g(4) m(2) by auto
  qed
  moreover have "e' - s' \<le> unat (cut_stride b s)" if "\<not> run_bytes b s e \<le> kSchedMergeTarget"
  proof (cases "s' + unat (cut_stride b s) < e")
    case True
    have "refine_group b s e = cut_points s e (unat (cut_stride b s))"
      using that by (simp add: refine_group_def)
    then have "s' + unat (cut_stride b s) \<in> set R"
      using cut_points_spec[OF cut_stride_pos m(1), of b s] in_group[OF g(3) se(2,3)] True
      by (intro from_group) simp
    then show ?thesis
      using g(5) cut_stride_pos[of b s] by fastforce
  qed (use ee in simp)
  ultimately show ?thesis
    using se(1,2) ee by blast
qed

subsection \<open>What a group holds\<close>

lemma run_bytes_sum:
  assumes "s < e" "\<And>p. s < p \<Longrightarrow> p < e \<Longrightarrow> bt_keys b ! p = bt_keys b ! (p - 1) + elem_bytes b (p - 1)"
  shows "run_bytes b s e = (\<Sum>p\<leftarrow>[s..<e]. elem_bytes b p)"
proof -
  have "bt_keys b ! (s + i) = bt_keys b ! s + (\<Sum>p\<leftarrow>[s..<s + i]. elem_bytes b p)" if "s + i < e" for i
    using that
  proof (induction i)
    case (Suc i)
    then show ?case
      using assms(2)[of "s + Suc i"] by (simp add: add.assoc)
  qed simp
  from this[of "e - 1 - s"] have "bt_keys b ! (e - 1) = bt_keys b ! s + (\<Sum>p\<leftarrow>[s..<e - 1]. elem_bytes b p)"
    using assms(1) by simp
  moreover have "[s..<e] = [s..<e - 1] @ [e - 1]"
    using assms(1) by (metis One_nat_def Suc_pred less_Suc_eq_le not_less_zero upt_Suc_append zero_less_iff_neq_zero)
  ultimately show ?thesis
    by (simp add: run_bytes_def)
qed

lemma sum_uniform: "(\<And>p. p \<in> set xs \<Longrightarrow> f p = c) \<Longrightarrow> (\<Sum>p\<leftarrow>xs. f p) = of_nat (length xs) * (c :: u64)"
  by (induction xs) (simp_all add: distrib_right)

lemma merge_starts_ok:
  "starts_ok (refine_starts b acc (group_starts b acc)) acc \<and>
   (\<forall>p < acc. is_boundary b acc p \<longrightarrow> p \<in> set (refine_starts b acc (group_starts b acc)))"
  using refine_starts_ok[OF group_starts_ok] group_starts_filter by fastforce

lemma group_contiguous:
  assumes "starts_ok starts acc" "\<forall>p < acc. is_boundary b acc p \<longrightarrow> p \<in> set starts" "(s, e) \<in> set (groups_of starts acc)" "s < p" "p < e"
  shows "bt_keys b ! p = bt_keys b ! (p - 1) + elem_bytes b (p - 1)"
proof -
  have m: "e \<le> acc" "\<forall>p \<in> set starts. p \<le> s \<or> e \<le> p"
    using groups_of_mem[OF assms(1,3)] by blast+
  then have "p \<notin> set starts" "p < acc"
    using assms(4,5) by (auto simp: not_less[symmetric])
  then have "\<not> is_boundary b acc p"
    using assms(2) by blast
  then show ?thesis
    using assms(4) \<open>p < acc\<close> by (simp add: is_boundary_def)
qed

lemma uniform_run:
  assumes "starts_ok starts acc" "\<forall>p < acc. is_boundary b acc p \<longrightarrow> p \<in> set starts" "(s, e) \<in> set (groups_of starts acc)"
    and "\<forall>p < acc. elem_bytes b p = 2 ^ k" "k \<le> 21" "acc < 2 ^ 32"
  shows "unat (run_bytes b s e) = (e - s) * 2 ^ k"
proof -
  have m: "s < e" "e \<le> acc"
    using groups_of_mem[OF assms(1,3)] by blast+
  have "run_bytes b s e = (\<Sum>p\<leftarrow>[s..<e]. elem_bytes b p)"
    by (rule run_bytes_sum) (use m(1) group_contiguous[OF assms(1-3)] in blast)+
  also have "\<dots> = of_nat (length [s..<e]) * 2 ^ k"
    by (rule sum_uniform) (use m(2) assms(4) in auto)
  also have "\<dots> = of_nat ((e - s) * 2 ^ k)"
    by simp
  finally have r: "run_bytes b s e = of_nat ((e - s) * 2 ^ k)" .
  have "(e - s) * 2 ^ k \<le> 2 ^ 32 * 2 ^ 21"
    using m(2) assms(5,6) by (intro mult_le_mono power_increasing) simp_all
  then show ?thesis
    unfolding r unat_of_nat by (intro mod_less) simp
qed

lemma uniform_stride: 
  assumes "elem_bytes b s = 2 ^ k" "k \<le> 21"
  shows "unat (cut_stride b s) * 2 ^ k = 2 ^ 21"
proof -
  have "unat (kSchedMergeTarget div elem_bytes b s) = 2 ^ (21 - k)"
  proof -
    have "unat (kSchedMergeTarget div elem_bytes b s) = 2 ^ 21 div 2 ^ k"
      using assms by (simp add: unat_div_distrib kSchedMergeTarget_def unat_power2)
    then show ?thesis
      using assms(2) power_diff[of "2 :: nat" k 21] by simp
  qed
  moreover have "(2 :: nat) ^ (21 - k) < 2 ^ 32"
    by (rule power_strict_increasing) simp_all
  ultimately have "unat (ucast (kSchedMergeTarget div elem_bytes b s) :: u32) = 2 ^ (21 - k)"
    by (simp add: unat_ucast_mod)
  then have "unat (cut_stride b s) = 2 ^ (21 - k)"
    unfolding cut_stride_def Let_def by (auto split: if_splits)
  then show ?thesis
    using assms(2) by (simp flip: power_add)
qed

definition sample_batch :: batch where
  "sample_batch = \<lparr>bt_keys = [0, 0x2000, 0x4000, 0x8000], bt_vals = [3, 1, 0, 2], bt_nb = [13, 13, 13, 13], bt_pc = [2, 1, 0, 3]\<rparr>"

text \<open>C38: Merging. The groups of a batch are consecutive and cover every element exactly once; the bytes of a group
  are contiguous on the device and its size is the sum of the sizes of its elements. If all elements have
  the same size, a power of two of at most 2 MB, no group is larger than 2 MB.\<close>

theorem merge_groups_spec:
  assumes "accumulated < 2 ^ 32"
  shows "concat (map (\<lambda>(s, e). [s..<e]) (merge_groups b accumulated)) = [0..<accumulated] \<and>
    (\<forall>(s, e) \<in> set (merge_groups b accumulated).
      s < e \<and> (\<forall>p. s < p \<longrightarrow> p < e \<longrightarrow> bt_keys b ! p = bt_keys b ! (p - 1) + elem_bytes b (p - 1)) \<and>
      run_bytes b s e = (\<Sum>p\<leftarrow>[s..<e]. elem_bytes b p) \<and>
      (\<forall>k \<le> 21. (\<forall>p < accumulated. elem_bytes b p = 2 ^ k) \<longrightarrow> run_bytes b s e \<le> kSchedMergeTarget))"
proof -
  let ?starts = "group_starts b accumulated"
  let ?R = "refine_starts b accumulated ?starts"
  have R: "starts_ok ?R accumulated" "\<forall>p < accumulated. is_boundary b accumulated p \<longrightarrow> p \<in> set ?R"
    using merge_starts_ok by blast+
  have S: "\<forall>p < accumulated. is_boundary b accumulated p \<longrightarrow> p \<in> set ?starts"
    by (simp add: group_starts_filter)
  have 1: "s < e \<and> (\<forall>p. s < p \<longrightarrow> p < e \<longrightarrow> bt_keys b ! p = bt_keys b ! (p - 1) + elem_bytes b (p - 1)) \<and>
      run_bytes b s e = (\<Sum>p\<leftarrow>[s..<e]. elem_bytes b p)" if g: "(s, e) \<in> set (groups_of ?R accumulated)" for s e
    using groups_of_mem[OF R(1) g] group_contiguous[OF R g] run_bytes_sum[of s e b] by blast
  have 2: "run_bytes b s' e' \<le> kSchedMergeTarget"
    if g: "(s', e') \<in> set (groups_of ?R accumulated)" and k: "k \<le> 21" "\<forall>p < accumulated. elem_bytes b p = 2 ^ k" for s' e' k
  proof -
    obtain s e where se: "(s, e) \<in> set (groups_of ?starts accumulated)"
      "run_bytes b s e \<le> kSchedMergeTarget \<longrightarrow> s' = s \<and> e' = e"
      "\<not> run_bytes b s e \<le> kSchedMergeTarget \<longrightarrow> e' - s' \<le> unat (cut_stride b s)"
      using refined_group[OF group_starts_ok g] by blast
    have "s < accumulated"
      using groups_of_mem[OF group_starts_ok se(1)] by simp
    then have st: "unat (cut_stride b s) * 2 ^ k = 2 ^ 21"
      using k by (intro uniform_stride) simp_all
    show ?thesis
    proof (cases "run_bytes b s e \<le> kSchedMergeTarget")
      case False
      then have "(e' - s') * 2 ^ k \<le> 2 ^ 21"
        using se(3) mult_le_mono1[of "e' - s'" "unat (cut_stride b s)" "2 ^ k"] st by simp
      then show ?thesis
        using uniform_run[OF R g k(2,1) assms] by (simp add: word_le_nat_alt kSchedMergeTarget_def)
    qed (use se(2) in simp)
  qed
  show ?thesis
    unfolding merge_groups_def
    by (intro conjI ballI case_prodI2) (rule groups_of_cover[OF R(1)], use 1 in blast, use 1 in blast, use 1 in blast, use 2 in blast)
qed

theorem merge_groups_spec_witness:
  "merge_groups sample_batch 4 = [(0, 3), (3, 4)] \<and>
   concat (map (\<lambda>(s, e). [s..<e]) (merge_groups sample_batch 4)) = [0..<4] \<and> run_bytes sample_batch 0 3 \<le> kSchedMergeTarget"
proof -
  have g: "merge_groups sample_batch 4 = [(0, 3), (3, 4)]"
    by code_simp
  have "elem_bytes sample_batch 0 = 2 ^ 13" "elem_bytes sample_batch 1 = 2 ^ 13" "elem_bytes sample_batch 2 = 2 ^ 13"
    "elem_bytes sample_batch 3 = 2 ^ 13"
    by (simp_all add: elem_bytes_def sample_batch_def io_sched_decode_nbytes_def)
  moreover have "p = 0 \<or> p = 1 \<or> p = 2 \<or> p = 3" if "p < 4" for p :: nat
    using that by linarith
  ultimately have u: "elem_bytes sample_batch p = 2 ^ 13" if "p < 4" for p
    using that by blast
  then have "\<exists>k \<le> 21. \<forall>p < 4. elem_bytes sample_batch p = 2 ^ k"
    by (intro exI[of _ 13]) simp
  moreover have "(0, 3) \<in> set (merge_groups sample_batch 4)"
    by (simp add: g)
  ultimately have "concat (map (\<lambda>(s, e). [s..<e]) (merge_groups sample_batch 4)) = [0..<4] \<and> run_bytes sample_batch 0 3 \<le> kSchedMergeTarget"
    using merge_groups_spec[of 4 sample_batch] by fastforce
  then show ?thesis
    using g by blast
qed

subsection \<open>The PRP entries of a command\<close>









lemma merge_mixed_sizes:
  "merge_groups \<lparr>bt_keys = [0, 0x1000, 0x201000], bt_vals = [0, 1, 2], bt_nb = [12, 21, 21], bt_pc = [0, 1, 2]\<rparr> 3 = [(0, 3)] \<and>
   run_bytes \<lparr>bt_keys = [0, 0x1000, 0x201000], bt_vals = [0, 1, 2], bt_nb = [12, 21, 21], bt_pc = [0, 1, 2]\<rparr> 0 3 = 0x401000"
  by code_simp

lemma refined_starts_overrun:
  "let b = \<lparr>bt_keys = [0, 0x200000], bt_vals = [0, 1], bt_nb = [21, 21], bt_pc = [0, 1]\<rparr>
   in group_starts b 2 = [0] \<and> refine_starts b 2 (group_starts b 2) = [0, 1]"
  by code_simp

subsection \<open>From the requests to the commands\<close>

text \<open>The drained requests fill the sort buffers, the index of a request being its value; the sort runs six passes.\<close>

definition drain_load :: "io_request_t list \<Rightarrow> batch" where
  "drain_load reqs = \<lparr>bt_keys = map rq_byte_offset reqs, bt_vals = map of_nat [0..<length reqs],
     bt_nb = map rq_n_bytes_log2 reqs, bt_pc = map rq_pc_entry reqs\<rparr>"

lemma drain_load_simps [simp]:
  "bt_keys (drain_load reqs) = map rq_byte_offset reqs" "bt_vals (drain_load reqs) = map of_nat [0..<length reqs]"
  "bt_nb (drain_load reqs) = map rq_n_bytes_log2 reqs" "bt_pc (drain_load reqs) = map rq_pc_entry reqs"
  by (simp_all add: drain_load_def)

definition sort_batch :: "u64 list \<Rightarrow> u32 list \<Rightarrow> batch \<Rightarrow> batch" where
  "sort_batch keys_alt vals_alt b =
     (let (keys, vals) = io_sched_radix_sort (bt_keys b) (bt_vals b) keys_alt vals_alt (of_nat (length (bt_keys b))) 6
      in b\<lparr>bt_keys := keys, bt_vals := vals\<rparr>)"

definition sorted_elems :: "batch \<Rightarrow> (u64 \<times> u32) list" where
  "sorted_elems b = sort_key (\<lambda>x. unat (fst x) mod 2 ^ 48) (zip (bt_keys b) (bt_vals b))"

lemma sort_batch_elems:
  assumes "length (bt_keys b) < 2 ^ 32" "length (bt_vals b) = length (bt_keys b)"
    and "length keys_alt = length (bt_keys b)" "length vals_alt = length (bt_keys b)"
  shows "(\<forall>p < length (bt_keys b). bt_keys (sort_batch keys_alt vals_alt b) ! p = fst (sorted_elems b ! p) \<and>
      bt_vals (sort_batch keys_alt vals_alt b) ! p = snd (sorted_elems b ! p)) \<and>
    bt_nb (sort_batch keys_alt vals_alt b) = bt_nb b \<and> bt_pc (sort_batch keys_alt vals_alt b) = bt_pc b"
proof -
  let ?n = "of_nat (length (bt_keys b)) :: u32"
  have n: "unat ?n = length (bt_keys b)"
    using assms(1) by (simp add: unat_of_nat)
  obtain keys vals where kv: "io_sched_radix_sort (bt_keys b) (bt_vals b) keys_alt vals_alt ?n 6 = (keys, vals)"
    by (cases "io_sched_radix_sort (bt_keys b) (bt_vals b) keys_alt vals_alt ?n 6") blast
  have z: "zip (take (length (bt_keys b)) keys) (take (length (bt_keys b)) vals) = sorted_elems b"
    using radix_sort_elems[of 6 ?n "bt_keys b" "bt_vals b" keys_alt vals_alt] assms(2-4) kv n by (simp add: sorted_elems_def)
  then have "length (zip (take (length (bt_keys b)) keys) (take (length (bt_keys b)) vals)) = length (bt_keys b)"
    using assms(2) by (simp add: sorted_elems_def)
  then have "length (bt_keys b) \<le> length keys" "length (bt_keys b) \<le> length vals"
    by simp_all
  then have "\<forall>p < length (bt_keys b). keys ! p = fst (sorted_elems b ! p) \<and> vals ! p = snd (sorted_elems b ! p)"
    by (simp flip: z)
  then show ?thesis
    using kv by (simp add: sort_batch_def)
qed

text \<open>The request behind position \<open>p\<close>: where it writes, its size, its page.\<close>

definition elem_request :: "batch \<Rightarrow> nat \<Rightarrow> u64 \<times> u8 \<times> u64" where
  "elem_request b p = (bt_keys b ! p, bt_nb b ! unat (bt_vals b ! p), bt_pc b ! unat (bt_vals b ! p))"

lemma drained_elems:
  assumes "length reqs < 2 ^ 32"
  shows "map (\<lambda>(k, v). (k, map rq_n_bytes_log2 reqs ! unat v, map rq_pc_entry reqs ! unat v))
      (zip (map rq_byte_offset reqs) (map of_nat [0..<length reqs] :: u32 list)) =
    map (\<lambda>r. (rq_byte_offset r, rq_n_bytes_log2 r, rq_pc_entry r)) reqs"
  using assms by (intro nth_equalityI) (auto simp: unat_of_nat)

lemma sorted_batch_requests:
  assumes "length reqs < 2 ^ 32" "length keys_alt = length reqs" "length vals_alt = length reqs"
  shows "mset (map (elem_request (sort_batch keys_alt vals_alt (drain_load reqs))) [0..<length reqs]) =
    mset (map (\<lambda>r. (rq_byte_offset r, rq_n_bytes_log2 r, rq_pc_entry r)) reqs)"
proof -
  let ?f = "\<lambda>(k, v :: u32). (k, map rq_n_bytes_log2 reqs ! unat v, map rq_pc_entry reqs ! unat v)"
  let ?b = "drain_load reqs"
  have len: "length (sorted_elems ?b) = length reqs"
    by (simp add: sorted_elems_def)
  have "map (elem_request (sort_batch keys_alt vals_alt ?b)) [0..<length reqs] = map ?f (sorted_elems ?b)"
    using sort_batch_elems[of ?b keys_alt vals_alt] assms
    by (intro nth_equalityI) (simp_all add: len elem_request_def split: prod.splits)
  also have "mset \<dots> = mset (map ?f (zip (map rq_byte_offset reqs) (map of_nat [0..<length reqs])))"
    unfolding mset_map sorted_elems_def mset_sort by simp
  finally show ?thesis
    unfolding drained_elems[OF assms(1)] .
qed

lemma sorted_batch_keys:
  assumes "length reqs < 2 ^ 32" "length keys_alt = length reqs" "length vals_alt = length reqs"
    and "\<forall>r \<in> set reqs. rq_byte_offset r < 2 ^ 48" "q < p" "p < length reqs"
  shows "bt_keys (sort_batch keys_alt vals_alt (drain_load reqs)) ! q \<le> bt_keys (sort_batch keys_alt vals_alt (drain_load reqs)) ! p"
proof -
  let ?b = "drain_load reqs"
  let ?z = "sorted_elems ?b"
  have len: "length ?z = length reqs"
    by (simp add: sorted_elems_def)
  have "unat (fst (?z ! q)) mod 2 ^ 48 \<le> unat (fst (?z ! p)) mod 2 ^ 48"
  proof -
    have "sorted (map (\<lambda>x. unat (fst x) mod 2 ^ 48) ?z)"
      unfolding sorted_elems_def by (rule sorted_sort_key)
    from sorted_nth_mono[OF this, of q p] show ?thesis
      using assms(5,6) len by simp
  qed
  moreover have "unat (fst (?z ! i)) mod 2 ^ 48 = unat (fst (?z ! i))" if "i < length reqs" for i
  proof -
    have "?z ! i \<in> set (zip (bt_keys ?b) (bt_vals ?b))"
      using that len nth_mem[of i ?z] by (simp add: sorted_elems_def)
    then have "fst (?z ! i) \<in> set (bt_keys ?b)"
      by (metis prod.collapse set_zip_leftD)
    then show ?thesis
      using assms(4) by (auto simp: word_less_nat_alt)
  qed
  ultimately show ?thesis
    using sort_batch_elems[of ?b keys_alt vals_alt] assms(1-3,5,6) by (simp add: word_le_nat_alt)
qed

lemma groups_of_starts: "map fst (groups_of starts acc) = starts"
  by (auto simp: groups_of_def Let_def intro!: nth_equalityI)

lemma groups_of_sorted:
  assumes "starts_ok starts acc"
  shows "sorted_wrt (\<lambda>g h. fst g < fst h) (groups_of starts acc)"
  using assms groups_of_starts[of starts acc] sorted_wrt_map[of "(<)" fst "groups_of starts acc"] by (simp add: starts_ok_def)

end
