(* ===== verification/PageMap.thy ===== *)
theory PageMap
  imports ParallelSq
begin

text \<open>
  Addresses in the page cache, \<open>include/page_cache.h\<close>: the bits of a page state, the layout of a range over the
  controllers, the global address that names a page of a range, and the arithmetic from array indices to pages.

  \<open>page_cache_d_t\<close> holds the fields of the structure that stay fixed while the cache is in use; \<open>d_ranges_page_counts\<close> is
  the field \<open>page_count\<close> of each range, which bounds its array of page states.
\<close>

subsection \<open>Page states\<close>

definition INVALID :: u32 where "INVALID = 0x00000000"
definition VALID :: u32 where "VALID = 0x80000000"
definition BUSY :: u32 where "BUSY = 0x40000000"
definition DIRTY :: u32 where "DIRTY = 0x20000000"
definition CNT_SHIFT :: nat where "CNT_SHIFT = 29"
definition CNT_MASK :: u32 where "CNT_MASK = 0x1fffffff"
definition DISABLE_BUSY_ENABLE_VALID :: u32 where "DISABLE_BUSY_ENABLE_VALID = 0xc0000000"
definition DISABLE_BUSY_MASK :: u32 where "DISABLE_BUSY_MASK = 0xbfffffff"
definition NV_NB :: u32 where "NV_NB = 0x00"
definition NV_B :: u32 where "NV_B = 0x01"
definition V_NB :: u32 where "V_NB = 0x02"
definition V_B :: u32 where "V_B = 0x03"
definition FREE :: u32 where "FREE = 2"
definition ALL_CTRLS :: u64 where "ALL_CTRLS = 0xffffffffffffffff"

definition state_class :: "u32 \<Rightarrow> u32" where
  "state_class read_state = drop_bit (CNT_SHIFT + 1) read_state AND 0x03"

datatype data_dist_t = REPLICATE | STRIPE

record page_cache_d_t =
  d_page_size :: u64
  d_page_size_minus_1 :: u64
  d_page_size_log :: u64
  d_n_pages :: u64
  d_n_ranges :: u64
  d_n_ranges_bits :: u64
  d_n_ranges_mask :: u64
  d_ranges_page_starts :: "u64 \<Rightarrow> u64"
  d_ranges_page_counts :: "u64 \<Rightarrow> u64"
  d_ranges_dists :: "u64 \<Rightarrow> data_dist_t"
  d_n_ctrls :: u64
  d_read_ctrl_override :: u64
  d_evict_ctrl_override :: u64
  d_n_blocks_per_page :: u64

subsection \<open>Where a page is stored\<close>

definition get_backing_page :: "u64 \<Rightarrow> u64 \<Rightarrow> u64 \<Rightarrow> data_dist_t \<Rightarrow> u64" where
  "get_backing_page page_start page_offset n_ctrls dist =
     (case dist of STRIPE \<Rightarrow> page_start + page_offset div n_ctrls | REPLICATE \<Rightarrow> page_start + page_offset)"

definition get_backing_ctrl :: "u64 \<Rightarrow> u64 \<Rightarrow> data_dist_t \<Rightarrow> u64" where
  "get_backing_ctrl page_offset n_ctrls dist =
     (case dist of STRIPE \<Rightarrow> page_offset mod n_ctrls | REPLICATE \<Rightarrow> ALL_CTRLS)"

text \<open>A page is a range and a page number in it. Its global address names it in the cache's translation table.\<close>

datatype page = Page (pg_range: u64) (pg_index: u64)

definition get_global_address :: "page_cache_d_t \<Rightarrow> u64 \<Rightarrow> u64 \<Rightarrow> u64" where
  "get_global_address cfg range_id address = push_bit (unat (d_n_ranges_bits cfg)) address OR range_id"

definition address_page :: "page_cache_d_t \<Rightarrow> u64 \<Rightarrow> page" where
  "address_page cfg global_address =
     Page (global_address AND d_n_ranges_mask cfg) (drop_bit (unat (d_n_ranges_bits cfg)) global_address)"

definition page_lba :: "page_cache_d_t \<Rightarrow> page \<Rightarrow> u64" where
  "page_lba cfg pg =
     get_backing_page (d_ranges_page_starts cfg (pg_range pg)) (pg_index pg) (d_n_ctrls cfg) (d_ranges_dists cfg (pg_range pg)) *
     d_n_blocks_per_page cfg"

text \<open>The controllers an eviction writes to, in order.\<close>

definition evict_ctrls :: "page_cache_d_t \<Rightarrow> page \<Rightarrow> u64 list" where
  "evict_ctrls cfg pg =
     (let ctrl = get_backing_ctrl (pg_index pg) (d_n_ctrls cfg) (d_ranges_dists cfg (pg_range pg));
          ctrl = (if d_evict_ctrl_override cfg \<noteq> ALL_CTRLS then d_evict_ctrl_override cfg mod d_n_ctrls cfg else ctrl)
      in if ctrl = ALL_CTRLS then map of_nat [0..<unat (d_n_ctrls cfg)] else [ctrl])"

text \<open>The controller a miss reads from; \<open>counter\<close> is the value of the round-robin counter.\<close>

definition read_ctrl :: "page_cache_d_t \<Rightarrow> page \<Rightarrow> u64 \<Rightarrow> u64" where
  "read_ctrl cfg pg counter =
     (let ctrl = get_backing_ctrl (pg_index pg) (d_n_ctrls cfg) (d_ranges_dists cfg (pg_range pg))
      in if d_read_ctrl_override cfg \<noteq> ALL_CTRLS then d_read_ctrl_override cfg mod d_n_ctrls cfg
         else if ctrl = ALL_CTRLS then counter mod d_n_ctrls cfg else ctrl)"

definition takes_counter :: "page_cache_d_t \<Rightarrow> page \<Rightarrow> bool" where
  "takes_counter cfg pg \<longleftrightarrow> d_read_ctrl_override cfg = ALL_CTRLS \<and>
     get_backing_ctrl (pg_index pg) (d_n_ctrls cfg) (d_ranges_dists cfg (pg_range pg)) = ALL_CTRLS"

text \<open>Fields of the cache as its constructor computes them from the page size and the number of ranges; \<open>log2\<close> is
  the rounded down logarithm.\<close>

definition floor_log2 :: "u64 \<Rightarrow> u64" where
  "floor_log2 x = (if x = 0 then 0 else of_nat (Max (set (filter (bit x) [0..<64]))))"

definition ranges_bits :: "u64 \<Rightarrow> u64" where
  "ranges_bits max_range = (if max_range = 1 then 1 else floor_log2 max_range)"

definition ranges_mask :: "u64 \<Rightarrow> u64" where
  "ranges_mask max_range = max_range - 1"

subsection \<open>Elements\<close>

record range_d_t =
  rd_index_start :: u64
  rd_page_start_offset :: u64
  rd_range_id :: u64

definition get_page :: "page_cache_d_t \<Rightarrow> range_d_t \<Rightarrow> u64 \<Rightarrow> u64 \<Rightarrow> u64" where
  "get_page cfg r sizeof_T i =
     drop_bit (unat (d_page_size_log cfg)) ((i - rd_index_start r) * sizeof_T + rd_page_start_offset r)"

definition get_subindex :: "page_cache_d_t \<Rightarrow> range_d_t \<Rightarrow> u64 \<Rightarrow> u64 \<Rightarrow> u64" where
  "get_subindex cfg r sizeof_T i =
     ((i - rd_index_start r) * sizeof_T + rd_page_start_offset r) AND d_page_size_minus_1 cfg"

subsection \<open>Bits of the state word\<close>

abbreviation "pvalid w \<equiv> bit (w :: u32) 31"
abbreviation "pbusy w \<equiv> bit (w :: u32) 30"
abbreviation "pdirty w \<equiv> bit (w :: u32) 29"

definition pcount :: "u32 \<Rightarrow> nat" where
  "pcount w = unat (w AND CNT_MASK)"

lemma CNT_MASK_mask: "CNT_MASK = mask 29"
  by (simp add: CNT_MASK_def mask_eq_exp_minus_1)

lemma VALID_bits: "bit VALID n \<longleftrightarrow> n = 31" and BUSY_bits: "bit BUSY n \<longleftrightarrow> n = 30" and DIRTY_bits: "bit DIRTY n \<longleftrightarrow> n = 29"
proof -
  have v: "VALID = 2 ^ 31" "BUSY = 2 ^ 30" "DIRTY = 2 ^ 29"
    by (simp_all add: VALID_def BUSY_def DIRTY_def)
  show "bit VALID n \<longleftrightarrow> n = 31" "bit BUSY n \<longleftrightarrow> n = 30" "bit DIRTY n \<longleftrightarrow> n = 29"
    unfolding v bit_exp_iff by auto
qed

lemma pcount_mod: "pcount w = unat w mod 2 ^ 29"
  by (simp add: pcount_def CNT_MASK_mask unat_take_bit flip: take_bit_eq_mask)


lemma state_class_iff:
  "state_class w = NV_NB \<longleftrightarrow> \<not> pvalid w \<and> \<not> pbusy w"
  "state_class w = V_NB \<longleftrightarrow> pvalid w \<and> \<not> pbusy w"
proof -
  have b: "bit (state_class w) n \<longleftrightarrow> n = 0 \<and> pbusy w \<or> n = 1 \<and> pvalid w" for n
  proof -
    have "bit (state_class w) n \<longleftrightarrow> bit w (30 + n) \<and> n < 2"
    proof -
      have "(0x03 :: u32) = mask 2"
        by (simp add: mask_eq_exp_minus_1)
      then show ?thesis
        unfolding state_class_def CNT_SHIFT_def by (simp only: bit_simps) (auto simp: add.commute)
    qed
    then show ?thesis
      by (auto simp: numeral_2_eq_2 less_Suc_eq)
  qed
  have eq: "state_class w = c \<longleftrightarrow> pbusy w = bit c 0 \<and> pvalid w = bit c 1" if c: "\<And>n. bit c n \<Longrightarrow> n = 0 \<or> n = 1" for c
  proof
    assume bits: "pbusy w = bit c 0 \<and> pvalid w = bit c 1"
    show "state_class w = c"
    proof (rule bit_word_eqI)
      fix n :: nat
      consider "n = 0" | "n = 1" | "n \<noteq> 0" "n \<noteq> 1"
        by blast
      then show "bit (state_class w) n = bit c n"
        using b[of n] bits c[of n] by cases auto
    qed
  qed (use b[of 0] b[of 1] in simp)
  show "state_class w = NV_NB \<longleftrightarrow> \<not> pvalid w \<and> \<not> pbusy w"
    using eq[of NV_NB] by (auto simp: NV_NB_def)
  have v: "bit V_NB n \<longleftrightarrow> n = 1" for n
    using bit_2_iff[where 'a = u32] by (auto simp: V_NB_def)
  then show "state_class w = V_NB \<longleftrightarrow> pvalid w \<and> \<not> pbusy w"
    using eq[of V_NB] unfolding v by auto
qed

lemma or_BUSY [simp]:
  "pvalid (w OR BUSY) = pvalid w" "pbusy (w OR BUSY)" "pdirty (w OR BUSY) = pdirty w" "pcount (w OR BUSY) = pcount w"
proof -
  have "take_bit 29 (w OR BUSY) = take_bit 29 w"
    by (intro bit_word_eqI) (auto simp: bit_simps BUSY_bits)
  then show "pcount (w OR BUSY) = pcount w"
    by (simp add: pcount_def CNT_MASK_mask flip: take_bit_eq_mask)
qed (simp_all add: bit_simps BUSY_bits)

lemma or_DIRTY [simp]:
  "pvalid (w OR DIRTY) = pvalid w" "pbusy (w OR DIRTY) = pbusy w" "pdirty (w OR DIRTY)" "pcount (w OR DIRTY) = pcount w"
proof -
  have "take_bit 29 (w OR DIRTY) = take_bit 29 w"
    by (intro bit_word_eqI) (auto simp: bit_simps DIRTY_bits)
  then show "pcount (w OR DIRTY) = pcount w"
    by (simp add: pcount_def CNT_MASK_mask flip: take_bit_eq_mask)
qed (simp_all add: bit_simps DIRTY_bits)

lemma DISABLE_BUSY_MASK_bits: "bit DISABLE_BUSY_MASK n \<longleftrightarrow> n < 32 \<and> n \<noteq> 30"
proof -
  have eq: "DISABLE_BUSY_MASK = NOT BUSY"
    by (simp add: DISABLE_BUSY_MASK_def BUSY_def)
  show ?thesis
    unfolding eq bit_not_iff BUSY_bits by auto
qed

lemma and_DISABLE_BUSY [simp]:
  "pvalid (w AND DISABLE_BUSY_MASK) = pvalid w" "\<not> pbusy (w AND DISABLE_BUSY_MASK)"
  "pdirty (w AND DISABLE_BUSY_MASK) = pdirty w" "pcount (w AND DISABLE_BUSY_MASK) = pcount w"
proof -
  have "take_bit 29 (w AND DISABLE_BUSY_MASK) = take_bit 29 w"
    by (intro bit_word_eqI) (auto simp: bit_simps DISABLE_BUSY_MASK_bits)
  then show "pcount (w AND DISABLE_BUSY_MASK) = pcount w"
    by (simp add: pcount_def CNT_MASK_mask flip: take_bit_eq_mask)
qed (simp_all add: bit_simps DISABLE_BUSY_MASK_bits)

lemma and_CNT_MASK [simp]:
  "\<not> pvalid (w AND CNT_MASK)" "\<not> pbusy (w AND CNT_MASK)" "\<not> pdirty (w AND CNT_MASK)" "pcount (w AND CNT_MASK) = pcount w"
  by (simp_all add: CNT_MASK_mask bit_simps pcount_def and.assoc)

lemma xor_enable_bits: "bit DISABLE_BUSY_ENABLE_VALID n \<longleftrightarrow> n = 30 \<or> n = 31"
proof -
  have eq: "DISABLE_BUSY_ENABLE_VALID = BUSY OR VALID"
    by (simp add: DISABLE_BUSY_ENABLE_VALID_def BUSY_def VALID_def)
  show ?thesis
    unfolding eq bit_or_iff BUSY_bits VALID_bits by simp
qed

lemma xor_enable [simp]:
  "pvalid (w XOR DISABLE_BUSY_ENABLE_VALID) = (\<not> pvalid w)" "pbusy (w XOR DISABLE_BUSY_ENABLE_VALID) = (\<not> pbusy w)"
  "pdirty (w XOR DISABLE_BUSY_ENABLE_VALID) = pdirty w" "pcount (w XOR DISABLE_BUSY_ENABLE_VALID) = pcount w"
proof -
  have "take_bit 29 (w XOR DISABLE_BUSY_ENABLE_VALID) = take_bit 29 w"
    by (intro bit_word_eqI) (auto simp: bit_simps xor_enable_bits)
  then show "pcount (w XOR DISABLE_BUSY_ENABLE_VALID) = pcount w"
    by (simp add: pcount_def CNT_MASK_mask flip: take_bit_eq_mask)
qed (simp_all add: bit_simps xor_enable_bits)

lemma and_exp_0: "w AND 2 ^ n = 0 \<longleftrightarrow> \<not> bit (w :: u32) n"
  using and_exp_eq_0_iff_not_bit[of w n] by simp

lemma flag_tests [simp]: "w AND BUSY = 0 \<longleftrightarrow> \<not> pbusy w" "w AND DIRTY = 0 \<longleftrightarrow> \<not> pdirty w" "w AND CNT_MASK = 0 \<longleftrightarrow> pcount w = 0"
proof -
  have "BUSY = 2 ^ 30" "DIRTY = 2 ^ 29"
    by (simp_all add: BUSY_def DIRTY_def)
  then show "w AND BUSY = 0 \<longleftrightarrow> \<not> pbusy w" "w AND DIRTY = 0 \<longleftrightarrow> \<not> pdirty w"
    using and_exp_0[of w 30] and_exp_0[of w 29] by simp_all
  show "w AND CNT_MASK = 0 \<longleftrightarrow> pcount w = 0"
    by (simp add: pcount_def unat_eq_0)
qed

text \<open>Adding and subtracting references leaves the flags alone while the count stays below its field.\<close>

lemma bit_div: "29 \<le> n \<Longrightarrow> bit (w :: u32) n = odd (unat w div 2 ^ 29 div 2 ^ (n - 29))"
proof -
  assume "29 \<le> n"
  then have "unat w div 2 ^ 29 div 2 ^ (n - 29) = unat w div 2 ^ n"
    by (metis div_mult2_eq le_add_diff_inverse power_add)
  then show ?thesis
    by (simp add: bit_unsigned_iff flip: bit_iff_odd)
qed

lemma add_below_field:
  fixes w d k :: nat
  assumes "w div d < 8" "w mod d + k < d"
  shows "w + k < 8 * d"
proof -
  have "d * (w div d) \<le> d * 7"
    using assms(1) by (intro mult_le_mono2) simp
  then show ?thesis
    using assms(2) mult_div_mod_eq[of d w] by linarith
qed

lemma add_mod_field:
  fixes w d k :: nat
  assumes "w mod d + k < d"
  shows "(w + k) mod d = w mod d + k" "(w + k) div d = w div d"
proof -
  have w: "w + k = (w mod d + k) + d * (w div d)"
    using mult_div_mod_eq[of d w] by linarith
  show "(w + k) mod d = w mod d + k"
    unfolding w mod_mult_self2 using assms by (rule mod_less)
  show "(w + k) div d = w div d"
    unfolding w using assms by (subst div_mult_self2) simp_all
qed

lemma add_count:
  assumes "pcount w + unat k < 2 ^ 29"
  shows "pvalid (w + k) = pvalid w" "pbusy (w + k) = pbusy w" "pdirty (w + k) = pdirty w" "pcount (w + k) = pcount w + unat k"
proof -
  have "unat w div 2 ^ 29 < 8"
    using unsigned_less[of w, where 'a = nat] by simp
  then have "unat w + unat k < 2 ^ 32"
    using assms add_below_field[of "unat w" "2 ^ 29" "unat k"] by (simp add: pcount_mod)
  then have u: "unat (w + k) = unat w + unat k"
    by (intro unat_add_no_wrap) simp
  have "unat (w + k) div 2 ^ 29 = unat w div 2 ^ 29"
    using add_mod_field(2)[of "unat w" "2 ^ 29" "unat k"] assms by (simp add: u pcount_mod)
  then show "pvalid (w + k) = pvalid w" "pbusy (w + k) = pbusy w" "pdirty (w + k) = pdirty w"
    using bit_div by simp_all
  show "pcount (w + k) = pcount w + unat k"
    using add_mod_field(1)[of "unat w" "2 ^ 29" "unat k"] assms by (simp add: u pcount_mod)
qed

lemma sub_count:
  assumes "unat k \<le> pcount w"
  shows "pvalid (w - k) = pvalid w" "pbusy (w - k) = pbusy w" "pdirty (w - k) = pdirty w" "pcount (w - k) = pcount w - unat k"
proof -
  have "pcount w < 2 ^ 29"
    by (simp add: pcount_mod)
  have "pcount (w - k) + unat k = pcount w"
  proof -
    have le: "unat k \<le> unat w"
      using assms mod_less_eq_dividend[of "unat w" "2 ^ 29"] by (simp add: pcount_mod)
    have "unat (w - k) = unat w - unat k"
      using le by (intro unat_sub_le) (simp add: word_le_nat_alt)
    moreover have "(unat w - unat k) mod 2 ^ 29 = unat w mod 2 ^ 29 - unat k"
    proof -
      have "unat w - unat k = (unat w mod 2 ^ 29 - unat k) + 2 ^ 29 * (unat w div 2 ^ 29)"
        using assms mult_div_mod_eq[of "2 ^ 29" "unat w"] unfolding pcount_mod by linarith
      moreover have "unat w mod 2 ^ 29 - unat k < 2 ^ 29"
        by (simp add: less_imp_diff_less)
      ultimately show ?thesis
        by (metis mod_less mod_mult_self2)
    qed
    ultimately show ?thesis
      using assms by (simp add: pcount_mod)
  qed
  with add_count[of "w - k" k] \<open>pcount w < 2 ^ 29\<close>
  show "pvalid (w - k) = pvalid w" "pbusy (w - k) = pbusy w" "pdirty (w - k) = pdirty w" "pcount (w - k) = pcount w - unat k"
    by simp_all
qed

end
