(* ===== verification/PageCache.thy ===== *)
theory PageCache
  imports PageMap
begin

text \<open>
  The page cache under concurrency, \<open>include/page_cache.h\<close>: \<open>range_d_t::acquire_page\<close>, \<open>page_cache_d_t::find_slot\<close>
  and \<open>release_page\<close>, run by any number of threads in any order. One step of a call is one atomic access to shared
  memory together with the thread-local work around it; a CAS of the weak form may fail without reason.

  The code is the one compiled without \<open>IO_SCHED_EVICT\<close>: dirty pages are evicted with \<open>write_data\<close> and missing pages are
  read with \<open>read_data_no_second\<close>, with neither staging buffer nor artificial delay set. A finished NVMe command has copied
  the page between the cache slot and the device. The cycle counters of the eviction are left out.

  Two ghost fields: \<open>k_occ\<close> says which slot a page was given and \<open>k_cur\<close> what a page holds, as last written by its users.
\<close>

record acq_call =
  ac_page :: page
  ac_count :: u32
  ac_write :: bool

datatype acq_pc =
    A_add | A_switch u32 | A_reload | A_unbusy | A_dirty | A_hit
  | F_ticket | F_load u32 | F_cas_free u32 | F_claim u32 | F_cas u32 | F_prev u32 | F_busy u32 page
  | F_wb u32 page "u64 list" | F_evict u32 page | F_trans u32 | F_unbusy u32 page | F_unlock u32 bool
  | L_ctrl u32 | L_read u32 u64 | L_offset u32 | L_dirty u32 | L_valid u32
  | A_ret u32 | A_done

record 'd pc_sys =
  k_state :: "page \<Rightarrow> u32"
  k_offset :: "page \<Rightarrow> u32"
  k_lock :: "u32 \<Rightarrow> u32"
  k_trans :: "u32 \<Rightarrow> u64"
  k_ticket :: u32
  k_counter :: u64
  k_mem :: "u32 \<Rightarrow> 'd"
  k_disk :: "u64 \<Rightarrow> u64 \<Rightarrow> 'd"
  k_access_cnt :: "u64 \<Rightarrow> u64"
  k_miss_cnt :: "u64 \<Rightarrow> u64"
  k_hit_cnt :: "u64 \<Rightarrow> u64"
  k_read_io_cnt :: "u64 \<Rightarrow> u64"
  k_access_counter :: "u64 \<Rightarrow> u64"
  k_n :: nat
  k_call :: "nat \<Rightarrow> acq_call"
  k_pc :: "nat \<Rightarrow> acq_pc"
  k_occ :: "page \<Rightarrow> u32 option"
  k_cur :: "page \<Rightarrow> 'd"

definition agoto :: "nat \<Rightarrow> acq_pc \<Rightarrow> 'd pc_sys \<Rightarrow> 'd pc_sys" where
  "agoto c pc s = s\<lparr>k_pc := (k_pc s)(c := pc)\<rparr>"

definition set_state :: "page \<Rightarrow> u32 \<Rightarrow> 'd pc_sys \<Rightarrow> 'd pc_sys" where
  "set_state pg w s = s\<lparr>k_state := (k_state s)(pg := w)\<rparr>"

definition bump :: "u64 \<Rightarrow> u64 \<Rightarrow> (u64 \<Rightarrow> u64) \<Rightarrow> u64 \<Rightarrow> u64" where
  "bump r k f = f(r := f r + k)"

subsection \<open>Finding a slot\<close>

text \<open>\<open>weak\<close> tells whether a weak CAS that could succeed does.\<close>

definition find_slot_step :: "page_cache_d_t \<Rightarrow> bool \<Rightarrow> nat \<Rightarrow> 'd pc_sys \<Rightarrow> 'd pc_sys" where
  "find_slot_step cfg weak c s =
     (let pg = ac_page (k_call s c);
          global_address = get_global_address cfg (pg_range pg) (pg_index pg)
      in case k_pc s c of
        F_ticket \<Rightarrow> agoto c (F_load (ucast (ucast (k_ticket s) mod d_n_pages cfg))) (s\<lparr>k_ticket := k_ticket s + 1\<rparr>)
      | F_load p \<Rightarrow>
          if k_lock s p = FREE then agoto c (F_cas_free p) s
          else if k_lock s p = UNLOCKED then agoto c (F_cas p) s
          else agoto c F_ticket s
      | F_cas_free p \<Rightarrow>
          if k_lock s p = FREE \<and> weak then agoto c (F_claim p) (s\<lparr>k_lock := (k_lock s)(p := LOCKED)\<rparr>)
          else agoto c F_ticket s
      | F_claim p \<Rightarrow>
          agoto c (F_unlock p True) (s\<lparr>k_trans := (k_trans s)(p := global_address), k_occ := (k_occ s)(pg \<mapsto> p)\<rparr>)
      | F_cas p \<Rightarrow>
          if k_lock s p = UNLOCKED \<and> weak then agoto c (F_prev p) (s\<lparr>k_lock := (k_lock s)(p := LOCKED)\<rparr>)
          else agoto c F_ticket s
      | F_prev p \<Rightarrow>
          let prev = address_page cfg (k_trans s p);
              expected_state = k_state s prev
          in if expected_state AND CNT_MASK = 0 \<and> expected_state AND BUSY = 0 then agoto c (F_busy p prev) s
             else agoto c (F_unlock p False) s
      | F_busy p prev \<Rightarrow>
          let new_expected_state = k_state s prev;
              s' = set_state prev (new_expected_state OR BUSY) s
          in if new_expected_state AND BUSY = 0 then
               if new_expected_state AND CNT_MASK = 0 then
                 if new_expected_state AND DIRTY \<noteq> 0 then agoto c (F_wb p prev (evict_ctrls cfg prev)) s'
                 else agoto c (F_evict p prev) s'
               else agoto c (F_unbusy p prev) s'
             else agoto c (F_unlock p False) s'
      | F_wb p prev ctrls \<Rightarrow>
          (case ctrls of
             [] \<Rightarrow> agoto c (F_evict p prev) s
           | ctrl # rest \<Rightarrow>
               agoto c (F_wb p prev rest)
                 (s\<lparr>k_disk := (k_disk s)(ctrl := (k_disk s ctrl)(page_lba cfg prev := k_mem s p))\<rparr>))
      | F_evict p prev \<Rightarrow>
          agoto c (F_trans p) (set_state prev (k_state s prev AND CNT_MASK) (s\<lparr>k_occ := (k_occ s)(prev := None)\<rparr>))
      | F_trans p \<Rightarrow>
          agoto c (F_unlock p True) (s\<lparr>k_trans := (k_trans s)(p := global_address), k_occ := (k_occ s)(pg \<mapsto> p)\<rparr>)
      | F_unbusy p prev \<Rightarrow> agoto c (F_unlock p False) (set_state prev (k_state s prev AND DISABLE_BUSY_MASK) s)
      | F_unlock p found \<Rightarrow>
          agoto c (if found then L_ctrl p else F_ticket) (s\<lparr>k_lock := (k_lock s)(p := UNLOCKED)\<rparr>)
      | _ \<Rightarrow> s)"

subsection \<open>Acquiring and releasing\<close>

definition acquire_page_start :: "acq_call \<Rightarrow> 'd pc_sys \<Rightarrow> 'd pc_sys" where
  "acquire_page_start call s =
     agoto (k_n s) A_add (s\<lparr>k_n := k_n s + 1, k_call := (k_call s)(k_n s := call),
       k_access_cnt := bump (pg_range (ac_page call)) (ucast (ac_count call)) (k_access_cnt s)\<rparr>)"

definition acquire_page_step :: "page_cache_d_t \<Rightarrow> bool \<Rightarrow> nat \<Rightarrow> 'd pc_sys \<Rightarrow> 'd pc_sys" where
  "acquire_page_step cfg weak c s =
     (let call = k_call s c;
          pg = ac_page call;
          state = k_state s pg
      in case k_pc s c of
        A_add \<Rightarrow> agoto c (A_switch state) (set_state pg (state + ac_count call) s)
      | A_switch read_state \<Rightarrow>
          if state_class read_state = NV_NB then
            let st_new = state;
                s' = set_state pg (st_new OR BUSY) s
            in if st_new AND BUSY = 0 then
                 if state_class st_new = NV_NB then agoto c F_ticket s' else agoto c A_unbusy s'
               else agoto c A_reload s'
          else if state_class read_state = V_NB then
            if ac_write call \<and> read_state AND DIRTY = 0 then agoto c A_dirty s else agoto c A_hit s
          else agoto c A_reload s
      | A_reload \<Rightarrow> agoto c (A_switch state) s
      | A_unbusy \<Rightarrow> agoto c A_reload (set_state pg (state AND DISABLE_BUSY_MASK) s)
      | A_dirty \<Rightarrow> agoto c A_hit (set_state pg (state OR DIRTY) s)
      | A_hit \<Rightarrow> agoto c (A_ret (k_offset s pg)) (s\<lparr>k_hit_cnt := bump (pg_range pg) (ucast (ac_count call)) (k_hit_cnt s)\<rparr>)
      | L_ctrl p \<Rightarrow>
          let ctrl = read_ctrl cfg pg (k_counter s)
          in agoto c (L_read p ctrl)
               (s\<lparr>k_counter := (if takes_counter cfg pg then k_counter s + 1 else k_counter s),
                  k_access_counter := bump ctrl 1 (k_access_counter s), k_read_io_cnt := bump (pg_range pg) 1 (k_read_io_cnt s)\<rparr>)
      | L_read p ctrl \<Rightarrow> agoto c (L_offset p) (s\<lparr>k_mem := (k_mem s)(p := k_disk s ctrl (page_lba cfg pg))\<rparr>)
      | L_offset p \<Rightarrow>
          agoto c (if ac_write call then L_dirty p else L_valid p)
            (s\<lparr>k_offset := (k_offset s)(pg := p), k_miss_cnt := bump (pg_range pg) (ucast (ac_count call)) (k_miss_cnt s)\<rparr>)
      | L_dirty p \<Rightarrow> agoto c (L_valid p) (set_state pg (state OR DIRTY) s)
      | L_valid p \<Rightarrow> agoto c (A_ret p) (set_state pg (state XOR DISABLE_BUSY_ENABLE_VALID) s)
      | A_ret p \<Rightarrow> s
      | A_done \<Rightarrow> s
      | _ \<Rightarrow> find_slot_step cfg weak c s)"

definition release_page :: "nat \<Rightarrow> 'd pc_sys \<Rightarrow> 'd pc_sys" where
  "release_page c s =
     (let pg = ac_page (k_call s c) in agoto c A_done (set_state pg (k_state s pg - ac_count (k_call s c)) s))"

text \<open>A user that holds a page for writing changes its contents in the slot it was given.\<close>

definition write_page :: "nat \<Rightarrow> u32 \<Rightarrow> ('d \<Rightarrow> 'd) \<Rightarrow> 'd pc_sys \<Rightarrow> 'd pc_sys" where
  "write_page c p f s =
     s\<lparr>k_mem := (k_mem s)(p := f (k_mem s p)), k_cur := (k_cur s)(ac_page (k_call s c) := f (k_cur s (ac_page (k_call s c))))\<rparr>"

subsection \<open>Runs\<close>

definition wf_page :: "page_cache_d_t \<Rightarrow> page \<Rightarrow> bool" where
  "wf_page cfg pg \<longleftrightarrow> pg_range pg < d_n_ranges cfg \<and> pg_index pg < d_ranges_page_counts cfg (pg_range pg)"

text \<open>The references that calls which have not been released take, or will take, on a page.\<close>

definition live_refs :: "'d pc_sys \<Rightarrow> page \<Rightarrow> nat" where
  "live_refs s pg = (\<Sum>c \<in> {c. c < k_n s \<and> k_pc s c \<noteq> A_done \<and> ac_page (k_call s c) = pg}. unat (ac_count (k_call s c)))"

text \<open>Fewer than \<open>2\<^sup>2\<^sup>9\<close> references to one page exist at a time, what the count field can hold.\<close>

inductive pc_step :: "page_cache_d_t \<Rightarrow> 'd pc_sys \<Rightarrow> 'd pc_sys \<Rightarrow> bool" for cfg where
  call: "wf_page cfg (ac_page call) \<Longrightarrow> 0 < ac_count call \<Longrightarrow>
    live_refs s (ac_page call) + unat (ac_count call) < 2 ^ 29 \<Longrightarrow> pc_step cfg s (acquire_page_start call s)"
| run: "c < k_n s \<Longrightarrow> pc_step cfg s (acquire_page_step cfg weak c s)"
| store: "c < k_n s \<Longrightarrow> k_pc s c = A_ret p \<Longrightarrow> ac_write (k_call s c) \<Longrightarrow> pc_step cfg s (write_page c p f s)"
| release: "c < k_n s \<Longrightarrow> k_pc s c = A_ret p \<Longrightarrow> pc_step cfg s (release_page c s)"

definition pc_init :: "page_cache_d_t \<Rightarrow> (u64 \<Rightarrow> u64 \<Rightarrow> 'd) \<Rightarrow> 'd pc_sys \<Rightarrow> 'd pc_sys" where
  "pc_init cfg disk s = s\<lparr>k_state := (\<lambda>_. INVALID), k_lock := (\<lambda>_. FREE), k_disk := disk, k_n := 0, k_pc := (\<lambda>_. A_done),
     k_occ := (\<lambda>_. None), k_cur := (\<lambda>pg. disk (read_ctrl cfg pg 0) (page_lba cfg pg))\<rparr>"

text \<open>At the start the controllers hold the same copy of every page that may be read from several of them.\<close>

inductive pc_reach :: "page_cache_d_t \<Rightarrow> 'd pc_sys \<Rightarrow> bool" for cfg where
  init: "(\<And>pg counter. wf_page cfg pg \<Longrightarrow>
      disk (read_ctrl cfg pg counter) (page_lba cfg pg) = disk (read_ctrl cfg pg 0) (page_lba cfg pg)) \<Longrightarrow>
    pc_reach cfg (pc_init cfg disk s)"
| step: "pc_reach cfg s \<Longrightarrow> pc_step cfg s s' \<Longrightarrow> pc_reach cfg s'"

end
