(* ===== verification/PageInv.thy ===== *)
theory PageInv
  imports PageCache
begin

text \<open>
  The invariant of the concurrent page cache: who holds the busy bit of a page and the lock of a slot, which page a
  slot belongs to, that referenced pages are not evicted, and where the current contents of a page are.
\<close>

subsection \<open>Invariant\<close>

text \<open>What a program point stands for: the slot whose lock the call holds, the slot it has been given, whether it
  holds the busy bit of its own page, the page whose busy bit it holds as evictor.\<close>

fun slot_held :: "acq_pc \<Rightarrow> u32 option" where
  "slot_held (F_claim p) = Some p" | "slot_held (F_prev p) = Some p" | "slot_held (F_busy p pg) = Some p"
| "slot_held (F_wb p pg cs) = Some p" | "slot_held (F_evict p pg) = Some p" | "slot_held (F_trans p) = Some p"
| "slot_held (F_unbusy p pg) = Some p" | "slot_held (F_unlock p b) = Some p" | "slot_held _ = None"

fun slot_got :: "acq_pc \<Rightarrow> u32 option" where
  "slot_got (F_unlock p b) = (if b then Some p else None)" | "slot_got (L_ctrl p) = Some p" | "slot_got (L_read p d) = Some p"
| "slot_got (L_offset p) = Some p" | "slot_got (L_dirty p) = Some p" | "slot_got (L_valid p) = Some p" | "slot_got _ = None"

fun loader :: "acq_pc \<Rightarrow> bool" where
  "loader A_add = False" | "loader (A_switch w) = False" | "loader A_reload = False" | "loader A_unbusy = False"
| "loader A_dirty = False" | "loader A_hit = False" | "loader (A_ret p) = False" | "loader A_done = False" | "loader _ = True"

fun victim_busy :: "acq_pc \<Rightarrow> page option" where
  "victim_busy (F_wb p pg cs) = Some pg" | "victim_busy (F_evict p pg) = Some pg" | "victim_busy (F_unbusy p pg) = Some pg"
| "victim_busy _ = None"

fun evicts :: "acq_pc \<Rightarrow> page \<Rightarrow> bool" where
  "evicts (F_wb p pg' cs) pg = (pg' = pg)" | "evicts (F_evict p pg') pg = (pg' = pg)" | "evicts _ pg = False"

text \<open>Calls that have seen their page valid while their references were counted.\<close>

fun holds :: "acq_pc \<Rightarrow> bool" where
  "holds (A_switch w) = (pvalid w \<and> \<not> pbusy w)" | "holds A_dirty = True" | "holds A_hit = True" | "holds (A_ret p) = True"
| "holds _ = False"

definition owns_busy :: "'d pc_sys \<Rightarrow> nat \<Rightarrow> page \<Rightarrow> bool" where
  "owns_busy s c pg \<longleftrightarrow> (loader (k_pc s c) \<or> k_pc s c = A_unbusy) \<and> ac_page (k_call s c) = pg \<or> victim_busy (k_pc s c) = Some pg"

abbreviation "own s c \<equiv> ac_page (k_call s c)"

text \<open>Calls that have not started are at the end; the others have a page and a positive count.\<close>

definition inv_calls :: "page_cache_d_t \<Rightarrow> 'd pc_sys \<Rightarrow> bool" where
  "inv_calls cfg s \<longleftrightarrow> (\<forall>c. k_n s \<le> c \<longrightarrow> k_pc s c = A_done) \<and>
     (\<forall>c < k_n s. wf_page cfg (own s c) \<and> 0 < ac_count (k_call s c))"

text \<open>The count field is the number of references the calls on the page have taken.\<close>

definition refs :: "'d pc_sys \<Rightarrow> page \<Rightarrow> nat" where
  "refs s pg = (\<Sum>c \<in> {c. c < k_n s \<and> k_pc s c \<noteq> A_done \<and> k_pc s c \<noteq> A_add \<and> own s c = pg}. unat (ac_count (k_call s c)))"

definition inv_count :: "'d pc_sys \<Rightarrow> bool" where
  "inv_count s \<longleftrightarrow> (\<forall>pg. pcount (k_state s pg) = refs s pg \<and> live_refs s pg < 2 ^ 29)"

text \<open>The busy bit is a lock.\<close>

definition exclusive :: "('x \<Rightarrow> bool) \<Rightarrow> ('c \<Rightarrow> 'x \<Rightarrow> bool) \<Rightarrow> bool" where
  "exclusive locked holder \<longleftrightarrow> (\<forall>x. locked x = (\<exists>c. holder c x)) \<and> (\<forall>c c' x. holder c x \<longrightarrow> holder c' x \<longrightarrow> c = c')"

definition inv_busy :: "'d pc_sys \<Rightarrow> bool" where
  "inv_busy s \<longleftrightarrow> exclusive (\<lambda>pg. pbusy (k_state s pg)) (owns_busy s) \<and> (\<forall>c. victim_busy (k_pc s c) \<noteq> Some (own s c))"

definition inv_lock :: "'d pc_sys \<Rightarrow> bool" where
  "inv_lock s \<longleftrightarrow> exclusive (\<lambda>p. k_lock s p = LOCKED) (\<lambda>c p. slot_held (k_pc s c) = Some p) \<and>
     (\<forall>p. k_lock s p = FREE \<or> k_lock s p = UNLOCKED \<or> k_lock s p = LOCKED)"

text \<open>Slots: a page that was given a slot is named by the slot's translation; a slot that is neither free nor being
  reassigned has a page.\<close>

abbreviation "ga cfg pg \<equiv> get_global_address cfg (pg_range pg) (pg_index pg)"

fun slot_victim :: "acq_pc \<Rightarrow> (u32 \<times> page) option" where
  "slot_victim (F_busy p pg) = Some (p, pg)" | "slot_victim (F_wb p pg cs) = Some (p, pg)" | "slot_victim (F_evict p pg) = Some (p, pg)"
| "slot_victim (F_unbusy p pg) = Some (p, pg)" | "slot_victim _ = None"

fun fresh_slot :: "acq_pc \<Rightarrow> u32 \<Rightarrow> bool" where
  "fresh_slot (F_claim q) p = (q = p)" | "fresh_slot (F_trans q) p = (q = p)" | "fresh_slot _ p = False"

fun used_slot :: "acq_pc \<Rightarrow> u32 \<Rightarrow> bool" where
  "used_slot (F_prev q) p = (q = p)" | "used_slot (F_unlock q b) p = (q = p \<and> \<not> b)" | "used_slot _ p = False"

definition inv_slot :: "page_cache_d_t \<Rightarrow> 'd pc_sys \<Rightarrow> bool" where
  "inv_slot cfg s \<longleftrightarrow>
     (\<forall>pg p. k_occ s pg = Some p \<longrightarrow> k_lock s p \<noteq> FREE \<and> k_trans s p = ga cfg pg \<and> wf_page cfg pg) \<and>
     (\<forall>c p pg. fresh_slot (k_pc s c) p \<longrightarrow> k_occ s pg \<noteq> Some p) \<and>
     (\<forall>p. k_lock s p = UNLOCKED \<longrightarrow> (\<exists>pg. k_occ s pg = Some p)) \<and>
     (\<forall>c p. used_slot (k_pc s c) p \<longrightarrow> (\<exists>pg. k_occ s pg = Some p)) \<and>
     (\<forall>c p pg. slot_victim (k_pc s c) = Some (p, pg) \<longrightarrow> k_occ s pg = Some p)"

definition inv_occ :: "'d pc_sys \<Rightarrow> bool" where
  "inv_occ s \<longleftrightarrow>
     (\<forall>pg. pvalid (k_state s pg) \<longrightarrow> k_occ s pg = Some (k_offset s pg)) \<and>
     (\<forall>c. loader (k_pc s c) \<longrightarrow> \<not> pvalid (k_state s (own s c)) \<and> k_occ s (own s c) = slot_got (k_pc s c)) \<and>
     (\<forall>pg. k_occ s pg \<noteq> None \<longrightarrow> pvalid (k_state s pg) \<or> (\<exists>c. loader (k_pc s c) \<and> own s c = pg)) \<and>
     (\<forall>c p. k_pc s c = L_dirty p \<or> k_pc s c = L_valid p \<longrightarrow> k_offset s (own s c) = p)"

text \<open>Users: the page of a call that has a valid reference stays valid and is not evicted, and it is dirty if the call writes.\<close>

fun wants_dirty :: "bool \<Rightarrow> acq_pc \<Rightarrow> bool" where
  "wants_dirty wr A_hit = wr" | "wants_dirty wr (A_ret p) = wr" | "wants_dirty wr (L_valid p) = wr"
| "wants_dirty wr (A_switch w) = (pvalid w \<and> \<not> pbusy w \<and> pdirty w)" | "wants_dirty wr _ = False"

definition inv_hold :: "'d pc_sys \<Rightarrow> bool" where
  "inv_hold s \<longleftrightarrow>
     (\<forall>c. holds (k_pc s c) \<longrightarrow> pvalid (k_state s (own s c)) \<and> (\<forall>c'. \<not> evicts (k_pc s c') (own s c))) \<and>
     (\<forall>c p. k_pc s c = A_ret p \<longrightarrow> k_offset s (own s c) = p) \<and>
     (\<forall>c. wants_dirty (ac_write (k_call s c)) (k_pc s c) \<longrightarrow> pdirty (k_state s (own s c)))"

text \<open>Contents: a valid page holds the current contents in its slot, and so does the device unless the page is dirty.\<close>

definition disk_ok :: "page_cache_d_t \<Rightarrow> 'd pc_sys \<Rightarrow> page \<Rightarrow> bool" where
  "disk_ok cfg s pg \<longleftrightarrow> (\<forall>counter. k_disk s (read_ctrl cfg pg counter) (page_lba cfg pg) = k_cur s pg)"

definition inv_data :: "page_cache_d_t \<Rightarrow> 'd pc_sys \<Rightarrow> bool" where
  "inv_data cfg s \<longleftrightarrow>
     (\<forall>pg. pvalid (k_state s pg) \<longrightarrow> k_mem s (k_offset s pg) = k_cur s pg) \<and>
     (\<forall>c p. k_pc s c = L_offset p \<or> k_pc s c = L_dirty p \<or> k_pc s c = L_valid p \<longrightarrow> k_mem s p = k_cur s (own s c)) \<and>
     (\<forall>pg. wf_page cfg pg \<longrightarrow> \<not> (pvalid (k_state s pg) \<and> pdirty (k_state s pg)) \<longrightarrow> disk_ok cfg s pg) \<and>
     (\<forall>c p pg cs counter. k_pc s c = F_wb p pg cs \<longrightarrow> read_ctrl cfg pg counter \<notin> set cs \<longrightarrow>
        k_disk s (read_ctrl cfg pg counter) (page_lba cfg pg) = k_cur s pg) \<and>
     (\<forall>c p pg cs. k_pc s c = F_wb p pg cs \<longrightarrow> set cs \<subseteq> set (evict_ctrls cfg pg)) \<and>
     (\<forall>c p pg. k_pc s c = F_evict p pg \<longrightarrow> disk_ok cfg s pg) \<and>
     (\<forall>c p ctrl. k_pc s c = L_read p ctrl \<longrightarrow> (\<exists>counter. ctrl = read_ctrl cfg (own s c) counter))"

subsection \<open>The transitions of a call\<close>

text \<open>The step function unfolded into its transitions, in terms of the bits of the state words.\<close>

lemmas step_defs = acquire_page_step_def find_slot_step_def Let_def

lemma agoto_simps [simp]:
  "k_pc (agoto c pc s) = (k_pc s)(c := pc)" "k_state (agoto c pc s) = k_state s" "k_offset (agoto c pc s) = k_offset s"
  "k_lock (agoto c pc s) = k_lock s" "k_trans (agoto c pc s) = k_trans s" "k_mem (agoto c pc s) = k_mem s"
  "k_disk (agoto c pc s) = k_disk s" "k_n (agoto c pc s) = k_n s" "k_call (agoto c pc s) = k_call s"
  "k_occ (agoto c pc s) = k_occ s" "k_cur (agoto c pc s) = k_cur s"
  by (simp_all add: agoto_def)

lemma set_state_simps [simp]:
  "k_pc (set_state pg w s) = k_pc s" "k_state (set_state pg w s) = (k_state s)(pg := w)" "k_offset (set_state pg w s) = k_offset s"
  "k_lock (set_state pg w s) = k_lock s" "k_trans (set_state pg w s) = k_trans s" "k_mem (set_state pg w s) = k_mem s"
  "k_disk (set_state pg w s) = k_disk s" "k_n (set_state pg w s) = k_n s" "k_call (set_state pg w s) = k_call s"
  "k_occ (set_state pg w s) = k_occ s" "k_cur (set_state pg w s) = k_cur s"
  by (simp_all add: set_state_def)

abbreviation "own_state s c \<equiv> k_state s (own s c)"

inductive acq_trans :: "page_cache_d_t \<Rightarrow> nat \<Rightarrow> 'd pc_sys \<Rightarrow> 'd pc_sys \<Rightarrow> bool" for cfg c s where
  skip: "acq_trans cfg c s s"
| add: "k_pc s c = A_add \<Longrightarrow>
    acq_trans cfg c s (agoto c (A_switch (own_state s c)) (set_state (own s c) (own_state s c + ac_count (k_call s c)) s))"
| miss: "k_pc s c = A_switch w \<Longrightarrow> \<not> pvalid w \<Longrightarrow> \<not> pbusy w \<Longrightarrow> \<not> pvalid (own_state s c) \<Longrightarrow> \<not> pbusy (own_state s c) \<Longrightarrow>
    acq_trans cfg c s (agoto c F_ticket (set_state (own s c) (own_state s c OR BUSY) s))"
| race: "k_pc s c = A_switch w \<Longrightarrow> \<not> pvalid w \<Longrightarrow> \<not> pbusy w \<Longrightarrow> pvalid (own_state s c) \<Longrightarrow> \<not> pbusy (own_state s c) \<Longrightarrow>
    acq_trans cfg c s (agoto c A_unbusy (set_state (own s c) (own_state s c OR BUSY) s))"
| busy: "k_pc s c = A_switch w \<Longrightarrow> \<not> pvalid w \<Longrightarrow> \<not> pbusy w \<Longrightarrow> pbusy (own_state s c) \<Longrightarrow> acq_trans cfg c s (agoto c A_reload s)"
| hit: "k_pc s c = A_switch w \<Longrightarrow> pvalid w \<Longrightarrow> \<not> pbusy w \<Longrightarrow> Y = (if ac_write (k_call s c) \<and> \<not> pdirty w then A_dirty else A_hit) \<Longrightarrow>
    acq_trans cfg c s (agoto c Y s)"
| wait: "k_pc s c = A_switch w \<Longrightarrow> pbusy w \<Longrightarrow> acq_trans cfg c s (agoto c A_reload s)"
| reload: "k_pc s c = A_reload \<Longrightarrow> acq_trans cfg c s (agoto c (A_switch (own_state s c)) s)"
| unbusy: "k_pc s c = A_unbusy \<Longrightarrow>
    acq_trans cfg c s (agoto c A_reload (set_state (own s c) (own_state s c AND DISABLE_BUSY_MASK) s))"
| dirty: "k_pc s c = A_dirty \<Longrightarrow> acq_trans cfg c s (agoto c A_hit (set_state (own s c) (own_state s c OR DIRTY) s))"
| ret: "k_pc s c = A_hit \<Longrightarrow> acq_trans cfg c s (agoto c (A_ret (k_offset s (own s c))) (s\<lparr>k_hit_cnt := n1\<rparr>))"
| ticket: "k_pc s c = F_ticket \<Longrightarrow> acq_trans cfg c s (agoto c (F_load p) (s\<lparr>k_ticket := t\<rparr>))"
| search: "k_pc s c = F_load p \<Longrightarrow> Y = F_cas_free p \<or> Y = F_cas p \<or> Y = F_ticket \<Longrightarrow> acq_trans cfg c s (agoto c Y s)"
| retry: "k_pc s c = F_cas_free p \<or> k_pc s c = F_cas p \<Longrightarrow> acq_trans cfg c s (agoto c F_ticket s)"
| take_free: "k_pc s c = F_cas_free p \<Longrightarrow> k_lock s p = FREE \<Longrightarrow>
    acq_trans cfg c s (agoto c (F_claim p) (s\<lparr>k_lock := (k_lock s)(p := LOCKED)\<rparr>))"
| take_used: "k_pc s c = F_cas p \<Longrightarrow> k_lock s p = UNLOCKED \<Longrightarrow>
    acq_trans cfg c s (agoto c (F_prev p) (s\<lparr>k_lock := (k_lock s)(p := LOCKED)\<rparr>))"
| assign: "k_pc s c = F_claim p \<or> k_pc s c = F_trans p \<Longrightarrow>
    acq_trans cfg c s (agoto c (F_unlock p True)
      (s\<lparr>k_trans := (k_trans s)(p := ga cfg (own s c)), k_occ := (k_occ s)(own s c \<mapsto> p)\<rparr>))"
| candidate: "k_pc s c = F_prev p \<Longrightarrow> acq_trans cfg c s (agoto c (F_busy p (address_page cfg (k_trans s p))) s)"
| in_use: "k_pc s c = F_prev p \<Longrightarrow> acq_trans cfg c s (agoto c (F_unlock p False) s)"
| lost: "k_pc s c = F_busy p pg \<Longrightarrow> pbusy (k_state s pg) \<Longrightarrow> acq_trans cfg c s (agoto c (F_unlock p False) s)"
| referenced: "k_pc s c = F_busy p pg \<Longrightarrow> \<not> pbusy (k_state s pg) \<Longrightarrow>
    acq_trans cfg c s (agoto c (F_unbusy p pg) (set_state pg (k_state s pg OR BUSY) s))"
| clean: "k_pc s c = F_busy p pg \<Longrightarrow> \<not> pbusy (k_state s pg) \<Longrightarrow> pcount (k_state s pg) = 0 \<Longrightarrow> \<not> pdirty (k_state s pg) \<Longrightarrow>
    acq_trans cfg c s (agoto c (F_evict p pg) (set_state pg (k_state s pg OR BUSY) s))"
| writeback: "k_pc s c = F_busy p pg \<Longrightarrow> \<not> pbusy (k_state s pg) \<Longrightarrow> pcount (k_state s pg) = 0 \<Longrightarrow> pdirty (k_state s pg) \<Longrightarrow>
    acq_trans cfg c s (agoto c (F_wb p pg (evict_ctrls cfg pg)) (set_state pg (k_state s pg OR BUSY) s))"
| written: "k_pc s c = F_wb p pg [] \<Longrightarrow> acq_trans cfg c s (agoto c (F_evict p pg) s)"
| write_one: "k_pc s c = F_wb p pg (ctrl # rest) \<Longrightarrow>
    acq_trans cfg c s (agoto c (F_wb p pg rest)
      (s\<lparr>k_disk := (k_disk s)(ctrl := (k_disk s ctrl)(page_lba cfg pg := k_mem s p))\<rparr>))"
| evict: "k_pc s c = F_evict p pg \<Longrightarrow>
    acq_trans cfg c s (agoto c (F_trans p) (set_state pg (k_state s pg AND CNT_MASK) (s\<lparr>k_occ := (k_occ s)(pg := None)\<rparr>)))"
| give_up: "k_pc s c = F_unbusy p pg \<Longrightarrow>
    acq_trans cfg c s (agoto c (F_unlock p False) (set_state pg (k_state s pg AND DISABLE_BUSY_MASK) s))"
| unlock: "k_pc s c = F_unlock p found \<Longrightarrow>
    acq_trans cfg c s (agoto c (if found then L_ctrl p else F_ticket) (s\<lparr>k_lock := (k_lock s)(p := UNLOCKED)\<rparr>))"
| choose: "k_pc s c = L_ctrl p \<Longrightarrow>
    acq_trans cfg c s (agoto c (L_read p (read_ctrl cfg (own s c) (k_counter s)))
      (s\<lparr>k_counter := n1, k_access_counter := n2, k_read_io_cnt := n3\<rparr>))"
| fetch: "k_pc s c = L_read p ctrl \<Longrightarrow>
    acq_trans cfg c s (agoto c (L_offset p) (s\<lparr>k_mem := (k_mem s)(p := k_disk s ctrl (page_lba cfg (own s c)))\<rparr>))"
| offset: "k_pc s c = L_offset p \<Longrightarrow> Y = (if ac_write (k_call s c) then L_dirty p else L_valid p) \<Longrightarrow>
    acq_trans cfg c s (agoto c Y (s\<lparr>k_offset := (k_offset s)(own s c := p), k_miss_cnt := n2\<rparr>))"
| dirty_new: "k_pc s c = L_dirty p \<Longrightarrow>
    acq_trans cfg c s (agoto c (L_valid p) (set_state (own s c) (own_state s c OR DIRTY) s))"
| valid: "k_pc s c = L_valid p \<Longrightarrow>
    acq_trans cfg c s (agoto c (A_ret p) (set_state (own s c) (own_state s c XOR DISABLE_BUSY_ENABLE_VALID) s))"

lemma or_BUSY_same: "pbusy w \<Longrightarrow> w OR BUSY = w"
  by (intro bit_word_eqI) (auto simp: bit_simps BUSY_bits)

lemma set_state_same: "k_state s pg = w \<Longrightarrow> set_state pg w s = s"
  by (simp add: set_state_def fun_upd_idem)

lemma acq_trans_step: "acq_trans cfg c s (acquire_page_step cfg weak c s)"
proof (cases "k_pc s c")
  case (A_switch w)
  consider "\<not> pvalid w" "\<not> pbusy w" "pbusy (own_state s c)" | "\<not> pvalid w" "\<not> pbusy w" "\<not> pbusy (own_state s c)" "pvalid (own_state s c)"
    | "\<not> pvalid w" "\<not> pbusy w" "\<not> pbusy (own_state s c)" "\<not> pvalid (own_state s c)" | "pvalid w" "\<not> pbusy w" | "pbusy w"
    by blast
  then show ?thesis
    using A_switch
    by cases (auto simp: step_defs state_class_iff or_BUSY_same set_state_same intro: acq_trans.intros)
next
  case (F_busy p pg)
  then show ?thesis
    by (cases "pbusy (k_state s pg)") (auto simp: step_defs or_BUSY_same set_state_same intro: acq_trans.intros)
next
  case (F_wb p pg cs)
  then show ?thesis
    by (cases cs) (auto simp: step_defs intro: acq_trans.intros)
next
  case (F_unlock p b)
  then show ?thesis
    using acq_trans.unlock[OF F_unlock, of cfg] by (simp add: step_defs)
next
  case (L_ctrl p)
  show ?thesis
    unfolding step_defs L_ctrl acq_pc.case by (rule acq_trans.choose[OF L_ctrl])
qed (auto simp: step_defs intro: acq_trans.intros)


subsection \<open>The slot locks\<close>

lemma lock_values [simp]: "FREE \<noteq> UNLOCKED" "FREE \<noteq> LOCKED" "UNLOCKED \<noteq> LOCKED" "UNLOCKED \<noteq> FREE" "LOCKED \<noteq> FREE" "LOCKED \<noteq> UNLOCKED"
  by (simp_all add: FREE_def UNLOCKED_def LOCKED_def)

lemma exclusive_take:
  assumes "exclusive L H" "\<not> L x" "\<And>c' y. H' c' y = (H c' y \<or> c' = c \<and> y = x)" "\<And>y. L' y = (L y \<or> y = x)"
  shows "exclusive L' H'"
  using assms(1,2) unfolding exclusive_def assms(3,4) by blast

lemma exclusive_drop:
  assumes "exclusive L H" "H c x" "\<And>c' y. H' c' y = (H c' y \<and> y \<noteq> x)" "\<And>y. L' y = (L y \<and> y \<noteq> x)"
  shows "exclusive L' H'"
  using assms(1,2) unfolding exclusive_def assms(3,4) by blast

lemma exclusive_cong:
  assumes "exclusive L H" "\<And>c y. H' c y = H c y" "\<And>y. L' y = L y"
  shows "exclusive L' H'"
  using assms(1) unfolding exclusive_def assms(2,3) .

lemma exclusive_unique: "exclusive L H \<Longrightarrow> H c x \<Longrightarrow> H c' x \<Longrightarrow> c = c'"
  unfolding exclusive_def by blast

lemma exclusive_locked: "exclusive L H \<Longrightarrow> L x = (\<exists>c. H c x)"
  unfolding exclusive_def by blast

lemma lock_frame:
  assumes "inv_lock s" "k_lock s' = k_lock s" "k_pc s' = k_pc s" "slot_held Y = slot_held (k_pc s c)"
  shows "inv_lock (agoto c Y s')"
proof -
  have "exclusive (\<lambda>p. k_lock (agoto c Y s') p = LOCKED) (\<lambda>x p. slot_held (k_pc (agoto c Y s') x) = Some p)"
    by (rule exclusive_cong[OF conjunct1[OF assms(1)[unfolded inv_lock_def]]]) (use assms in auto)
  then show ?thesis
    using assms(1,2) by (simp add: inv_lock_def)
qed

lemma lock_take:
  assumes "inv_lock s" "k_lock s' = (k_lock s)(p := LOCKED)" "k_pc s' = k_pc s" "k_lock s p \<noteq> LOCKED"
    "slot_held (k_pc s c) = None" "slot_held Y = Some p"
  shows "inv_lock (agoto c Y s')"
proof -
  have "exclusive (\<lambda>p. k_lock (agoto c Y s') p = LOCKED) (\<lambda>x p. slot_held (k_pc (agoto c Y s') x) = Some p)"
    by (rule exclusive_take[where x = p and c = c]) (use assms in \<open>auto simp: inv_lock_def\<close>)
  then show ?thesis
    using assms(1,2) by (simp add: inv_lock_def)
qed

lemma lock_drop:
  assumes "inv_lock s" "k_lock s' = (k_lock s)(p := UNLOCKED)" "k_pc s' = k_pc s"
    "slot_held (k_pc s c) = Some p" "slot_held Y = None"
  shows "inv_lock (agoto c Y s')"
proof -
  have ex: "exclusive (\<lambda>p. k_lock s p = LOCKED) (\<lambda>x p. slot_held (k_pc s x) = Some p)"
    using assms(1) by (simp add: inv_lock_def)
  have "exclusive (\<lambda>p. k_lock (agoto c Y s') p = LOCKED) (\<lambda>x p. slot_held (k_pc (agoto c Y s') x) = Some p)"
    by (rule exclusive_drop[OF ex, where x = p and c = c]) (use assms exclusive_unique[OF ex] in \<open>auto\<close>)
  then show ?thesis
    using assms(1,2) by (simp add: inv_lock_def)
qed

lemma inv_lock_trans:
  assumes "acq_trans cfg c s s'" "inv_lock s"
  shows "inv_lock s'"
  using assms(1)
proof cases
  case (take_free p)
  then show ?thesis
    using assms(2) by (auto intro!: lock_take[where s = s])
next
  case (take_used p)
  then show ?thesis
    using assms(2) by (auto intro!: lock_take[where s = s])
next
  case (unlock p found)
  then show ?thesis
    using assms(2) by (auto intro!: lock_drop[where s = s])
qed (auto simp: assms(2) lock_frame[OF assms(2)])

subsection \<open>The busy bits\<close>

lemma owns_agoto:
  "owns_busy (agoto c Y s') x pg = (if x = c then (loader Y \<or> Y = A_unbusy) \<and> own s' c = pg \<or> victim_busy Y = Some pg else owns_busy s' x pg)"
  by (simp add: owns_busy_def)

lemma owns_cong: "k_pc s' = k_pc s \<Longrightarrow> k_call s' = k_call s \<Longrightarrow> owns_busy s' = owns_busy s"
  by (intro ext) (simp add: owns_busy_def)

text \<open>Calls that hold the busy bit of their own page.\<close>

abbreviation "busy_own pc \<equiv> loader pc \<or> pc = A_unbusy"

lemma busy_frame:
  assumes "inv_busy s" "k_pc s' = k_pc s" "k_call s' = k_call s" "\<And>pg. pbusy (k_state s' pg) = pbusy (k_state s pg)"
    "busy_own Y = busy_own (k_pc s c)" "victim_busy Y = victim_busy (k_pc s c)"
  shows "inv_busy (agoto c Y s')"
proof -
  have "exclusive (\<lambda>pg. pbusy (k_state (agoto c Y s') pg)) (owns_busy (agoto c Y s'))"
    by (rule exclusive_cong[OF conjunct1[OF assms(1)[unfolded inv_busy_def]]])
      (use assms in \<open>auto simp: owns_agoto owns_cong[OF assms(2,3)] owns_busy_def\<close>)
  then show ?thesis
    using assms by (simp add: inv_busy_def)
qed

lemma busy_take:
  assumes "inv_busy s" "k_pc s' = k_pc s" "k_call s' = k_call s" "\<not> pbusy (k_state s pg)"
    "\<And>x. pbusy (k_state s' x) = (pbusy (k_state s x) \<or> x = pg)" "\<not> busy_own (k_pc s c)" "victim_busy (k_pc s c) = None"
    "busy_own Y" "victim_busy Y = None" "own s c = pg"
  shows "inv_busy (agoto c Y s')"
proof -
  have "exclusive (\<lambda>pg. pbusy (k_state (agoto c Y s') pg)) (owns_busy (agoto c Y s'))"
    by (rule exclusive_take[OF conjunct1[OF assms(1)[unfolded inv_busy_def]], where x = pg and c = c])
      (use assms in \<open>auto simp: owns_agoto owns_cong[OF assms(2,3)] owns_busy_def\<close>)
  then show ?thesis
    using assms by (simp add: inv_busy_def)
qed

lemma busy_take_victim:
  assumes "inv_busy s" "k_pc s' = k_pc s" "k_call s' = k_call s" "\<not> pbusy (k_state s pg)"
    "\<And>x. pbusy (k_state s' x) = (pbusy (k_state s x) \<or> x = pg)" "loader (k_pc s c)" "victim_busy (k_pc s c) = None"
    "loader Y" "victim_busy Y = Some pg"
  shows "inv_busy (agoto c Y s')"
proof -
  have ex: "exclusive (\<lambda>pg. pbusy (k_state s pg)) (owns_busy s)"
    using assms(1) by (simp add: inv_busy_def)
  have "owns_busy s c (own s c)"
    using assms(6) by (simp add: owns_busy_def)
  then have "own s c \<noteq> pg"
    using exclusive_locked[OF ex, of "own s c"] assms(4) by blast
  have "exclusive (\<lambda>pg. pbusy (k_state (agoto c Y s') pg)) (owns_busy (agoto c Y s'))"
    by (rule exclusive_take[OF ex, where x = pg and c = c])
      (use assms in \<open>auto simp: owns_agoto owns_cong[OF assms(2,3)] owns_busy_def\<close>)
  then show ?thesis
    using assms \<open>own s c \<noteq> pg\<close> by (auto simp: inv_busy_def)
qed

lemma busy_drop:
  assumes "inv_busy s" "k_pc s' = k_pc s" "k_call s' = k_call s"
    "\<And>x. pbusy (k_state s' x) = (pbusy (k_state s x) \<and> x \<noteq> own s c)" "busy_own (k_pc s c)" "victim_busy (k_pc s c) = None"
    "\<not> busy_own Y" "victim_busy Y = None"
  shows "inv_busy (agoto c Y s')"
proof -
  have ex: "exclusive (\<lambda>pg. pbusy (k_state s pg)) (owns_busy s)"
    using assms(1) by (simp add: inv_busy_def)
  have o: "owns_busy s c (own s c)"
    using assms(5) by (simp add: owns_busy_def)
  have "exclusive (\<lambda>pg. pbusy (k_state (agoto c Y s') pg)) (owns_busy (agoto c Y s'))"
  proof (rule exclusive_drop[OF ex o])
    show "owns_busy (agoto c Y s') x y = (owns_busy s x y \<and> y \<noteq> own s c)" for x y
    proof (cases "x = c")
      case True
      then show ?thesis
        using assms(6-8) by (auto simp: owns_agoto owns_busy_def[of s])
    next
      case False
      then show ?thesis
        using exclusive_unique[OF ex o, of x] by (auto simp: owns_agoto owns_cong[OF assms(2,3)])
    qed
  qed (use assms(4) in simp)
  then show ?thesis
    using assms by (simp add: inv_busy_def)
qed

lemma busy_drop_victim:
  assumes "inv_busy s" "k_pc s' = k_pc s" "k_call s' = k_call s"
    "\<And>x. pbusy (k_state s' x) = (pbusy (k_state s x) \<and> x \<noteq> pg)" "loader (k_pc s c)" "victim_busy (k_pc s c) = Some pg"
    "loader Y" "victim_busy Y = None"
  shows "inv_busy (agoto c Y s')"
proof -
  have ex: "exclusive (\<lambda>pg. pbusy (k_state s pg)) (owns_busy s)" and ne: "own s c \<noteq> pg"
    using assms(1,6) unfolding inv_busy_def by auto
  have o: "owns_busy s c pg"
    using assms(6) by (simp add: owns_busy_def)
  have "exclusive (\<lambda>pg. pbusy (k_state (agoto c Y s') pg)) (owns_busy (agoto c Y s'))"
  proof (rule exclusive_drop[OF ex o])
    show "owns_busy (agoto c Y s') x y = (owns_busy s x y \<and> y \<noteq> pg)" for x y
    proof (cases "x = c")
      case True
      then show ?thesis
        using assms(3,5-8) ne by (auto simp: owns_agoto owns_busy_def[of s])
    next
      case False
      then show ?thesis
        using exclusive_unique[OF ex o, of x] by (auto simp: owns_agoto owns_cong[OF assms(2,3)])
    qed
  qed (use assms(4) in simp)
  then show ?thesis
    using assms by (simp add: inv_busy_def)
qed

subsection \<open>Counting references\<close>

definition ref_sum :: "'d pc_sys \<Rightarrow> (acq_pc \<Rightarrow> bool) \<Rightarrow> page \<Rightarrow> nat" where
  "ref_sum s P pg = (\<Sum>c < k_n s. if P (k_pc s c) \<and> own s c = pg then unat (ac_count (k_call s c)) else 0)"

lemma refs_sum: "refs s pg = ref_sum s (\<lambda>pc. pc \<noteq> A_done \<and> pc \<noteq> A_add) pg"
  and live_sum: "live_refs s pg = ref_sum s (\<lambda>pc. pc \<noteq> A_done) pg"
proof -
  show "refs s pg = ref_sum s (\<lambda>pc. pc \<noteq> A_done \<and> pc \<noteq> A_add) pg"
    unfolding refs_def ref_sum_def sum.inter_filter[OF finite_lessThan, symmetric]
    by (rule sum.cong) auto
  show "live_refs s pg = ref_sum s (\<lambda>pc. pc \<noteq> A_done) pg"
    unfolding live_refs_def ref_sum_def sum.inter_filter[OF finite_lessThan, symmetric]
    by (rule sum.cong) auto
qed

lemma ref_sum_agoto:
  assumes "c < k_n s" "k_pc s' = k_pc s" "k_call s' = k_call s" "k_n s' = k_n s"
  shows "ref_sum (agoto c Y s') P pg + (if P (k_pc s c) \<and> own s c = pg then unat (ac_count (k_call s c)) else 0) =
    ref_sum s P pg + (if P Y \<and> own s c = pg then unat (ac_count (k_call s c)) else 0)"
proof -
  have c: "{..<k_n s} = insert c ({..<k_n s} - {c})" "finite ({..<k_n s} - {c})" "c \<notin> {..<k_n s} - {c}"
    using assms(1) by auto
  have "(\<Sum>x \<in> {..<k_n s} - {c}. if P (k_pc (agoto c Y s') x) \<and> own s x = pg then unat (ac_count (k_call s x)) else 0) =
        (\<Sum>x \<in> {..<k_n s} - {c}. if P (k_pc s x) \<and> own s x = pg then unat (ac_count (k_call s x)) else 0)"
    by (rule sum.cong) (simp_all add: assms(2))
  then show ?thesis
    unfolding ref_sum_def agoto_simps assms(3,4)
    by (subst (1 2) c(1)) (simp add: sum.insert[OF c(2,3)] del: insert_Diff_single)
qed

lemma count_below:
  assumes "inv_count s" "c < k_n s" "k_pc s c = A_add"
  shows "pcount (k_state s (own s c)) + unat (ac_count (k_call s c)) < 2 ^ 29"
proof -
  let ?f = "\<lambda>P x. if P (k_pc s x) \<and> own s x = own s c then unat (ac_count (k_call s x)) else 0"
  have c: "{..<k_n s} = insert c ({..<k_n s} - {c})" "finite ({..<k_n s} - {c})" "c \<notin> {..<k_n s} - {c}"
    using assms(2) by auto
  have "refs s (own s c) + unat (ac_count (k_call s c)) \<le> live_refs s (own s c)"
    unfolding refs_sum live_sum ref_sum_def
    by (subst (1 2) c(1)) (use assms(3) in \<open>simp add: sum.insert[OF c(2,3)] sum_mono del: insert_Diff_single\<close>)
  then show ?thesis
    using assms(1) unfolding inv_count_def by (metis order_le_less_trans)
qed


lemma count_frame:
  assumes "inv_count s" "c < k_n s" "k_pc s' = k_pc s" "k_call s' = k_call s" "k_n s' = k_n s"
    "\<And>pg. pcount (k_state s' pg) = pcount (k_state s pg)"
    "(Y = A_done) = (k_pc s c = A_done)" "(Y = A_add) = (k_pc s c = A_add)"
  shows "inv_count (agoto c Y s')"
proof -
  have eq: "ref_sum (agoto c Y s') P pg = ref_sum s P pg" if "P Y = P (k_pc s c)" for P pg
    using ref_sum_agoto[OF assms(2-5), of Y P pg] that by (simp split: if_splits)
  have "refs (agoto c Y s') pg = refs s pg" "live_refs (agoto c Y s') pg = live_refs s pg" for pg
    using assms(7,8) unfolding refs_sum live_sum by (simp_all add: eq)
  then show ?thesis
    using assms(1,6) by (simp add: inv_count_def)
qed

lemma count_add:
  assumes "inv_count s" "c < k_n s" "k_pc s c = A_add"
  shows "inv_count (agoto c (A_switch w) (set_state (own s c) (k_state s (own s c) + ac_count (k_call s c)) s))"
    (is "inv_count ?s'")
proof -
  note b = add_count[OF count_below[OF assms]]
  have "live_refs ?s' pg = live_refs s pg" for pg
    using ref_sum_agoto[OF assms(2), of "set_state (own s c) (k_state s (own s c) + ac_count (k_call s c)) s" "A_switch w" "\<lambda>pc. pc \<noteq> A_done" pg]
      assms(3) unfolding live_sum by (simp split: if_splits)
  moreover have "refs ?s' pg = refs s pg + (if own s c = pg then unat (ac_count (k_call s c)) else 0)" for pg
    using ref_sum_agoto[OF assms(2), of "set_state (own s c) (k_state s (own s c) + ac_count (k_call s c)) s" "A_switch w" "\<lambda>pc. pc \<noteq> A_done \<and> pc \<noteq> A_add" pg]
      assms(3) unfolding refs_sum by (simp split: if_splits)
  ultimately show ?thesis
    using assms(1) b(4) by (simp add: inv_count_def)
qed

lemma inv_count_trans:
  assumes "acq_trans cfg c s s'" "inv_count s" "c < k_n s"
  shows "inv_count s'"
  using assms(1)
proof cases
  case add
  then show ?thesis
    using count_add[OF assms(2,3)] by simp
qed (auto simp: assms(2) count_frame[OF assms(2,3)])

lemma inv_busy_trans:
  assumes "acq_trans cfg c s s'" "inv_busy s" "inv_count s" "c < k_n s"
  shows "inv_busy s'"
  using assms(1)
proof cases
  case add
  then show ?thesis
    using add_count(2)[OF count_below[OF assms(3,4)]] by (simp add: busy_frame[OF assms(2)])
next
  case (miss w)
  then show ?thesis
    by (simp add: busy_take[OF assms(2)])
next
  case (race w)
  then show ?thesis
    by (simp add: busy_take[OF assms(2)])
next
  case unbusy
  then show ?thesis
    by (simp add: busy_drop[OF assms(2)])
next
  case (referenced p pg)
  then show ?thesis
    by (simp add: busy_take_victim[OF assms(2), where pg = pg])
next
  case (clean p pg)
  then show ?thesis
    by (simp add: busy_take_victim[OF assms(2), where pg = pg])
next
  case (writeback p pg)
  then show ?thesis
    by (simp add: busy_take_victim[OF assms(2), where pg = pg])
next
  case (evict p pg)
  then show ?thesis
    by (simp add: busy_drop_victim[OF assms(2), where pg = pg])
next
  case (give_up p pg)
  then show ?thesis
    by (simp add: busy_drop_victim[OF assms(2), where pg = pg])
next
  case (valid p)
  then have "owns_busy s c (own s c)"
    by (simp add: owns_busy_def)
  then have "pbusy (k_state s (own s c))"
    using assms(2) exclusive_locked[of "\<lambda>pg. pbusy (k_state s pg)" "owns_busy s" "own s c"] unfolding inv_busy_def by blast
  with valid show ?thesis
    by (simp add: busy_drop[OF assms(2)])
qed (auto simp: assms(2) busy_frame[OF assms(2)])

subsection \<open>Slots and their pages\<close>

definition addr_ok :: "page_cache_d_t \<Rightarrow> bool" where
  "addr_ok cfg \<longleftrightarrow> (\<forall>pg. wf_page cfg pg \<longrightarrow> address_page cfg (ga cfg pg) = pg)"

lemma ga_inj: "addr_ok cfg \<Longrightarrow> wf_page cfg pg \<Longrightarrow> wf_page cfg pg' \<Longrightarrow> ga cfg pg = ga cfg pg' \<Longrightarrow> pg = pg'"
  unfolding addr_ok_def by metis

lemma inv_slotD:
  assumes "inv_slot cfg s"
  shows "k_occ s pg = Some p \<Longrightarrow> k_lock s p \<noteq> FREE \<and> k_trans s p = ga cfg pg \<and> wf_page cfg pg"
    "fresh_slot (k_pc s c) p \<Longrightarrow> k_occ s pg \<noteq> Some p"
    "k_lock s p = UNLOCKED \<Longrightarrow> \<exists>pg. k_occ s pg = Some p"
    "used_slot (k_pc s c) p \<Longrightarrow> \<exists>pg. k_occ s pg = Some p"
    "slot_victim (k_pc s c) = Some (p, pg) \<Longrightarrow> k_occ s pg = Some p"
  using assms unfolding inv_slot_def by blast+

lemma occ_unique:
  assumes "inv_slot cfg s" "addr_ok cfg" "k_occ s pg = Some p" "k_occ s pg' = Some p"
  shows "pg = pg'"
  using inv_slotD(1)[OF assms(1,3)] inv_slotD(1)[OF assms(1,4)] ga_inj[OF assms(2)] by metis

lemma slot_frame:
  assumes "inv_slot cfg s" "k_pc s' = k_pc s" "k_trans s' = k_trans s" "k_occ s' = k_occ s"
    "\<And>p. k_lock s' p = FREE \<Longrightarrow> k_lock s p = FREE" "\<And>p. k_lock s' p = UNLOCKED \<Longrightarrow> k_lock s p \<noteq> UNLOCKED \<Longrightarrow> \<exists>pg. k_occ s pg = Some p"
    "\<And>p pg. fresh_slot Y p \<Longrightarrow> k_occ s pg \<noteq> Some p" "\<And>p. used_slot Y p \<Longrightarrow> \<exists>pg. k_occ s pg = Some p"
    "\<And>p pg. slot_victim Y = Some (p, pg) \<Longrightarrow> k_occ s pg = Some p"
  shows "inv_slot cfg (agoto c Y s')"
  unfolding inv_slot_def agoto_simps assms(2-4)
proof (intro conjI allI impI)
  fix x p
  show "\<exists>pg. k_occ s pg = Some p" if "k_lock s' p = UNLOCKED"
    using assms(6) that inv_slotD(3)[OF assms(1)] by blast
  show "\<exists>pg. k_occ s pg = Some p" if "used_slot (((k_pc s)(c := Y)) x) p"
    using assms(8) that inv_slotD(4)[OF assms(1)] by (cases "x = c") auto
  fix pg
  show "k_lock s' p \<noteq> FREE" "k_trans s p = ga cfg pg" "wf_page cfg pg" if "k_occ s pg = Some p"
    using assms(5) that inv_slotD(1)[OF assms(1)] by blast+
  show "k_occ s pg \<noteq> Some p" if "fresh_slot (((k_pc s)(c := Y)) x) p"
    using assms(7) that inv_slotD(2)[OF assms(1)] by (cases "x = c") auto
  show "k_occ s pg = Some p" if "slot_victim (((k_pc s)(c := Y)) x) = Some (p, pg)"
    using assms(9) that inv_slotD(5)[OF assms(1)] by (cases "x = c") auto
qed

lemma inv_lockD:
  assumes "inv_lock s"
  shows "slot_held (k_pc s c) = Some p \<Longrightarrow> k_lock s p = LOCKED"
    "slot_held (k_pc s c) = Some p \<Longrightarrow> slot_held (k_pc s c') = Some p \<Longrightarrow> c = c'"
  using assms unfolding inv_lock_def exclusive_def by blast+

lemma inv_occD:
  assumes "inv_occ s"
  shows "pvalid (k_state s pg) \<Longrightarrow> k_occ s pg = Some (k_offset s pg)"
    "loader (k_pc s c) \<Longrightarrow> \<not> pvalid (k_state s (own s c)) \<and> k_occ s (own s c) = slot_got (k_pc s c)"
    "k_occ s pg = Some p \<Longrightarrow> pvalid (k_state s pg) \<or> (\<exists>c. loader (k_pc s c) \<and> own s c = pg)"
    "k_pc s c = L_dirty p \<or> k_pc s c = L_valid p \<Longrightarrow> k_offset s (own s c) = p"
  using assms unfolding inv_occ_def by blast+

lemma class_held:
  shows "fresh_slot pc p \<Longrightarrow> slot_held pc = Some p" "used_slot pc p \<Longrightarrow> slot_held pc = Some p"
    "slot_victim pc = Some (p, pg) \<Longrightarrow> slot_held pc = Some p"
proof -
  show "slot_held pc = Some p" if "fresh_slot pc p"
    using that by (cases pc) auto
  show "slot_held pc = Some p" if "used_slot pc p"
    using that by (cases pc) auto
  show "slot_held pc = Some p" if "slot_victim pc = Some (p, pg)"
    using that by (cases pc) auto
qed

lemma slot_assign:
  assumes "inv_slot cfg s" "inv_lock s" "inv_occ s" "wf_page cfg (own s c)" "k_pc s c = F_claim p \<or> k_pc s c = F_trans p"
    and s': "k_pc s' = k_pc s" "k_trans s' = (k_trans s)(p := ga cfg (own s c))" "k_occ s' = (k_occ s)(own s c \<mapsto> p)" "k_lock s' = k_lock s"
  shows "inv_slot cfg (agoto c (F_unlock p True) s')"
proof -
  have fresh: "fresh_slot (k_pc s c) p" and ld: "loader (k_pc s c)" "slot_got (k_pc s c) = None"
    using assms(5) by (auto)
  have none: "k_occ s (own s c) = None"
    using inv_occD(2)[OF assms(3) ld(1)] ld(2) by simp
  have lk: "k_lock s p = LOCKED"
    using inv_lockD(1)[OF assms(2) class_held(1)[OF fresh]] .
  have other: "q \<noteq> p" if "slot_held (k_pc s x) = Some q" "x \<noteq> c" for x q
    using inv_lockD(2)[OF assms(2) class_held(1)[OF fresh], of x] that by blast
  have keep: "k_occ s' pg = Some q" if "k_occ s pg = Some q" for pg q
    using that none by (auto simp: s')
  have new: "k_occ s' pg = Some q \<Longrightarrow> k_occ s pg = Some q \<or> pg = own s c \<and> q = p" for pg q
    by (auto simp: s' split: if_splits)
  show ?thesis
    unfolding inv_slot_def agoto_simps s'(1,2,4)
  proof (intro conjI allI impI)
    fix x q
    show "\<exists>pg. k_occ s' pg = Some q" if "k_lock s q = UNLOCKED"
      using keep inv_slotD(3)[OF assms(1) that] by blast
    show "\<exists>pg. k_occ s' pg = Some q" if "used_slot (((k_pc s)(c := F_unlock p True)) x) q"
      using that keep inv_slotD(4)[OF assms(1), of x q] by (cases "x = c") (auto)
    fix pg
    show "k_lock s q \<noteq> FREE" "((k_trans s)(p := ga cfg (own s c))) q = ga cfg pg" "wf_page cfg pg" if "k_occ s' pg = Some q"
      using new[OF that] inv_slotD(1)[OF assms(1), of pg q] inv_slotD(2)[OF assms(1) fresh] lk assms(4) by auto
    show "k_occ s' pg \<noteq> Some q" if "fresh_slot (((k_pc s)(c := F_unlock p True)) x) q"
      using that new[of pg q] inv_slotD(2)[OF assms(1), of x q pg] other[OF class_held(1), of x q]
      by (cases "x = c") (auto)
    show "k_occ s' pg = Some q" if "slot_victim (((k_pc s)(c := F_unlock p True)) x) = Some (q, pg)"
      using that keep inv_slotD(5)[OF assms(1), of x q pg] by (cases "x = c") auto
  qed
qed

lemma slot_evict:
  assumes "inv_slot cfg s" "inv_lock s" "addr_ok cfg" "k_pc s c = F_evict p pg"
    and s': "k_pc s' = k_pc s" "k_trans s' = k_trans s" "k_occ s' = (k_occ s)(pg := None)" "k_lock s' = k_lock s"
  shows "inv_slot cfg (agoto c (F_trans p) s')"
proof -
  have vic: "slot_victim (k_pc s c) = Some (p, pg)" and held: "slot_held (k_pc s c) = Some p"
    using assms(4) by simp_all
  have occ: "k_occ s pg = Some p"
    using inv_slotD(5)[OF assms(1) vic] .
  have lk: "k_lock s p = LOCKED"
    using inv_lockD(1)[OF assms(2) held] .
  have other: "q \<noteq> p" if "slot_held (k_pc s x) = Some q" "x \<noteq> c" for x q
    using inv_lockD(2)[OF assms(2) held, of x] that by blast
  have keep: "k_occ s' pg' = Some q" if "k_occ s pg' = Some q" "q \<noteq> p" for pg' q
    using that occ by (auto simp: s')
  have old: "k_occ s' pg' = Some q \<Longrightarrow> k_occ s pg' = Some q \<and> q \<noteq> p" for pg' q
    using occ_unique[OF assms(1,3) occ, of pg'] by (auto simp: s' split: if_splits)
  show ?thesis
    unfolding inv_slot_def agoto_simps s'(1,2,4)
  proof (intro conjI allI impI)
    fix x q
    show "\<exists>pg. k_occ s' pg = Some q" if "k_lock s q = UNLOCKED"
      using keep[of _ q] inv_slotD(3)[OF assms(1) that] that lk by fastforce
    show "\<exists>pg. k_occ s' pg = Some q" if "used_slot (((k_pc s)(c := F_trans p)) x) q"
      using that keep[of _ q] inv_slotD(4)[OF assms(1), of x q] other[OF class_held(2), of x q] by (cases "x = c") (auto)
    fix pg'
    show "k_lock s q \<noteq> FREE" "k_trans s q = ga cfg pg'" "wf_page cfg pg'" if "k_occ s' pg' = Some q"
      using old[OF that] inv_slotD(1)[OF assms(1), of pg' q] by auto
    show "k_occ s' pg' \<noteq> Some q" if "fresh_slot (((k_pc s)(c := F_trans p)) x) q"
      using that old[of pg' q] inv_slotD(2)[OF assms(1), of x q pg'] by (cases "x = c") (auto)
    show "k_occ s' pg' = Some q" if "slot_victim (((k_pc s)(c := F_trans p)) x) = Some (q, pg')"
      using that keep[of pg' q] inv_slotD(5)[OF assms(1), of x q pg'] other[OF class_held(3), of x q pg'] by (cases "x = c") auto
  qed
qed

lemma inv_slot_trans:
  assumes "acq_trans cfg c s s'" "inv_slot cfg s" "inv_lock s" "inv_occ s" "addr_ok cfg" "wf_page cfg (own s c)"
  shows "inv_slot cfg s'"
  using assms(1)
proof cases
  case (take_free p)
  have "k_occ s pg \<noteq> Some p" for pg
    using inv_slotD(1)[OF assms(2), of pg p] take_free by blast
  with take_free show ?thesis
    by (auto intro!: slot_frame[OF assms(2)] split: if_splits)
next
  case (take_used p)
  then show ?thesis
    using inv_slotD(3)[OF assms(2), of p] by (auto intro!: slot_frame[OF assms(2)] split: if_splits)
next
  case (assign p)
  then show ?thesis
    by (simp add: slot_assign[OF assms(2-4,6)])
next
  case (candidate p)
  then obtain pg where pg: "k_occ s pg = Some p"
    using inv_slotD(4)[OF assms(2), of c p] by (auto)
  then have "address_page cfg (k_trans s p) = pg"
    using inv_slotD(1)[OF assms(2) pg] assms(5) unfolding addr_ok_def by simp
  with candidate pg show ?thesis
    by (auto intro!: slot_frame[OF assms(2)])
next
  case (evict p pg)
  then show ?thesis
    by (simp add: slot_evict[OF assms(2,3,5)])
next
  case (unlock p found)
  have "\<exists>pg. k_occ s pg = Some p"
  proof (cases found)
    case True
    then show ?thesis
      using inv_occD(2)[OF assms(4), of c] unlock by auto
  next
    case False
    then show ?thesis
      using inv_slotD(4)[OF assms(2), of c p] unlock by (simp add:)
  qed
  with unlock show ?thesis
    by (auto intro!: slot_frame[OF assms(2)] split: if_splits)
next
  case (in_use p)
  then show ?thesis
    using inv_slotD(4)[OF assms(2), of c p] by (auto intro!: slot_frame[OF assms(2)])
qed (use inv_slotD(5)[OF assms(2), of c] in \<open>auto intro!: assms(2) slot_frame[OF assms(2)]\<close>)

subsection \<open>Valid pages and loading calls\<close>

lemma inv_busyD:
  assumes "inv_busy s"
  shows "owns_busy s c pg \<Longrightarrow> pbusy (k_state s pg)" "owns_busy s c pg \<Longrightarrow> owns_busy s c' pg \<Longrightarrow> c = c'"
    "victim_busy (k_pc s c) \<noteq> Some (own s c)"
  using assms unfolding inv_busy_def exclusive_def by blast+

lemma loader_owns: "loader (k_pc s c) \<Longrightarrow> owns_busy s c (own s c)"
  by (simp add: owns_busy_def)

lemma loader_unique:
  assumes "inv_busy s" "loader (k_pc s c)" "owns_busy s c' (own s c)"
  shows "c' = c"
  using inv_busyD(2)[OF assms(1) loader_owns[OF assms(2)] assms(3)] by simp

lemma occ_frame:
  assumes "inv_occ s" "k_pc s' = k_pc s" "k_call s' = k_call s" "k_occ s' = k_occ s" "k_offset s' = k_offset s"
    "\<And>pg. pvalid (k_state s' pg) = pvalid (k_state s pg)" "loader Y = loader (k_pc s c)" "slot_got Y = slot_got (k_pc s c)"
    "\<And>p. Y = L_dirty p \<or> Y = L_valid p \<Longrightarrow> k_offset s (own s c) = p"
  shows "inv_occ (agoto c Y s')"
  unfolding inv_occ_def agoto_simps assms(2-6)
proof (intro conjI allI impI)
  fix x p
  show "\<not> pvalid (k_state s (own s x))" "k_occ s (own s x) = slot_got (((k_pc s)(c := Y)) x)" if "loader (((k_pc s)(c := Y)) x)"
    using that inv_occD(2)[OF assms(1), of x] assms(7,8) by (auto split: if_splits)
  show "k_offset s (own s x) = p" if "((k_pc s)(c := Y)) x = L_dirty p \<or> ((k_pc s)(c := Y)) x = L_valid p"
    using that inv_occD(4)[OF assms(1), of x p] assms(9)[of p] by (auto split: if_splits)
  fix pg
  show "k_occ s pg = Some (k_offset s pg)" if "pvalid (k_state s pg)"
    using that by (rule inv_occD(1)[OF assms(1)])
  show "pvalid (k_state s pg) \<or> (\<exists>x. loader (((k_pc s)(c := Y)) x) \<and> own s x = pg)" if "k_occ s pg \<noteq> None"
  proof -
    from that obtain q where q: "k_occ s pg = Some q"
      by blast
    have "loader (((k_pc s)(c := Y)) x) = loader (k_pc s x)" for x
      using assms(7) by simp
    then show ?thesis
      using inv_occD(3)[OF assms(1) q] by simp
  qed
qed

lemma occ_miss:
  assumes "inv_occ s" "inv_busy s" "\<not> loader (k_pc s c)" "\<not> pvalid (own_state s c)" "\<not> pbusy (own_state s c)"
    and s': "k_pc s' = k_pc s" "k_call s' = k_call s" "k_occ s' = k_occ s" "k_offset s' = k_offset s"
    "\<And>pg. pvalid (k_state s' pg) = pvalid (k_state s pg)"
  shows "inv_occ (agoto c F_ticket s')"
  unfolding inv_occ_def agoto_simps s'
proof (intro conjI allI impI)
  have none: "k_occ s (own s c) = None"
  proof (rule ccontr)
    assume "k_occ s (own s c) \<noteq> None"
    then obtain x where "loader (k_pc s x)" "own s x = own s c"
      using inv_occD(3)[OF assms(1), of "own s c"] assms(4) by blast
    then show False
      using inv_busyD(1)[OF assms(2) loader_owns[of s x]] assms(5) by simp
  qed
  fix x p
  show "\<not> pvalid (k_state s (own s x))" "k_occ s (own s x) = slot_got (((k_pc s)(c := F_ticket)) x)"
    if "loader (((k_pc s)(c := F_ticket)) x)"
    using that inv_occD(2)[OF assms(1), of x] assms(4) none by (auto split: if_splits)
  show "k_offset s (own s x) = p" if "((k_pc s)(c := F_ticket)) x = L_dirty p \<or> ((k_pc s)(c := F_ticket)) x = L_valid p"
    using that inv_occD(4)[OF assms(1), of x p] by (auto split: if_splits)
  fix pg
  show "k_occ s pg = Some (k_offset s pg)" if "pvalid (k_state s pg)"
    using that by (rule inv_occD(1)[OF assms(1)])
  show "pvalid (k_state s pg) \<or> (\<exists>x. loader (((k_pc s)(c := F_ticket)) x) \<and> own s x = pg)" if "k_occ s pg \<noteq> None"
  proof -
    from that obtain q where q: "k_occ s pg = Some q"
      by blast
    have "loader (k_pc s x) \<Longrightarrow> loader (((k_pc s)(c := F_ticket)) x)" for x
      by simp
    then show ?thesis
      using inv_occD(3)[OF assms(1) q] by blast
  qed
qed

lemma occ_assign:
  assumes "inv_occ s" "inv_busy s" "loader (k_pc s c)"
    and s': "k_pc s' = k_pc s" "k_call s' = k_call s" "k_occ s' = (k_occ s)(own s c \<mapsto> p)" "k_offset s' = k_offset s" "k_state s' = k_state s"
  shows "inv_occ (agoto c (F_unlock p True) s')"
  unfolding inv_occ_def agoto_simps s'
proof (intro conjI allI impI)
  fix x q
  show "\<not> pvalid (k_state s (own s x))" "((k_occ s)(own s c \<mapsto> p)) (own s x) = slot_got (((k_pc s)(c := F_unlock p True)) x)"
    if "loader (((k_pc s)(c := F_unlock p True)) x)"
    using that inv_occD(2)[OF assms(1), of x] inv_occD(2)[OF assms(1,3)] loader_unique[OF assms(2,3), of x] loader_owns[of s x]
    by (auto split: if_splits)
  show "k_offset s (own s x) = q" if "((k_pc s)(c := F_unlock p True)) x = L_dirty q \<or> ((k_pc s)(c := F_unlock p True)) x = L_valid q"
    using that inv_occD(4)[OF assms(1), of x q] by (auto split: if_splits)
  fix pg
  show "((k_occ s)(own s c \<mapsto> p)) pg = Some (k_offset s pg)" if "pvalid (k_state s pg)"
    using that inv_occD(1)[OF assms(1), of pg] inv_occD(2)[OF assms(1,3)] by auto
  show "pvalid (k_state s pg) \<or> (\<exists>x. loader (((k_pc s)(c := F_unlock p True)) x) \<and> own s x = pg)" if "((k_occ s)(own s c \<mapsto> p)) pg \<noteq> None"
  proof (cases "pg = own s c")
    case False
    with that obtain q where q: "k_occ s pg = Some q"
      by auto
    have "loader (k_pc s x) \<Longrightarrow> loader (((k_pc s)(c := F_unlock p True)) x)" for x
      by simp
    then show ?thesis
      using inv_occD(3)[OF assms(1) q] by blast
  qed (intro disjI2 exI[of _ c], simp)
qed


lemma occ_evict:
  assumes "inv_occ s" "inv_busy s" "k_pc s c = F_evict p pg"
    and s': "k_pc s' = k_pc s" "k_call s' = k_call s" "k_occ s' = (k_occ s)(pg := None)" "k_offset s' = k_offset s"
    "\<And>x. pvalid (k_state s' x) = (x \<noteq> pg \<and> pvalid (k_state s x))"
  shows "inv_occ (agoto c (F_trans p) s')"
  unfolding inv_occ_def agoto_simps s'
proof (intro conjI allI impI)
  have o: "owns_busy s c pg"
    using assms(3) by (simp add: owns_busy_def)
  have ne: "own s x \<noteq> pg" if "loader (k_pc s x)" for x
    using inv_busyD(2)[OF assms(2) o, of x] loader_owns[OF that] inv_busyD(3)[OF assms(2), of c] assms(3) by auto
  fix x q
  show "\<not> (own s x \<noteq> pg \<and> pvalid (k_state s (own s x)))" "((k_occ s)(pg := None)) (own s x) = slot_got (((k_pc s)(c := F_trans p)) x)"
    if "loader (((k_pc s)(c := F_trans p)) x)"
    using that inv_occD(2)[OF assms(1), of x] ne[of x] assms(3) by (auto split: if_splits)
  show "k_offset s (own s x) = q" if "((k_pc s)(c := F_trans p)) x = L_dirty q \<or> ((k_pc s)(c := F_trans p)) x = L_valid q"
    using that inv_occD(4)[OF assms(1), of x q] by (auto split: if_splits)
  fix pg'
  show "((k_occ s)(pg := None)) pg' = Some (k_offset s pg')" if "pg' \<noteq> pg \<and> pvalid (k_state s pg')"
    using that inv_occD(1)[OF assms(1), of pg'] by auto
  show "pg' \<noteq> pg \<and> pvalid (k_state s pg') \<or> (\<exists>x. loader (((k_pc s)(c := F_trans p)) x) \<and> own s x = pg')" if "((k_occ s)(pg := None)) pg' \<noteq> None"
  proof -
    from that obtain q where q: "pg' \<noteq> pg" "k_occ s pg' = Some q"
      by (auto split: if_splits)
    have "loader (k_pc s x) \<Longrightarrow> loader (((k_pc s)(c := F_trans p)) x)" for x
      by simp
    then show ?thesis
      using inv_occD(3)[OF assms(1) q(2)] q(1) by blast
  qed
qed

lemma occ_offset:
  assumes "inv_occ s" "inv_busy s" "k_pc s c = L_offset p" "Y = L_dirty p \<or> Y = L_valid p"
    and s': "k_pc s' = k_pc s" "k_call s' = k_call s" "k_occ s' = k_occ s" "k_offset s' = (k_offset s)(own s c := p)" "k_state s' = k_state s"
  shows "inv_occ (agoto c Y s')"
  unfolding inv_occ_def agoto_simps s'
proof (intro conjI allI impI)
  have ld: "loader (k_pc s c)" "slot_got (k_pc s c) = Some p" "loader Y" "slot_got Y = Some p"
    using assms(3,4) by auto
  fix x q
  show "\<not> pvalid (k_state s (own s x))" "k_occ s (own s x) = slot_got (((k_pc s)(c := Y)) x)" if "loader (((k_pc s)(c := Y)) x)"
    using that inv_occD(2)[OF assms(1), of x] ld by (auto split: if_splits)
  show "((k_offset s)(own s c := p)) (own s x) = q" if "((k_pc s)(c := Y)) x = L_dirty q \<or> ((k_pc s)(c := Y)) x = L_valid q"
  proof (cases "x = c")
    case False
    then have "loader (k_pc s x)" "k_offset s (own s x) = q"
      using that inv_occD(4)[OF assms(1), of x q] by auto
    then show ?thesis
      using loader_unique[OF assms(2) ld(1), of x] loader_owns[of s x] False by auto
  qed (use that assms(4) in auto)
  fix pg
  show "k_occ s pg = Some (((k_offset s)(own s c := p)) pg)" if "pvalid (k_state s pg)"
    using that inv_occD(1)[OF assms(1), of pg] inv_occD(2)[OF assms(1) ld(1)] by auto
  show "pvalid (k_state s pg) \<or> (\<exists>x. loader (((k_pc s)(c := Y)) x) \<and> own s x = pg)" if "k_occ s pg \<noteq> None"
  proof -
    from that obtain q where q: "k_occ s pg = Some q"
      by blast
    have "loader (k_pc s x) \<Longrightarrow> loader (((k_pc s)(c := Y)) x)" for x
      using ld by simp
    then show ?thesis
      using inv_occD(3)[OF assms(1) q] by blast
  qed
qed

lemma occ_valid:
  assumes "inv_occ s" "inv_busy s" "k_pc s c = L_valid p"
    and s': "k_pc s' = k_pc s" "k_call s' = k_call s" "k_occ s' = k_occ s" "k_offset s' = k_offset s"
    "\<And>x. pvalid (k_state s' x) = (x = own s c \<or> pvalid (k_state s x))"
  shows "inv_occ (agoto c (A_ret p) s')"
  unfolding inv_occ_def agoto_simps s'
proof (intro conjI allI impI)
  have ld: "loader (k_pc s c)" "slot_got (k_pc s c) = Some p"
    using assms(3) by auto
  fix x q
  have ne: "own s x \<noteq> own s c" if "loader (((k_pc s)(c := A_ret p)) x)"
    using that loader_unique[OF assms(2) ld(1), of x] loader_owns[of s x] by (auto split: if_splits)
  show "\<not> (own s x = own s c \<or> pvalid (k_state s (own s x)))" "k_occ s (own s x) = slot_got (((k_pc s)(c := A_ret p)) x)"
    if "loader (((k_pc s)(c := A_ret p)) x)"
    using that inv_occD(2)[OF assms(1), of x] ne by (auto split: if_splits)
  show "k_offset s (own s x) = q" if "((k_pc s)(c := A_ret p)) x = L_dirty q \<or> ((k_pc s)(c := A_ret p)) x = L_valid q"
    using that inv_occD(4)[OF assms(1), of x q] by (auto split: if_splits)
  fix pg
  show "k_occ s pg = Some (k_offset s pg)" if "pg = own s c \<or> pvalid (k_state s pg)"
    using that inv_occD(1)[OF assms(1), of pg] inv_occD(2)[OF assms(1) ld(1)] inv_occD(4)[OF assms(1), of c p] assms(3) by auto
  show "(pg = own s c \<or> pvalid (k_state s pg)) \<or> (\<exists>x. loader (((k_pc s)(c := A_ret p)) x) \<and> own s x = pg)" if "k_occ s pg \<noteq> None"
  proof -
    from that obtain q where q: "k_occ s pg = Some q"
      by blast
    have "loader (k_pc s x) \<Longrightarrow> own s x \<noteq> own s c \<Longrightarrow> loader (((k_pc s)(c := A_ret p)) x)" for x
      by auto
    then show ?thesis
      using inv_occD(3)[OF assms(1) q] by blast
  qed
qed

lemma inv_occ_trans:
  assumes "acq_trans cfg c s s'" "inv_occ s" "inv_busy s" "inv_count s" "c < k_n s"
  shows "inv_occ s'"
  using assms(1)
proof cases
  case add
  then show ?thesis
    using add_count(1)[OF count_below[OF assms(4,5)]] by (auto intro!: occ_frame[OF assms(2)] split: if_splits)
next
  case (miss w)
  then show ?thesis
    by (simp add: occ_miss[OF assms(2,3)])
next
  case (assign p)
  then show ?thesis
    by (auto simp: occ_assign[OF assms(2,3)])
next
  case (evict p pg)
  then show ?thesis
    by (auto simp: occ_evict[OF assms(2,3)])
next
  case (offset p Y)
  then show ?thesis
    by (auto simp: occ_offset[OF assms(2,3)])
next
  case (dirty_new p)
  then show ?thesis
    using inv_occD(4)[OF assms(2), of c p] by (auto intro!: occ_frame[OF assms(2)] split: if_splits)
next
  case (valid p)
  then show ?thesis
    using inv_occD(2)[OF assms(2), of c] by (auto simp: occ_valid[OF assms(2,3)])
qed (auto intro!: assms(2) occ_frame[OF assms(2)] split: if_splits)

subsection \<open>Referenced pages\<close>

lemma inv_holdD:
  assumes "inv_hold s"
  shows "holds (k_pc s c) \<Longrightarrow> pvalid (k_state s (own s c)) \<and> \<not> evicts (k_pc s c') (own s c)"
    "k_pc s c = A_ret p \<Longrightarrow> k_offset s (own s c) = p"
    "wants_dirty (ac_write (k_call s c)) (k_pc s c) \<Longrightarrow> pdirty (k_state s (own s c))"
  using assms unfolding inv_hold_def by blast+

lemma inv_hold_page:
  assumes "inv_hold s"
  shows "holds (k_pc s c) \<Longrightarrow> own s c = pg \<Longrightarrow> pvalid (k_state s pg) \<and> \<not> evicts (k_pc s c') pg"
    "wants_dirty (ac_write (k_call s c)) (k_pc s c) \<Longrightarrow> own s c = pg \<Longrightarrow> pdirty (k_state s pg)"
  using inv_holdD(1,3)[OF assms, of c] by blast+

lemma evicts_busy: "evicts pc pg \<Longrightarrow> victim_busy pc = Some pg"
  by (cases pc) auto

lemma evicts_owns: "evicts (k_pc s c) pg \<Longrightarrow> owns_busy s c pg"
  using evicts_busy[of "k_pc s c" pg] by (simp add: owns_busy_def)

lemma hold_frame:
  assumes "inv_hold s" "k_pc s' = k_pc s" "k_call s' = k_call s" "\<And>x. holds (k_pc s x) \<Longrightarrow> k_offset s' (own s x) = k_offset s (own s x)"
    "\<And>x. holds (k_pc s x) \<Longrightarrow> pvalid (k_state s' (own s x))" "\<And>x. x \<noteq> c \<Longrightarrow> wants_dirty (ac_write (k_call s x)) (k_pc s x) \<Longrightarrow> pdirty (k_state s' (own s x))"
    "\<And>x pg. evicts Y pg \<Longrightarrow> holds (k_pc s x) \<Longrightarrow> own s x \<noteq> pg" "holds Y \<Longrightarrow> pvalid (k_state s' (own s c)) \<and> (\<forall>x. x \<noteq> c \<longrightarrow> \<not> evicts (k_pc s x) (own s c))"
    "\<And>p. Y = A_ret p \<Longrightarrow> k_offset s' (own s c) = p" "wants_dirty (ac_write (k_call s c)) Y \<Longrightarrow> pdirty (k_state s' (own s c))"
  shows "inv_hold (agoto c Y s')"
  unfolding inv_hold_def agoto_simps assms(2,3)
proof (intro conjI allI impI)
  fix x y p
  show "pvalid (k_state s' (own s x))" if "holds (((k_pc s)(c := Y)) x)"
    using that assms(5)[of x] assms(8) by (auto split: if_splits)
  show "\<not> evicts (((k_pc s)(c := Y)) y) (own s x)" if h: "holds (((k_pc s)(c := Y)) x)"
  proof (cases "x = c")
    case True
    then have "\<not> evicts Y (own s x)"
      using h by (cases Y) (auto)
    then show ?thesis
      using h True assms(8) by (cases "y = c") auto
  next
    case False
    then show ?thesis
      using h assms(7)[of "own s x" x] inv_holdD(1)[OF assms(1), of x y] by (cases "y = c") auto
  qed
  show "k_offset s' (own s x) = p" if "((k_pc s)(c := Y)) x = A_ret p"
    using that assms(9)[of p] assms(4)[of x] inv_holdD(2)[OF assms(1), of x p] by (auto split: if_splits)
  show "pdirty (k_state s' (own s x))" if "wants_dirty (ac_write (k_call s x)) (((k_pc s)(c := Y)) x)"
    using that assms(6)[of x] assms(10) by (auto split: if_splits)
qed

lemma holds_counted: "holds pc \<Longrightarrow> pc \<noteq> A_done \<and> pc \<noteq> A_add"
  by (cases pc) auto

lemma unreferenced:
  assumes "inv_count s" "inv_calls cfg s" "pcount (k_state s pg) = 0" "holds (k_pc s x)"
  shows "own s x \<noteq> pg"
proof
  assume pg: "own s x = pg"
  have "x < k_n s"
    using assms(2) holds_counted[OF assms(4)] unfolding inv_calls_def by (meson not_le)
  then have "0 < unat (ac_count (k_call s x))"
    using assms(2) unfolding inv_calls_def by (simp add: word_less_nat_alt)
  moreover have "unat (ac_count (k_call s x)) \<le> refs s pg"
    unfolding refs_def using \<open>x < k_n s\<close> holds_counted[OF assms(4)] pg by (intro member_le_sum) auto
  ultimately show False
    using assms(1,3) unfolding inv_count_def by simp
qed

lemma inv_hold_trans:
  assumes "acq_trans cfg c s s'" "inv_hold s" "inv_occ s" "inv_busy s" "inv_count s" "inv_calls cfg s" "c < k_n s"
  shows "inv_hold s'"
  using assms(1)
proof cases
  case add
  have "\<not> evicts (k_pc s x) (own s c)" if "\<not> pbusy (own_state s c)" for x
    using that evicts_owns inv_busyD(1)[OF assms(4)] by blast
  then show ?thesis
    using add add_count[OF count_below[OF assms(5,7)]] inv_hold_page[OF assms(2)]
    by (auto intro!: hold_frame[OF assms(2)])
next
  case reload
  have "\<not> evicts (k_pc s x) (own s c)" if "\<not> pbusy (own_state s c)" for x
    using that evicts_owns inv_busyD(1)[OF assms(4)] by blast
  then show ?thesis
    using reload inv_hold_page[OF assms(2)]
    by (auto intro!: hold_frame[OF assms(2)])
next
  case (clean p pg)
  show ?thesis
    unfolding clean(1)
  proof (rule hold_frame[OF assms(2)])
    show "own s x \<noteq> pg'" if "evicts (F_evict p pg) pg'" "holds (k_pc s x)" for x pg'
      using that unreferenced[OF assms(5,6) clean(4) that(2)] by simp
  qed (use clean inv_hold_page[OF assms(2)] in auto)
next
  case (writeback p pg)
  show ?thesis
    unfolding writeback(1)
  proof (rule hold_frame[OF assms(2)])
    show "own s x \<noteq> pg'" if "evicts (F_wb p pg (evict_ctrls cfg pg)) pg'" "holds (k_pc s x)" for x pg'
      using that unreferenced[OF assms(5,6) writeback(4) that(2)] by simp
  qed (use writeback inv_hold_page[OF assms(2)] in auto)
next
  case (evict p pg)
  then have "own s x \<noteq> pg" if "holds (k_pc s x)" for x
    using inv_holdD(1)[OF assms(2) that, of c] by (auto)
  moreover have "own s x \<noteq> pg" if "wants_dirty (ac_write (k_call s x)) (k_pc s x)" for x
  proof (cases "holds (k_pc s x)")
    case False
    then have "loader (k_pc s x)"
      using that by (cases "k_pc s x") auto
    then have "x = c" if "own s x = pg"
      using that evict loader_unique[OF assms(4), of x c] by (simp add: owns_busy_def)
    then show ?thesis
      using inv_busyD(3)[OF assms(4), of c] evict by auto
  qed (use \<open>\<And>x. holds (k_pc s x) \<Longrightarrow> own s x \<noteq> pg\<close> in blast)
  ultimately show ?thesis
    using evict inv_hold_page[OF assms(2)]
    by (auto intro!: hold_frame[OF assms(2)])
next
  case (offset p Y)
  have "own s x \<noteq> own s c" if "holds (k_pc s x)" for x
    using inv_holdD(1)[OF assms(2) that] inv_occD(2)[OF assms(3), of c] offset by auto
  then show ?thesis
    using offset inv_hold_page[OF assms(2)]
    by (auto intro!: hold_frame[OF assms(2)])
next
  case (valid p)
  have ld: "loader (k_pc s c)"
    using valid by simp
  have "\<not> evicts (k_pc s x) (own s c)" if "x \<noteq> c" for x
    using that evicts_owns loader_unique[OF assms(4) ld] by blast
  moreover have "\<not> pvalid (own_state s c)" "k_offset s (own s c) = p"
    using inv_occD(2)[OF assms(3) ld] inv_occD(4)[OF assms(3), of c p] valid by auto
  moreover have "ac_write (k_call s c) \<longrightarrow> pdirty (own_state s c)"
    using inv_holdD(3)[OF assms(2), of c] valid by simp
  ultimately show ?thesis
    using valid inv_hold_page[OF assms(2)]
    by (auto intro!: hold_frame[OF assms(2)])
next
  case (hit w Y)
  then show ?thesis
    using inv_hold_page[OF assms(2)] inv_holdD(1,3)[OF assms(2), of c]
    by (auto intro!: hold_frame[OF assms(2)] split: if_splits)
next
  case (dirty_new p)
  then show ?thesis
    using inv_hold_page[OF assms(2)] inv_holdD(1,3)[OF assms(2), of c]
    by (auto intro!: hold_frame[OF assms(2)])
next
  case dirty
  then show ?thesis
    using inv_hold_page[OF assms(2)] inv_holdD(1,3)[OF assms(2), of c]
    by (auto intro!: hold_frame[OF assms(2)])
next
  case ret
  then show ?thesis
    using inv_hold_page[OF assms(2)] inv_holdD(1,3)[OF assms(2), of c]
    by (auto intro!: hold_frame[OF assms(2)])
next
  case unbusy
  then show ?thesis
    using inv_hold_page[OF assms(2)] inv_holdD(1,3)[OF assms(2), of c]
    by (auto intro!: hold_frame[OF assms(2)])
next
  case (written p pg)
  have "own s x \<noteq> pg" if "holds (k_pc s x)" for x
    using inv_holdD(1)[OF assms(2) that, of c] written by auto
  then show ?thesis
    unfolding written(1) by (intro hold_frame[OF assms(2)]) (use inv_hold_page[OF assms(2)] in auto)
next
  case (write_one p pg ctrl rest)
  have "own s x \<noteq> pg" if "holds (k_pc s x)" for x
    using inv_holdD(1)[OF assms(2) that, of c] write_one by auto
  then show ?thesis
    unfolding write_one(1) by (intro hold_frame[OF assms(2)]) (use inv_hold_page[OF assms(2)] in auto)
qed (use inv_hold_page[OF assms(2)] in \<open>auto intro!: assms(2) hold_frame[OF assms(2)]\<close>)

subsection \<open>Contents\<close>

definition ctrls_ok :: "page_cache_d_t \<Rightarrow> bool" where
  "ctrls_ok cfg \<longleftrightarrow> (\<forall>pg counter. wf_page cfg pg \<longrightarrow> read_ctrl cfg pg counter \<in> set (evict_ctrls cfg pg))"

definition layout_ok :: "page_cache_d_t \<Rightarrow> bool" where
  "layout_ok cfg \<longleftrightarrow> (\<forall>pg pg' counter. wf_page cfg pg \<longrightarrow> wf_page cfg pg' \<longrightarrow> read_ctrl cfg pg' counter \<in> set (evict_ctrls cfg pg) \<longrightarrow>
     page_lba cfg pg = page_lba cfg pg' \<longrightarrow> pg = pg')"

lemma inv_dataD:
  assumes "inv_data cfg s"
  shows "pvalid (k_state s pg) \<Longrightarrow> k_mem s (k_offset s pg) = k_cur s pg"
    "k_pc s c = L_offset p \<or> k_pc s c = L_dirty p \<or> k_pc s c = L_valid p \<Longrightarrow> k_mem s p = k_cur s (own s c)"
    "wf_page cfg pg \<Longrightarrow> \<not> (pvalid (k_state s pg) \<and> pdirty (k_state s pg)) \<Longrightarrow> disk_ok cfg s pg"
    "k_pc s c = F_wb p pg cs \<Longrightarrow> read_ctrl cfg pg counter \<notin> set cs \<Longrightarrow> k_disk s (read_ctrl cfg pg counter) (page_lba cfg pg) = k_cur s pg"
    "k_pc s c = F_wb p pg cs \<Longrightarrow> set cs \<subseteq> set (evict_ctrls cfg pg)"
    "k_pc s c = F_evict p pg \<Longrightarrow> disk_ok cfg s pg"
    "k_pc s c = L_read p ctrl \<Longrightarrow> \<exists>counter. ctrl = read_ctrl cfg (own s c) counter"
  using assms unfolding inv_data_def by blast+

lemma data_frame:
  assumes "inv_data cfg s" "k_pc s' = k_pc s" "k_call s' = k_call s" "k_cur s' = k_cur s" "k_disk s' = k_disk s"
    "\<And>pg. pvalid (k_state s' pg) \<Longrightarrow> k_mem s' (k_offset s' pg) = k_cur s pg"
    "\<And>x p. x \<noteq> c \<Longrightarrow> k_pc s x = L_offset p \<or> k_pc s x = L_dirty p \<or> k_pc s x = L_valid p \<Longrightarrow> k_mem s' p = k_cur s (own s x)"
    "\<And>pg. wf_page cfg pg \<Longrightarrow> \<not> (pvalid (k_state s' pg) \<and> pdirty (k_state s' pg)) \<Longrightarrow> disk_ok cfg s pg"
    "\<And>p. Y = L_offset p \<or> Y = L_dirty p \<or> Y = L_valid p \<Longrightarrow> k_mem s' p = k_cur s (own s c)"
    "\<And>p pg cs counter. Y = F_wb p pg cs \<Longrightarrow> read_ctrl cfg pg counter \<notin> set cs \<Longrightarrow> k_disk s (read_ctrl cfg pg counter) (page_lba cfg pg) = k_cur s pg"
    "\<And>p pg cs. Y = F_wb p pg cs \<Longrightarrow> set cs \<subseteq> set (evict_ctrls cfg pg)"
    "\<And>p pg. Y = F_evict p pg \<Longrightarrow> disk_ok cfg s pg" "\<And>p ctrl. Y = L_read p ctrl \<Longrightarrow> \<exists>counter. ctrl = read_ctrl cfg (own s c) counter"
  shows "inv_data cfg (agoto c Y s')"
  unfolding inv_data_def agoto_simps assms(2-5)
proof (intro conjI allI impI)
  fix x p pg cs counter ctrl
  have dk: "disk_ok cfg (agoto c Y s') pg = disk_ok cfg s pg" for pg
    by (simp add: disk_ok_def assms(4,5))
  show "k_mem s' (k_offset s' pg) = k_cur s pg" if "pvalid (k_state s' pg)"
    using that by (rule assms(6))
  show "k_mem s' p = k_cur s (own s x)"
    if "((k_pc s)(c := Y)) x = L_offset p \<or> ((k_pc s)(c := Y)) x = L_dirty p \<or> ((k_pc s)(c := Y)) x = L_valid p"
    using that assms(7)[of x p] assms(9)[of p] by (cases "x = c") auto
  show "disk_ok cfg (agoto c Y s') pg" if "wf_page cfg pg" "\<not> (pvalid (k_state s' pg) \<and> pdirty (k_state s' pg))"
    unfolding dk using that by (rule assms(8))
  show "k_disk s (read_ctrl cfg pg counter) (page_lba cfg pg) = k_cur s pg"
    if "((k_pc s)(c := Y)) x = F_wb p pg cs" "read_ctrl cfg pg counter \<notin> set cs"
    using that assms(10)[of p pg cs counter] inv_dataD(4)[OF assms(1), of x p pg cs counter] by (cases "x = c") auto
  show "set cs \<subseteq> set (evict_ctrls cfg pg)" if "((k_pc s)(c := Y)) x = F_wb p pg cs"
    using that assms(11)[of p pg cs] inv_dataD(5)[OF assms(1), of x p pg cs] by (cases "x = c") auto
  show "disk_ok cfg (agoto c Y s') pg" if "((k_pc s)(c := Y)) x = F_evict p pg"
    unfolding dk using that assms(12)[of p pg] inv_dataD(6)[OF assms(1), of x p pg] by (cases "x = c") auto
  show "\<exists>counter. ctrl = read_ctrl cfg (own s x) counter" if "((k_pc s)(c := Y)) x = L_read p ctrl"
    using that assms(13)[of p ctrl] inv_dataD(7)[OF assms(1), of x p ctrl] by (cases "x = c") auto
qed

text \<open>Program points that say nothing of the contents.\<close>

fun quiet :: "acq_pc \<Rightarrow> bool" where
  "quiet (L_offset p) = False" | "quiet (L_dirty p) = False" | "quiet (L_valid p) = False" | "quiet (L_read p d) = False"
| "quiet (F_wb p pg cs) = False" | "quiet (F_evict p pg) = False" | "quiet _ = True"

lemma data_same:
  assumes "inv_data cfg s" "k_pc s' = k_pc s" "k_call s' = k_call s" "k_cur s' = k_cur s" "k_disk s' = k_disk s"
    "k_mem s' = k_mem s" "k_offset s' = k_offset s" "\<And>pg. pvalid (k_state s' pg) = pvalid (k_state s pg)"
    "\<And>pg. pdirty (k_state s pg) \<longrightarrow> pdirty (k_state s' pg)" "quiet Y"
  shows "inv_data cfg (agoto c Y s')"
proof (rule data_frame[OF assms(1-5)])
  show "disk_ok cfg s pg" if "wf_page cfg pg" "\<not> (pvalid (k_state s' pg) \<and> pdirty (k_state s' pg))" for pg
    using that assms(8,9)[of pg] inv_dataD(3)[OF assms(1), of pg] by blast
qed (use assms inv_dataD(1,2)[OF assms(1)] in \<open>auto\<close>)

text \<open>One copy of a page is written back.\<close>

lemma data_write_one:
  assumes "inv_data cfg s" "inv_slot cfg s" "layout_ok cfg" "k_pc s c = F_wb p pg (ctrl # rest)" "k_mem s p = k_cur s pg"
    and s': "k_pc s' = k_pc s" "k_call s' = k_call s" "k_cur s' = k_cur s" "k_state s' = k_state s" "k_offset s' = k_offset s" "k_mem s' = k_mem s"
      "k_disk s' = (k_disk s)(ctrl := (k_disk s ctrl)(page_lba cfg pg := k_mem s p))"
  shows "inv_data cfg (agoto c (F_wb p pg rest) s')"
proof -
  have wf: "wf_page cfg pg"
    using inv_slotD(1)[OF assms(2) inv_slotD(5)[OF assms(2), of c p pg]] assms(4) by simp
  have ctrl: "ctrl \<in> set (evict_ctrls cfg pg)"
    using inv_dataD(5)[OF assms(1,4)] by simp
  have new: "k_disk s' (read_ctrl cfg pg' counter) (page_lba cfg pg') =
      (if pg' = pg \<and> read_ctrl cfg pg counter = ctrl then k_cur s pg else k_disk s (read_ctrl cfg pg' counter) (page_lba cfg pg'))"
    if "wf_page cfg pg'" for pg' counter
  proof -
    have "pg' = pg" if "read_ctrl cfg pg' counter = ctrl" "page_lba cfg pg' = page_lba cfg pg"
      using assms(3) wf \<open>wf_page cfg pg'\<close> ctrl that unfolding layout_ok_def by metis
    then show ?thesis
      using assms(5) by (auto simp: s'(7))
  qed
  have keep: "k_disk s' (read_ctrl cfg pg' counter) (page_lba cfg pg') = k_cur s pg'"
    if "wf_page cfg pg'" "k_disk s (read_ctrl cfg pg' counter) (page_lba cfg pg') = k_cur s pg'" for pg' counter
    using new[OF that(1), of counter] that(2) by auto
  have dk: "disk_ok cfg (agoto c (F_wb p pg rest) s') pg'" if "wf_page cfg pg'" "disk_ok cfg s pg'" for pg'
    using keep[OF that(1)] that(2) by (simp add: disk_ok_def s'(3))
  show ?thesis
    unfolding inv_data_def agoto_simps s'(1-6)
  proof (intro conjI allI impI)
    fix x q pg' cs counter d
    show "k_mem s (k_offset s pg') = k_cur s pg'" if "pvalid (k_state s pg')"
      using that by (rule inv_dataD(1)[OF assms(1)])
    show "k_mem s q = k_cur s (own s x)" if "((k_pc s)(c := F_wb p pg rest)) x = L_offset q \<or> ((k_pc s)(c := F_wb p pg rest)) x = L_dirty q \<or>
        ((k_pc s)(c := F_wb p pg rest)) x = L_valid q"
      using that inv_dataD(2)[OF assms(1), of x q] by (cases "x = c") auto
    show "disk_ok cfg (agoto c (F_wb p pg rest) s') pg'" if "wf_page cfg pg'" "\<not> (pvalid (k_state s pg') \<and> pdirty (k_state s pg'))"
      using dk[OF that(1)] inv_dataD(3)[OF assms(1) that] .
    show "set cs \<subseteq> set (evict_ctrls cfg pg')" if "((k_pc s)(c := F_wb p pg rest)) x = F_wb q pg' cs"
      using that inv_dataD(5)[OF assms(1), of x q pg' cs] inv_dataD(5)[OF assms(1,4)] by (cases "x = c") auto
    show "\<exists>counter. d = read_ctrl cfg (own s x) counter" if "((k_pc s)(c := F_wb p pg rest)) x = L_read q d"
      using that inv_dataD(7)[OF assms(1), of x q d] by (cases "x = c") auto
    show "disk_ok cfg (agoto c (F_wb p pg rest) s') pg'" if "((k_pc s)(c := F_wb p pg rest)) x = F_evict q pg'"
    proof -
      have "k_pc s x = F_evict q pg'"
        using that by (auto split: if_splits)
      then show ?thesis
        using dk[of pg'] inv_dataD(6)[OF assms(1), of x q pg'] inv_slotD(1)[OF assms(2) inv_slotD(5)[OF assms(2), of x q pg']] by simp
    qed
    show "k_disk s' (read_ctrl cfg pg' counter) (page_lba cfg pg') = k_cur s pg'"
      if "((k_pc s)(c := F_wb p pg rest)) x = F_wb q pg' cs" "read_ctrl cfg pg' counter \<notin> set cs"
    proof (cases "x = c")
      case True
      then have "pg' = pg" "cs = rest"
        using that(1) by auto
      then show ?thesis
        using new[OF wf, of counter] inv_dataD(4)[OF assms(1,4), of counter] that(2) by (auto split: if_splits)
    next
      case False
      then have "k_pc s x = F_wb q pg' cs"
        using that(1) by simp
      then show ?thesis
        using keep[of pg' counter] inv_dataD(4)[OF assms(1), of x q pg' cs counter] that(2)
          inv_slotD(1)[OF assms(2) inv_slotD(5)[OF assms(2), of x q pg']] by simp
    qed
  qed
qed


lemma inv_data_trans:
  assumes "acq_trans cfg c s s'" "inv_data cfg s" "inv_slot cfg s" "inv_occ s" "inv_busy s" "inv_count s"
    and "addr_ok cfg" "ctrls_ok cfg" "layout_ok cfg" "c < k_n s" "wf_page cfg (own s c)"
  shows "inv_data cfg s'"
  using assms(1)
proof cases
  case add
  show ?thesis
    unfolding add(1) by (rule data_frame[OF assms(2)])
      (use add_count[OF count_below[OF assms(6,10) add(2)]] inv_dataD(1,2,3)[OF assms(2)] in \<open>auto split: if_splits\<close>)
next
  case (clean p pg)
  have "disk_ok cfg s pg"
    using inv_dataD(3)[OF assms(2), of pg] clean inv_slotD(1)[OF assms(3) inv_slotD(5)[OF assms(3), of c p pg]] by simp
  then show ?thesis
    unfolding clean(1) by (intro data_frame[OF assms(2)]) (use inv_dataD(1,2,3)[OF assms(2)] in \<open>auto split: if_splits\<close>)
next
  case (writeback p pg)
  have "wf_page cfg pg"
    using inv_slotD(1)[OF assms(3) inv_slotD(5)[OF assms(3), of c p pg]] writeback by simp
  then have "read_ctrl cfg pg counter \<in> set (evict_ctrls cfg pg)" for counter
    using assms(8) unfolding ctrls_ok_def by blast
  then show ?thesis
    unfolding writeback(1) by (intro data_frame[OF assms(2)]) (use inv_dataD(1,2,3)[OF assms(2)] in \<open>auto split: if_splits\<close>)
next
  case (written p pg)
  have "disk_ok cfg s pg"
    using inv_dataD(4)[OF assms(2), of c p pg "[]"] written by (simp add: disk_ok_def)
  then show ?thesis
    unfolding written(1) by (intro data_frame[OF assms(2)]) (use inv_dataD(1,2,3)[OF assms(2)] in auto)
next
  case (write_one p pg ctrl rest)
  have occ: "k_occ s pg = Some p"
    using inv_slotD(5)[OF assms(3), of c p pg] write_one by simp
  have "\<not> (loader (k_pc s x) \<and> own s x = pg)" for x
    using loader_unique[OF assms(5), of x c] write_one inv_busyD(3)[OF assms(5), of c] by (auto simp: owns_busy_def)
  then have "pvalid (k_state s pg)"
    using inv_occD(3)[OF assms(4) occ] by blast
  then have "k_mem s p = k_cur s pg"
    using inv_dataD(1)[OF assms(2), of pg] inv_occD(1)[OF assms(4), of pg] occ by simp
  then show ?thesis
    unfolding write_one(1) by (intro data_write_one[OF assms(2,3,9) write_one(2)]) simp_all
next
  case (evict p pg)
  have "disk_ok cfg s pg"
    using inv_dataD(6)[OF assms(2) evict(2)] .
  then show ?thesis
    unfolding evict(1) by (intro data_frame[OF assms(2)]) (use inv_dataD(1,2,3)[OF assms(2)] in \<open>auto split: if_splits\<close>)
next
  case (fetch p ctrl)
  have ld: "loader (k_pc s c)" "slot_got (k_pc s c) = Some p"
    using fetch by simp_all
  have own: "\<not> pvalid (own_state s c)" "k_occ s (own s c) = Some p"
    using inv_occD(2)[OF assms(4) ld(1)] ld(2) by simp_all
  have "k_disk s ctrl (page_lba cfg (own s c)) = k_cur s (own s c)"
    using inv_dataD(3)[OF assms(2,11)] own(1) inv_dataD(7)[OF assms(2) fetch(2)] by (auto simp: disk_ok_def)
  moreover have "k_offset s pg \<noteq> p" if "pvalid (k_state s pg)" for pg
    using occ_unique[OF assms(3,7) own(2), of pg] inv_occD(1)[OF assms(4) that] own(1) that by auto
  moreover have "q \<noteq> p" if "x \<noteq> c" "k_pc s x = L_offset q \<or> k_pc s x = L_dirty q \<or> k_pc s x = L_valid q" for x q
  proof -
    have "loader (k_pc s x)" "slot_got (k_pc s x) = Some q"
      using that(2) by auto
    then show ?thesis
      using inv_occD(2)[OF assms(4), of x] occ_unique[OF assms(3,7) own(2), of "own s x"] loader_unique[OF assms(5) ld(1), of x]
        loader_owns[of s x] that(1) by auto
  qed
  ultimately show ?thesis
    unfolding fetch(1) by (intro data_frame[OF assms(2)]) (use inv_dataD(1,2,3)[OF assms(2)] in \<open>auto\<close>)
next
  case (offset p Y)
  have "loader (k_pc s c)" "k_mem s p = k_cur s (own s c)"
    using offset inv_dataD(2)[OF assms(2), of c p] by simp_all
  then show ?thesis
    unfolding offset(1) using offset(3) inv_occD(2)[OF assms(4), of c]
    by (intro data_frame[OF assms(2)]) (use inv_dataD(1,2,3)[OF assms(2)] in \<open>auto split: if_splits\<close>)
next
  case (dirty_new p)
  then have "k_mem s p = k_cur s (own s c)"
    using inv_dataD(2)[OF assms(2), of c p] by simp
  then show ?thesis
    unfolding dirty_new(1)
    by (intro data_frame[OF assms(2)]) (use inv_dataD(1,2,3)[OF assms(2)] in \<open>auto split: if_splits\<close>)
next
  case (valid p)
  have "k_mem s p = k_cur s (own s c)" "k_offset s (own s c) = p"
    using valid inv_dataD(2)[OF assms(2), of c p] inv_occD(4)[OF assms(4), of c p] by simp_all
  then show ?thesis
    unfolding valid(1) using inv_occD(2)[OF assms(4), of c] valid(2)
    by (intro data_frame[OF assms(2)]) (use inv_dataD(1,2,3)[OF assms(2)] in \<open>auto split: if_splits\<close>)
next
  case (choose p n1 n2 n3)
  then show ?thesis
    unfolding choose(1) by (intro data_frame[OF assms(2)]) (use inv_dataD(1,2,3)[OF assms(2)] in \<open>auto\<close>)
qed (auto simp: assms(2) data_same[OF assms(2)])

subsection \<open>All steps\<close>

definition pc_inv :: "page_cache_d_t \<Rightarrow> 'd pc_sys \<Rightarrow> bool" where
  "pc_inv cfg s \<longleftrightarrow> inv_calls cfg s \<and> inv_count s \<and> inv_busy s \<and> inv_lock s \<and> inv_slot cfg s \<and> inv_occ s \<and> inv_hold s \<and> inv_data cfg s"

definition cfg_ok :: "page_cache_d_t \<Rightarrow> bool" where
  "cfg_ok cfg \<longleftrightarrow> addr_ok cfg \<and> ctrls_ok cfg \<and> layout_ok cfg"

lemma inv_calls_trans:
  assumes "acq_trans cfg c s s'" "inv_calls cfg s" "c < k_n s"
  shows "inv_calls cfg s'"
  using assms(1)
proof cases
qed (use assms(2,3) in \<open>auto simp: inv_calls_def\<close>)

lemma pc_inv_run:
  assumes "pc_inv cfg s" "cfg_ok cfg" "c < k_n s"
  shows "pc_inv cfg (acquire_page_step cfg weak c s)"
proof -
  note t = acq_trans_step[of cfg c s weak]
  have i: "inv_calls cfg s" "inv_count s" "inv_busy s" "inv_lock s" "inv_slot cfg s" "inv_occ s" "inv_hold s" "inv_data cfg s"
    using assms(1) unfolding pc_inv_def by blast+
  have k: "addr_ok cfg" "ctrls_ok cfg" "layout_ok cfg"
    using assms(2) unfolding cfg_ok_def by blast+
  have wf: "wf_page cfg (own s c)"
    using i(1) assms(3) unfolding inv_calls_def by blast
  show ?thesis
    unfolding pc_inv_def
    using inv_calls_trans[OF t i(1) assms(3)] inv_count_trans[OF t i(2) assms(3)] inv_busy_trans[OF t i(3,2) assms(3)]
      inv_lock_trans[OF t i(4)] inv_slot_trans[OF t i(5,4,6) k(1) wf] inv_occ_trans[OF t i(6,3,2) assms(3)]
      inv_hold_trans[OF t i(7,6,3,2,1) assms(3)] inv_data_trans[OF t i(8,5,6,3,2) k assms(3) wf]
    by blast
qed

text \<open>A new call takes a number above all others.\<close>

lemma ref_sum_start:
  assumes "inv_calls cfg s"
  shows "ref_sum (acquire_page_start call s) P pg = ref_sum s P pg + (if P A_add \<and> ac_page call = pg then unat (ac_count call) else 0)"
proof -
  have "(\<Sum>c < k_n s. if P (k_pc (acquire_page_start call s) c) \<and> own (acquire_page_start call s) c = pg
           then unat (ac_count (k_call (acquire_page_start call s) c)) else 0) = ref_sum s P pg"
    unfolding ref_sum_def by (rule sum.cong) (simp_all add: acquire_page_start_def)
  then show ?thesis
    unfolding ref_sum_def[of "acquire_page_start call s"] by (simp add: acquire_page_start_def)
qed

definition new_call :: "'d pc_sys \<Rightarrow> 'd pc_sys \<Rightarrow> bool" where
  "new_call s s' \<longleftrightarrow> (\<forall>x. k_pc s' x = A_add \<and> k_pc s x = A_done \<or> k_pc s' x = k_pc s x \<and> k_call s' x = k_call s x) \<and>
     k_state s' = k_state s \<and> k_offset s' = k_offset s \<and> k_lock s' = k_lock s \<and> k_trans s' = k_trans s \<and> k_mem s' = k_mem s \<and>
     k_disk s' = k_disk s \<and> k_occ s' = k_occ s \<and> k_cur s' = k_cur s"

lemma new_callD:
  assumes "new_call s s'"
  shows "k_pc s' x = A_add \<and> k_pc s x = A_done \<or> k_pc s' x = k_pc s x \<and> k_call s' x = k_call s x"
    "k_state s' = k_state s" "k_offset s' = k_offset s" "k_lock s' = k_lock s" "k_trans s' = k_trans s" "k_mem s' = k_mem s"
    "k_disk s' = k_disk s" "k_occ s' = k_occ s" "k_cur s' = k_cur s"
  using assms unfolding new_call_def by blast+

lemma start_locks:
  assumes "new_call s s'" "inv_lock s" "inv_busy s"
  shows "inv_lock s'" "inv_busy s'"
proof -
  note n = new_callD[OF assms(1)]
  have "slot_held (k_pc s' x) = slot_held (k_pc s x)" for x
    using n(1)[of x] by auto
  then show "inv_lock s'"
    using assms(2) unfolding inv_lock_def n(4) by simp
  have "owns_busy s' x pg = owns_busy s x pg" for x pg
    using n(1)[of x] by (auto simp: owns_busy_def)
  then have "owns_busy s' = owns_busy s"
    by (intro ext)
  moreover have "victim_busy (k_pc s' x) \<noteq> Some (own s' x)" for x
    using n(1)[of x] inv_busyD(3)[OF assms(3), of x] by auto
  ultimately show "inv_busy s'"
    using assms(3) unfolding inv_busy_def n(2) by simp
qed

lemma start_slot:
  assumes "new_call s s'" "inv_slot cfg s"
  shows "inv_slot cfg s'"
proof -
  note n = new_callD[OF assms(1)]
  have "fresh_slot (k_pc s' x) = fresh_slot (k_pc s x)" "used_slot (k_pc s' x) = used_slot (k_pc s x)"
    "slot_victim (k_pc s' x) = slot_victim (k_pc s x)" for x
    using n(1)[of x] by (auto intro!: ext)
  then show ?thesis
    using assms(2) unfolding inv_slot_def n(2-9) by simp
qed

lemma start_occ:
  assumes "new_call s s'" "inv_occ s"
  shows "inv_occ s'"
  unfolding inv_occ_def new_callD(2,3,8)[OF assms(1)]
proof (intro conjI allI impI)
  note n = new_callD(1)[OF assms(1)]
  fix x p
  show "\<not> pvalid (k_state s (own s' x))" "k_occ s (own s' x) = slot_got (k_pc s' x)" if "loader (k_pc s' x)"
    using that n[of x] inv_occD(2)[OF assms(2), of x] by auto
  show "k_offset s (own s' x) = p" if "k_pc s' x = L_dirty p \<or> k_pc s' x = L_valid p"
    using that n[of x] inv_occD(4)[OF assms(2), of x p] by auto
  fix pg
  show "k_occ s pg = Some (k_offset s pg)" if "pvalid (k_state s pg)"
    using that by (rule inv_occD(1)[OF assms(2)])
  have "loader (k_pc s x) \<Longrightarrow> own s x = pg \<Longrightarrow> loader (k_pc s' x) \<and> own s' x = pg" for x
    using n[of x] by auto
  then show "pvalid (k_state s pg) \<or> (\<exists>c. loader (k_pc s' c) \<and> own s' c = pg)" if "k_occ s pg \<noteq> None"
    using that inv_occD(3)[OF assms(2), of pg] by blast
qed

lemma start_hold:
  assumes "new_call s s'" "inv_hold s"
  shows "inv_hold s'"
  unfolding inv_hold_def new_callD(2,3)[OF assms(1)]
proof (intro conjI allI impI)
  note n = new_callD(1)[OF assms(1)]
  fix x y p
  show "pvalid (k_state s (own s' x))" "\<not> evicts (k_pc s' y) (own s' x)" if "holds (k_pc s' x)"
    using that n[of x] n[of y] inv_holdD(1)[OF assms(2), of x y] by auto
  show "k_offset s (own s' x) = p" if "k_pc s' x = A_ret p"
    using that n[of x] inv_holdD(2)[OF assms(2), of x p] by auto
  show "pdirty (k_state s (own s' x))" if "wants_dirty (ac_write (k_call s' x)) (k_pc s' x)"
    using that n[of x] inv_holdD(3)[OF assms(2), of x] by auto
qed

lemma start_data:
  assumes "new_call s s'" "inv_data cfg s"
  shows "inv_data cfg s'"
proof -
  note n = new_callD(1)[OF assms(1)]
  have dk: "disk_ok cfg s' = disk_ok cfg s"
    by (intro ext) (simp add: disk_ok_def new_callD(7,9)[OF assms(1)])
  show ?thesis
    unfolding inv_data_def new_callD(2-9)[OF assms(1)] dk
  proof (intro conjI allI impI)
    fix x p pg cs counter ctrl
    show "k_mem s (k_offset s pg) = k_cur s pg" if "pvalid (k_state s pg)"
      using that by (rule inv_dataD(1)[OF assms(2)])
    show "k_mem s p = k_cur s (own s' x)" if "k_pc s' x = L_offset p \<or> k_pc s' x = L_dirty p \<or> k_pc s' x = L_valid p"
      using that n[of x] inv_dataD(2)[OF assms(2), of x p] by auto
    show "disk_ok cfg s pg" if "wf_page cfg pg" "\<not> (pvalid (k_state s pg) \<and> pdirty (k_state s pg))"
      using that by (rule inv_dataD(3)[OF assms(2)])
    show "k_disk s (read_ctrl cfg pg counter) (page_lba cfg pg) = k_cur s pg" if "k_pc s' x = F_wb p pg cs" "read_ctrl cfg pg counter \<notin> set cs"
      using that n[of x] inv_dataD(4)[OF assms(2), of x p pg cs counter] by auto
    show "set cs \<subseteq> set (evict_ctrls cfg pg)" if "k_pc s' x = F_wb p pg cs"
      using that n[of x] inv_dataD(5)[OF assms(2), of x p pg cs] by auto
    show "disk_ok cfg s pg" if "k_pc s' x = F_evict p pg"
      using that n[of x] inv_dataD(6)[OF assms(2), of x p pg] by auto
    show "\<exists>counter. ctrl = read_ctrl cfg (own s' x) counter" if "k_pc s' x = L_read p ctrl"
      using that n[of x] inv_dataD(7)[OF assms(2), of x p ctrl] by auto
  qed
qed

lemma pc_inv_start:
  assumes "pc_inv cfg s" "wf_page cfg (ac_page call)" "0 < ac_count call" "live_refs s (ac_page call) + unat (ac_count call) < 2 ^ 29"
  shows "pc_inv cfg (acquire_page_start call s)"
proof -
  have i: "inv_calls cfg s" "inv_count s" "inv_busy s" "inv_lock s" "inv_slot cfg s" "inv_occ s" "inv_hold s" "inv_data cfg s"
    using assms(1) unfolding pc_inv_def by blast+
  have st: "new_call s (acquire_page_start call s)"
    using i(1) unfolding new_call_def inv_calls_def by (simp add: acquire_page_start_def)
  have "inv_calls cfg (acquire_page_start call s)"
    using i(1) assms(2,3) by (auto simp: inv_calls_def acquire_page_start_def less_Suc_eq)
  moreover have "inv_count (acquire_page_start call s)"
    using i(2) assms(4) ref_sum_start[OF i(1), of call] unfolding inv_count_def refs_sum live_sum new_callD(2)[OF st] by auto
  ultimately show ?thesis
    unfolding pc_inv_def using start_locks[OF st i(4,3)] start_slot[OF st i(5)] start_occ[OF st i(6)] start_hold[OF st i(7)] start_data[OF st i(8)]
    by blast
qed


text \<open>Releasing a reference.\<close>

lemma release_count:
  assumes "inv_count s" "c < k_n s" "k_pc s c = A_ret p"
  shows "unat (ac_count (k_call s c)) \<le> pcount (k_state s (own s c))"
proof -
  have "unat (ac_count (k_call s c)) \<le> refs s (own s c)"
    unfolding refs_def using assms(2,3) by (intro member_le_sum) auto
  then show ?thesis
    using assms(1) unfolding inv_count_def by simp
qed

lemma inv_count_release:
  assumes "inv_count s" "c < k_n s" "k_pc s c = A_ret p"
  shows "inv_count (release_page c s)"
proof -
  note b = sub_count[OF release_count[OF assms]]
  let ?s = "set_state (own s c) (k_state s (own s c) - ac_count (k_call s c)) s"
  have r: "refs (agoto c A_done ?s) pg + (if own s c = pg then unat (ac_count (k_call s c)) else 0) = refs s pg"
    and l: "live_refs (agoto c A_done ?s) pg + (if own s c = pg then unat (ac_count (k_call s c)) else 0) = live_refs s pg" for pg
    using ref_sum_agoto[OF assms(2), of ?s A_done "\<lambda>pc. pc \<noteq> A_done \<and> pc \<noteq> A_add" pg]
      ref_sum_agoto[OF assms(2), of ?s A_done "\<lambda>pc. pc \<noteq> A_done" pg] assms(3) unfolding refs_sum live_sum by auto
  have i: "pcount (k_state s pg) = refs s pg" "live_refs s pg < 2 ^ 29" for pg
    using assms(1) unfolding inv_count_def by blast+
  have "pcount (k_state (agoto c A_done ?s) pg) = refs (agoto c A_done ?s) pg" for pg
    using r[of pg] b(4) i(1)[of pg] by (cases "own s c = pg") auto
  moreover have "live_refs (agoto c A_done ?s) pg < 2 ^ 29" for pg
    using l[of pg] i(2)[of pg] by linarith
  ultimately show ?thesis
    unfolding inv_count_def release_page_def Let_def by blast
qed

lemma pc_inv_release:
  assumes "pc_inv cfg s" "c < k_n s" "k_pc s c = A_ret p"
  shows "pc_inv cfg (release_page c s)"
proof -
  have i: "inv_calls cfg s" "inv_count s" "inv_busy s" "inv_lock s" "inv_slot cfg s" "inv_occ s" "inv_hold s" "inv_data cfg s"
    using assms(1) unfolding pc_inv_def by blast+
  note b = sub_count[OF release_count[OF i(2) assms(2,3)]]
  have "inv_calls cfg (release_page c s)"
    using i(1) by (auto simp: inv_calls_def release_page_def Let_def)
  moreover have "inv_busy (release_page c s)"
    unfolding release_page_def Let_def by (rule busy_frame[OF i(3)]) (use assms(3) b(2) in simp_all)
  moreover have "inv_lock (release_page c s)"
    unfolding release_page_def Let_def by (rule lock_frame[OF i(4)]) (use assms(3) in simp_all)
  moreover have "inv_slot cfg (release_page c s)"
    unfolding release_page_def Let_def by (rule slot_frame[OF i(5)]) simp_all
  moreover have "inv_occ (release_page c s)"
    unfolding release_page_def Let_def by (rule occ_frame[OF i(6)]) (use assms(3) b(1) in simp_all)
  moreover have "inv_hold (release_page c s)"
    unfolding release_page_def Let_def
    by (rule hold_frame[OF i(7)]) (use b(1,3) inv_hold_page[OF i(7)] in \<open>auto split: if_splits\<close>)
  moreover have "inv_data cfg (release_page c s)"
    unfolding release_page_def Let_def by (rule data_same[OF i(8)]) (use b(1,3) in simp_all)
  ultimately show ?thesis
    unfolding pc_inv_def using inv_count_release[OF i(2) assms(2,3)] by blast
qed


text \<open>Writing through a reference.\<close>

lemma inv_data_write:
  assumes "inv_data cfg s" "inv_hold s" "inv_occ s" "inv_slot cfg s" "addr_ok cfg" "k_pc s c = A_ret p" "ac_write (k_call s c)"
  shows "inv_data cfg (write_page c p f s)"
proof -
  have own: "pvalid (own_state s c)" "pdirty (own_state s c)" "k_offset s (own s c) = p" "\<And>x. \<not> evicts (k_pc s x) (own s c)"
    using inv_holdD(1)[OF assms(2), of c] inv_holdD(2)[OF assms(2,6)] inv_holdD(3)[OF assms(2), of c] assms(6,7) by auto
  have occ: "k_occ s (own s c) = Some p"
    using inv_occD(1)[OF assms(3) own(1)] own(3) by simp
  have off: "k_offset s pg \<noteq> p" if "pvalid (k_state s pg)" "pg \<noteq> own s c" for pg
    using occ_unique[OF assms(4,5) occ, of pg] inv_occD(1)[OF assms(3) that(1)] that(2) by auto
  have ld: "q \<noteq> p \<and> own s x \<noteq> own s c" if "k_pc s x = L_offset q \<or> k_pc s x = L_dirty q \<or> k_pc s x = L_valid q" for x q
  proof -
    have "loader (k_pc s x)" "slot_got (k_pc s x) = Some q"
      using that by auto
    then show ?thesis
      using inv_occD(2)[OF assms(3), of x] occ_unique[OF assms(4,5) occ, of "own s x"] own(1) by auto
  qed
  have dk: "disk_ok cfg (write_page c p f s) pg = disk_ok cfg s pg" if "pg \<noteq> own s c" for pg
    using that by (simp add: disk_ok_def write_page_def)
  have same: "k_pc (write_page c p f s) = k_pc s" "k_state (write_page c p f s) = k_state s" "k_offset (write_page c p f s) = k_offset s"
    "k_disk (write_page c p f s) = k_disk s" "k_call (write_page c p f s) = k_call s" "k_mem (write_page c p f s) = (k_mem s)(p := f (k_mem s p))"
    "k_cur (write_page c p f s) = (k_cur s)(own s c := f (k_cur s (own s c)))"
    by (simp_all add: write_page_def)
  show ?thesis
    unfolding inv_data_def same
  proof (intro conjI allI impI)
    fix x q pg cs counter ctrl
    show "((k_mem s)(p := f (k_mem s p))) (k_offset s pg) = ((k_cur s)(own s c := f (k_cur s (own s c)))) pg" if "pvalid (k_state s pg)"
      using inv_dataD(1)[OF assms(1) that] off[OF that] own(3) by auto
    show "((k_mem s)(p := f (k_mem s p))) q = ((k_cur s)(own s c := f (k_cur s (own s c)))) (own s x)"
      if "k_pc s x = L_offset q \<or> k_pc s x = L_dirty q \<or> k_pc s x = L_valid q"
      using inv_dataD(2)[OF assms(1) that] ld[OF that] by simp
    show "disk_ok cfg (write_page c p f s) pg" if "wf_page cfg pg" "\<not> (pvalid (k_state s pg) \<and> pdirty (k_state s pg))"
      using dk[of pg] own(1,2) inv_dataD(3)[OF assms(1) that] that(2) by blast
    show "k_disk s (read_ctrl cfg pg counter) (page_lba cfg pg) = ((k_cur s)(own s c := f (k_cur s (own s c)))) pg"
      if "k_pc s x = F_wb q pg cs" "read_ctrl cfg pg counter \<notin> set cs"
      using inv_dataD(4)[OF assms(1) that] own(4)[of x] that(1) by auto
    show "set cs \<subseteq> set (evict_ctrls cfg pg)" if "k_pc s x = F_wb q pg cs"
      using that by (rule inv_dataD(5)[OF assms(1)])
    show "disk_ok cfg (write_page c p f s) pg" if "k_pc s x = F_evict q pg"
      using dk[of pg] inv_dataD(6)[OF assms(1) that] own(4)[of x] that by auto
    show "\<exists>counter. ctrl = read_ctrl cfg (own s x) counter" if "k_pc s x = L_read q ctrl"
      using that by (rule inv_dataD(7)[OF assms(1)])
  qed
qed

lemma pc_inv_write:
  assumes "pc_inv cfg s" "addr_ok cfg" "k_pc s c = A_ret p" "ac_write (k_call s c)"
  shows "pc_inv cfg (write_page c p f s)"
proof -
  have i: "inv_calls cfg s" "inv_count s" "inv_busy s" "inv_lock s" "inv_slot cfg s" "inv_occ s" "inv_hold s" "inv_data cfg s"
    using assms(1) unfolding pc_inv_def by blast+
  have "owns_busy (write_page c p f s) = owns_busy s"
    by (intro owns_cong) (simp_all add: write_page_def)
  moreover have "refs (write_page c p f s) = refs s" "live_refs (write_page c p f s) = live_refs s"
    by (auto simp: refs_def live_refs_def write_page_def)
  ultimately show ?thesis
    using i inv_data_write[OF i(8,7,6,5) assms(2-4), of f]
    unfolding pc_inv_def inv_calls_def inv_count_def inv_busy_def inv_lock_def inv_slot_def inv_occ_def inv_hold_def
    by (simp add: write_page_def)
qed

lemma pc_inv_init:
  assumes "\<And>pg counter. wf_page cfg pg \<Longrightarrow> disk (read_ctrl cfg pg counter) (page_lba cfg pg) = disk (read_ctrl cfg pg 0) (page_lba cfg pg)"
  shows "pc_inv cfg (pc_init cfg disk s)"
proof -
  have w: "pcount INVALID = 0" "\<not> pvalid INVALID" "\<not> pbusy INVALID"
    by (simp_all add: INVALID_def pcount_def)
  have "disk_ok cfg (pc_init cfg disk s) pg" if "wf_page cfg pg" for pg
  proof -
    have "k_disk (pc_init cfg disk s) = disk" "k_cur (pc_init cfg disk s) pg = disk (read_ctrl cfg pg 0) (page_lba cfg pg)"
      by (simp_all add: pc_init_def)
    then show ?thesis
      unfolding disk_ok_def using assms[OF that] by metis
  qed
  then have "inv_data cfg (pc_init cfg disk s)"
    using w by (simp add: inv_data_def) (simp add: pc_init_def)
  moreover have "inv_count (pc_init cfg disk s)"
    using w by (simp add: inv_count_def pc_init_def refs_def live_refs_def)
  moreover have "inv_busy (pc_init cfg disk s)"
    using w by (simp add: inv_busy_def exclusive_def owns_busy_def pc_init_def)
  moreover have "inv_lock (pc_init cfg disk s)" "inv_slot cfg (pc_init cfg disk s)" "inv_occ (pc_init cfg disk s)"
    "inv_hold (pc_init cfg disk s)" "inv_calls cfg (pc_init cfg disk s)"
    using w by (simp_all add: inv_lock_def exclusive_def inv_slot_def inv_occ_def inv_hold_def inv_calls_def pc_init_def)
  ultimately show ?thesis
    unfolding pc_inv_def by blast
qed

lemma pc_inv_reach:
  assumes "pc_reach cfg s" "cfg_ok cfg"
  shows "pc_inv cfg s"
  using assms(1)
proof induction
  case (init disk s)
  then show ?case
    by (rule pc_inv_init)
next
  case (step s s')
  have "addr_ok cfg"
    using assms(2) unfolding cfg_ok_def by blast
  from step(2) show ?case
  proof cases
    case (call c)
    then show ?thesis
      using pc_inv_start[OF step(3)] by blast
  next
    case (run c weak)
    then show ?thesis
      using pc_inv_run[OF step(3) assms(2)] by blast
  next
    case (store c p f)
    then show ?thesis
      using pc_inv_write[OF step(3) \<open>addr_ok cfg\<close>] by blast
  next
    case (release c p)
    then show ?thesis
      using pc_inv_release[OF step(3)] by blast
  qed
qed

end
