(* ===== verification/PageSafe.thy ===== *)
theory PageSafe
  imports PageInv
begin

text \<open>
  What the page cache promises: a call that holds a page sees its current contents in the slot it was given, pages do
  not share slots, references are counted exactly. Flushing the cache (\<open>__flush\<close>) after all calls have ended brings
  the devices up to date. The layouts for which this holds are described, with the arithmetic of a striped range.
\<close>

subsection \<open>Flushing\<close>

definition write_copies :: "page_cache_d_t \<Rightarrow> u32 \<Rightarrow> page \<Rightarrow> 'd pc_sys \<Rightarrow> 'd pc_sys" where
  "write_copies cfg p pg s =
     s\<lparr>k_disk := fold (\<lambda>ctrl disk. disk(ctrl := (disk ctrl)(page_lba cfg pg := k_mem s p))) (evict_ctrls cfg pg) (k_disk s)\<rparr>"

definition flush_page :: "page_cache_d_t \<Rightarrow> u32 \<Rightarrow> 'd pc_sys \<Rightarrow> 'd pc_sys" where
  "flush_page cfg p s =
     (let prev = address_page cfg (k_trans s p);
          expected_state = k_state s prev
      in if expected_state AND DIRTY \<noteq> 0 then
           let s = write_copies cfg p prev s in set_state prev (k_state s prev AND NOT DIRTY) s
         else s)"


lemma write_copies_simps [simp]:
  "k_state (write_copies cfg p pg s) = k_state s" "k_mem (write_copies cfg p pg s) = k_mem s" "k_cur (write_copies cfg p pg s) = k_cur s"
  "k_trans (write_copies cfg p pg s) = k_trans s" "k_lock (write_copies cfg p pg s) = k_lock s" "k_occ (write_copies cfg p pg s) = k_occ s"
  "k_offset (write_copies cfg p pg s) = k_offset s" "k_pc (write_copies cfg p pg s) = k_pc s" "k_call (write_copies cfg p pg s) = k_call s"
  "k_n (write_copies cfg p pg s) = k_n s"
  by (simp_all add: write_copies_def)

lemma write_copies_disk:
  "k_disk (write_copies cfg p pg s) ctrl lba = (if ctrl \<in> set (evict_ctrls cfg pg) \<and> lba = page_lba cfg pg then k_mem s p else k_disk s ctrl lba)"
proof -
  have "fold (\<lambda>ctrl disk. disk(ctrl := (disk ctrl)(a := v))) cs d ctrl lba = (if ctrl \<in> set cs \<and> lba = a then v else d ctrl lba)"
    for cs a v and d :: "u64 \<Rightarrow> u64 \<Rightarrow> 'a"
    by (induction cs arbitrary: d) auto
  then show ?thesis
    by (simp add: write_copies_def)
qed


lemma and_not_DIRTY [simp]:
  "pvalid (w AND NOT DIRTY) = pvalid w" "pbusy (w AND NOT DIRTY) = pbusy w" "\<not> pdirty (w AND NOT DIRTY)" "pcount (w AND NOT DIRTY) = pcount w"
proof -
  have "take_bit 29 (w AND NOT DIRTY) = take_bit 29 w"
    by (intro bit_word_eqI) (auto simp: bit_simps DIRTY_bits)
  then show "pcount (w AND NOT DIRTY) = pcount w"
    by (simp add: pcount_def CNT_MASK_mask flip: take_bit_eq_mask)
qed (simp_all add: bit_simps DIRTY_bits)








text \<open>Slots in use are slots of the cache.\<close>

fun pc_slot :: "acq_pc \<Rightarrow> u32 option" where
  "pc_slot (F_load p) = Some p"
| "pc_slot (F_cas_free p) = Some p"
| "pc_slot (F_claim p) = Some p"
| "pc_slot (F_cas p) = Some p"
| "pc_slot (F_prev p) = Some p"
| "pc_slot (F_busy p _) = Some p"
| "pc_slot (F_wb p _ _) = Some p"
| "pc_slot (F_evict p _) = Some p"
| "pc_slot (F_trans p) = Some p"
| "pc_slot (F_unbusy p _) = Some p"
| "pc_slot (F_unlock p _) = Some p"
| "pc_slot _ = None"

definition cache_slot :: "page_cache_d_t \<Rightarrow> u32 \<Rightarrow> bool" where
  "cache_slot cfg p \<longleftrightarrow> ucast p < d_n_pages cfg"

lemma unat_widen: "unat (ucast (x :: u32) :: u64) = unat x"
proof -
  have "take_bit 64 (unat x) = unat x"
    using unsigned_less[of x, where 'a = nat] by (intro take_bit_nat_eq_self) simp
  then show ?thesis
    by (simp add: unsigned_ucast_eq)
qed

lemma ticket_slot:
  assumes "0 < n"
  shows "(ucast (ucast (ucast (t :: u32) mod n :: u64) :: u32) :: u64) < n"
proof -
  have "unat (ucast t mod n :: u64) \<le> unat t"
    by (simp add: unat_mod unat_widen)
  then have "unat (ucast t mod n :: u64) < 2 ^ 32"
    using unsigned_less[of t, where 'a = nat] by simp
  then have "unat (ucast (ucast t mod n :: u64) :: u32) = unat (ucast t mod n :: u64)"
    by (simp add: unsigned_ucast_eq take_bit_nat_eq_self)
  moreover have "ucast t mod n < n"
    using assms by (simp add: word_mod_less_divisor)
  ultimately show ?thesis
    by (simp add: word_less_nat_alt unat_widen)
qed

lemma step_slots:
  assumes "0 < d_n_pages cfg" "\<And>p. pc_slot (k_pc s c) = Some p \<Longrightarrow> cache_slot cfg p"
  shows "pc_slot (k_pc (acquire_page_step cfg weak c s) c) = Some p \<Longrightarrow> cache_slot cfg p"
    "k_lock (acquire_page_step cfg weak c s) p \<noteq> FREE \<Longrightarrow> k_lock s p \<noteq> FREE \<or> cache_slot cfg p"
  using assms(2) ticket_slot[OF assms(1)]
  by (cases "k_pc s c"; auto simp: step_defs cache_slot_def split: if_splits list.splits)+

lemma step_other: "x \<noteq> c \<Longrightarrow> k_pc (acquire_page_step cfg weak c s) x = k_pc s x"
  by (cases "k_pc s c") (auto simp: step_defs split: list.splits)

lemma slots_reach:
  assumes "pc_reach cfg s" "0 < d_n_pages cfg"
  shows "(\<forall>p. k_lock s p \<noteq> FREE \<longrightarrow> cache_slot cfg p) \<and> (\<forall>c p. pc_slot (k_pc s c) = Some p \<longrightarrow> cache_slot cfg p)"
  using assms(1)
proof induction
  case (step s s')
  show ?case
    using step.hyps(2)
  proof cases
    case (run c weak)
    have "cache_slot cfg p" if "pc_slot (k_pc s' x) = Some p" for x p
      using that step.IH step_slots(1)[OF assms(2), of s c weak p] step_other[of x c cfg weak s] run by (cases "x = c") auto
    moreover have "cache_slot cfg p" if "k_lock s' p \<noteq> FREE" for p
      using that step.IH step_slots(2)[OF assms(2), of s c weak p] run by auto
    ultimately show ?thesis
      by blast
  qed (use step.IH in \<open>auto simp: acquire_page_start_def release_page_def write_page_def Let_def\<close>)
qed (simp add: pc_init_def)

subsection \<open>Layouts\<close>

definition range_span :: "page_cache_d_t \<Rightarrow> u64 \<Rightarrow> nat" where
  "range_span cfg r =
     (case d_ranges_dists cfg r of
        REPLICATE \<Rightarrow> unat (d_ranges_page_counts cfg r)
      | STRIPE \<Rightarrow> (unat (d_ranges_page_counts cfg r) + unat (d_n_ctrls cfg) - 1) div unat (d_n_ctrls cfg))"

definition range_end :: "page_cache_d_t \<Rightarrow> u64 \<Rightarrow> nat" where
  "range_end cfg r = unat (d_ranges_page_starts cfg r) + range_span cfg r"

text \<open>At most \<open>2\<^sup>b\<close> ranges, set up by the constructor for that number, that do not overlap on the controllers and fit
  into the device, without overridden controllers.\<close>

definition plain_layout :: "nat \<Rightarrow> page_cache_d_t \<Rightarrow> bool" where
  "plain_layout b cfg \<longleftrightarrow> b < 64 \<and> d_n_ranges_bits cfg = ranges_bits (2 ^ b) \<and> d_n_ranges_mask cfg = ranges_mask (2 ^ b) \<and>
     unat (d_n_ranges cfg) \<le> 2 ^ b \<and> 0 < d_n_ctrls cfg \<and> 0 < d_n_blocks_per_page cfg \<and>
     d_read_ctrl_override cfg = ALL_CTRLS \<and> d_evict_ctrl_override cfg = ALL_CTRLS \<and>
     (\<forall>r < d_n_ranges cfg. unat (d_ranges_page_counts cfg r) \<le> 2 ^ (64 - max 1 b) \<and>
        range_end cfg r * unat (d_n_blocks_per_page cfg) < 2 ^ 64) \<and>
     (\<forall>r < d_n_ranges cfg. \<forall>r' < d_n_ranges cfg. r \<noteq> r' \<longrightarrow>
        range_end cfg r \<le> unat (d_ranges_page_starts cfg r') \<or> range_end cfg r' \<le> unat (d_ranges_page_starts cfg r))"

lemma floor_log2_power: "b < 64 \<Longrightarrow> floor_log2 (2 ^ b) = of_nat b"
proof -
  assume b: "b < 64"
  have "set (filter (bit ((2 :: u64) ^ b)) [0..<64]) = {b}"
    using b by (auto simp: bit_exp_iff simp del: upt_rec_numeral)
  then show ?thesis
    using b by (simp add: floor_log2_def del: upt_rec_numeral)
qed

lemma ranges_bits_power: "b < 64 \<Longrightarrow> unat (ranges_bits (2 ^ b)) = max 1 b"
proof -
  assume b: "b < 64"
  show ?thesis
  proof (cases "b = 0")
    case False
    have "unat ((2 :: u64) ^ b) = 2 ^ b"
      using b by (intro unat_power2) simp
    then have "(2 :: u64) ^ b \<noteq> 1"
      using False one_less_power[of 2 b] by (metis less_irrefl neq0_conv one_less_numeral_iff semiring_norm(76) unat_1)
    then show ?thesis
      using b False by (simp add: ranges_bits_def floor_log2_power unat_of_nat max_def)
  qed (simp add: ranges_bits_def)
qed

lemma bit_below:
  fixes r :: "'a::len word"
  assumes "unat r < 2 ^ b" "bit r n"
  shows "n < b"
proof -
  have "take_bit b r = r"
    using assms(1) by (simp add: word_unat_eq_iff unat_take_bit)
  then show ?thesis
    using assms(2) bit_take_bit_iff[of b r n] by simp
qed

lemma addr_roundtrip:
  assumes "b \<le> k" "k < 64" "unat r < 2 ^ b" "unat a < 2 ^ (64 - k)"
  shows "(push_bit k a OR r) AND (2 ^ b - 1) = r" "drop_bit k (push_bit k a OR r) = (a :: u64)"
proof -
  have r: "bit r n \<Longrightarrow> n < b" for n
    using bit_below[OF assms(3)] .
  have a: "bit a n \<Longrightarrow> n + k < 64" for n
    using bit_below[OF assms(4), of n] by simp
  show "(push_bit k a OR r) AND (2 ^ b - 1) = r"
    unfolding mask_eq_exp_minus_1[symmetric] using assms(1) r by (intro bit_word_eqI) (auto simp: bit_simps)
  show "drop_bit k (push_bit k a OR r) = a"
  proof (rule bit_word_eqI)
    fix n :: nat
    have "\<not> bit r (n + k)"
      using r[of "n + k"] assms(1) by auto
    then show "bit (drop_bit k (push_bit k a OR r)) n = bit a n"
      using a[of n] by (auto simp: bit_drop_bit_eq bit_or_iff bit_push_bit_iff add.commute)
  qed
qed


lemma plain_addr_ok:
  assumes "plain_layout b cfg"
  shows "addr_ok cfg"
  unfolding addr_ok_def
proof (intro allI impI)
  fix pg
  assume wf: "wf_page cfg pg"
  have b: "b < 64" "d_n_ranges_mask cfg = 2 ^ b - 1"
    using assms unfolding plain_layout_def ranges_mask_def by blast+
  have k: "unat (d_n_ranges_bits cfg) = max 1 b"
    using assms ranges_bits_power[OF b(1)] unfolding plain_layout_def by simp
  have "unat (pg_range pg) < 2 ^ b" "unat (pg_index pg) < 2 ^ (64 - max 1 b)"
    using wf assms unfolding wf_page_def plain_layout_def by (meson less_le_trans word_less_nat_alt)+
  then show "address_page cfg (ga cfg pg) = pg"
    using addr_roundtrip[of b "max 1 b" "pg_range pg" "pg_index pg"] b(1)
    unfolding address_page_def get_global_address_def k b(2) by (cases pg) simp
qed

lemma replicate_ctrls: "set (map of_nat [0..<unat (n :: u64)]) = {c. c < n}"
proof -
  have "c \<in> of_nat ` {0..<unat n}" if "c < n" for c
    using that by (intro image_eqI[of _ _ "unat c"]) (simp_all add: word_less_nat_alt)
  moreover have "of_nat k < n" if "k < unat n" for k
    using that unsigned_less[of n, where 'a = nat] by (simp add: word_less_nat_alt unat_of_nat)
  ultimately show ?thesis
    by auto
qed

lemma mod_not_all: "0 < n \<Longrightarrow> x mod n \<noteq> ALL_CTRLS"
proof -
  assume "0 < n"
  then have "x mod n < n"
    by (simp add: word_mod_less_divisor)
  moreover have "ALL_CTRLS = - 1"
    by (simp add: ALL_CTRLS_def)
  ultimately show ?thesis
    using word_order.extremum[of n] by (metis not_le)
qed

lemma plain_evict_ctrls:
  assumes "plain_layout b cfg"
  shows "set (evict_ctrls cfg pg) =
    (case d_ranges_dists cfg (pg_range pg) of REPLICATE \<Rightarrow> {c. c < d_n_ctrls cfg} | STRIPE \<Rightarrow> {pg_index pg mod d_n_ctrls cfg})"
proof -
  have "0 < d_n_ctrls cfg" "d_evict_ctrl_override cfg = ALL_CTRLS"
    using assms unfolding plain_layout_def by blast+
  then show ?thesis
    using mod_not_all replicate_ctrls[of "d_n_ctrls cfg"]
    by (cases "d_ranges_dists cfg (pg_range pg)") (simp_all add: evict_ctrls_def get_backing_ctrl_def)
qed

lemma plain_read_ctrl:
  assumes "plain_layout b cfg"
  shows "read_ctrl cfg pg counter =
    (case d_ranges_dists cfg (pg_range pg) of REPLICATE \<Rightarrow> counter mod d_n_ctrls cfg | STRIPE \<Rightarrow> pg_index pg mod d_n_ctrls cfg)"
proof -
  have "0 < d_n_ctrls cfg" "d_read_ctrl_override cfg = ALL_CTRLS"
    using assms unfolding plain_layout_def by blast+
  then show ?thesis
    using mod_not_all by (cases "d_ranges_dists cfg (pg_range pg)") (simp_all add: read_ctrl_def get_backing_ctrl_def)
qed

lemma plain_ctrls_ok:
  assumes "plain_layout b cfg"
  shows "ctrls_ok cfg"
proof -
  have "0 < d_n_ctrls cfg"
    using assms unfolding plain_layout_def by blast
  then show ?thesis
    unfolding ctrls_ok_def plain_evict_ctrls[OF assms] plain_read_ctrl[OF assms]
    by (auto simp: word_mod_less_divisor split: data_dist_t.split)
qed


definition page_pos :: "page_cache_d_t \<Rightarrow> page \<Rightarrow> nat" where
  "page_pos cfg pg =
     (case d_ranges_dists cfg (pg_range pg) of REPLICATE \<Rightarrow> unat (pg_index pg) | STRIPE \<Rightarrow> unat (pg_index pg) div unat (d_n_ctrls cfg))"

lemma page_pos_less:
  assumes "plain_layout b cfg" "wf_page cfg pg"
  shows "page_pos cfg pg < range_span cfg (pg_range pg)"
proof (cases "d_ranges_dists cfg (pg_range pg)")
  case REPLICATE
  then show ?thesis
    using assms(2) by (simp add: page_pos_def range_span_def wf_page_def word_less_nat_alt)
next
  case STRIPE
  let ?n = "unat (d_n_ctrls cfg)" and ?k = "unat (d_ranges_page_counts cfg (pg_range pg))" and ?i = "unat (pg_index pg)"
  have n: "0 < ?n"
    using assms(1) unfolding plain_layout_def by (simp add: word_less_nat_alt)
  have "?i < ?k"
    using assms(2) by (simp add: wf_page_def word_less_nat_alt)
  then have "?i + ?n \<le> ?k + ?n - 1"
    using n by linarith
  then have "(?i + ?n) div ?n \<le> (?k + ?n - 1) div ?n"
    by (rule div_le_mono)
  moreover have "(?i + ?n) div ?n = Suc (?i div ?n)"
    using n div_add_self2[of ?n ?i] by linarith
  ultimately show ?thesis
    using STRIPE by (simp add: page_pos_def range_span_def)
qed

lemma unat_page_lba:
  assumes "plain_layout b cfg" "wf_page cfg pg"
  shows "unat (page_lba cfg pg) = (unat (d_ranges_page_starts cfg (pg_range pg)) + page_pos cfg pg) * unat (d_n_blocks_per_page cfg)"
proof -
  let ?st = "unat (d_ranges_page_starts cfg (pg_range pg))" and ?m = "unat (d_n_blocks_per_page cfg)"
  have m: "0 < ?m" and e: "range_end cfg (pg_range pg) * ?m < 2 ^ 64"
    using assms unfolding plain_layout_def wf_page_def by (auto simp: word_less_nat_alt)
  have "?st + page_pos cfg pg < range_end cfg (pg_range pg)"
    using page_pos_less[OF assms] by (simp add: range_end_def)
  then have le: "(?st + page_pos cfg pg) * ?m < 2 ^ 64"
    using e mult_le_mono1[of "?st + page_pos cfg pg" "range_end cfg (pg_range pg)" ?m] by linarith
  then have lt: "?st + page_pos cfg pg < 2 ^ 64"
    using m by (metis le_less_trans mult.commute mult_le_mono2 nat_mult_1_right Suc_leI One_nat_def)
  have "unat (get_backing_page (d_ranges_page_starts cfg (pg_range pg)) (pg_index pg) (d_n_ctrls cfg) (d_ranges_dists cfg (pg_range pg))) =
      ?st + page_pos cfg pg"
    using lt by (cases "d_ranges_dists cfg (pg_range pg)") (simp_all add: get_backing_page_def page_pos_def unat_word_ariths unat_div_distrib)
  then show ?thesis
    using le by (simp add: page_lba_def unat_word_ariths)
qed

lemma plain_layout_ok:
  assumes "plain_layout b cfg"
  shows "layout_ok cfg"
  unfolding layout_ok_def
proof (intro allI impI)
  fix pg pg' counter
  assume wf: "wf_page cfg pg" "wf_page cfg pg'" and ctrl: "read_ctrl cfg pg' counter \<in> set (evict_ctrls cfg pg)"
    and lba: "page_lba cfg pg = page_lba cfg pg'"
  have n: "0 < unat (d_n_ctrls cfg)" and m: "0 < unat (d_n_blocks_per_page cfg)"
    using assms unfolding plain_layout_def by (simp_all add: word_less_nat_alt)
  have eq: "unat (d_ranges_page_starts cfg (pg_range pg)) + page_pos cfg pg = unat (d_ranges_page_starts cfg (pg_range pg')) + page_pos cfg pg'"
    using unat_page_lba[OF assms wf(1)] unat_page_lba[OF assms wf(2)] lba m by simp
  have rng: "pg_range pg = pg_range pg'"
  proof (rule ccontr)
    assume "pg_range pg \<noteq> pg_range pg'"
    then have "range_end cfg (pg_range pg) \<le> unat (d_ranges_page_starts cfg (pg_range pg')) \<or>
        range_end cfg (pg_range pg') \<le> unat (d_ranges_page_starts cfg (pg_range pg))"
      using assms wf unfolding plain_layout_def wf_page_def by blast
    then show False
      using eq page_pos_less[OF assms wf(1)] page_pos_less[OF assms wf(2)] unfolding range_end_def by linarith
  qed
  then have pos: "page_pos cfg pg = page_pos cfg pg'"
    using eq by simp
  have "pg_index pg = pg_index pg'"
  proof (cases "d_ranges_dists cfg (pg_range pg)")
    case REPLICATE
    then show ?thesis
      using pos rng by (simp add: page_pos_def word_unat_eq_iff)
  next
    case STRIPE
    then have "pg_index pg mod d_n_ctrls cfg = pg_index pg' mod d_n_ctrls cfg"
      using ctrl rng by (simp add: plain_evict_ctrls[OF assms] plain_read_ctrl[OF assms])
    then have "unat (pg_index pg) mod unat (d_n_ctrls cfg) = unat (pg_index pg') mod unat (d_n_ctrls cfg)"
      by (simp add: word_unat_eq_iff unat_mod_distrib)
    moreover have "unat (pg_index pg) div unat (d_n_ctrls cfg) = unat (pg_index pg') div unat (d_n_ctrls cfg)"
      using pos STRIPE unfolding page_pos_def rng by simp
    ultimately have "unat (pg_index pg) = unat (pg_index pg')"
      by (metis div_mult_mod_eq)
    then show ?thesis
      by (simp only: word_unat_eq_iff)
  qed
  with rng show "pg = pg'"
    by (simp add: page.expand)
qed

lemma plain_cfg_ok: "plain_layout b cfg \<Longrightarrow> cfg_ok cfg"
  using plain_addr_ok plain_ctrls_ok plain_layout_ok unfolding cfg_ok_def by blast

subsection \<open>Guarantees\<close>

text \<open>A run of one call, used to reach concrete states.\<close>

lemma step_n: "k_n (acquire_page_step cfg weak c s) = k_n s"
  using acq_trans_step[of cfg c s weak] by cases simp_all

lemma pc_reach_runs: "pc_reach cfg s \<Longrightarrow> c < k_n s \<Longrightarrow> pc_reach cfg ((acquire_page_step cfg True c ^^ n) s) \<and> k_n ((acquire_page_step cfg True c ^^ n) s) = k_n s"
proof (induction n)
  case (Suc n)
  then show ?case
    using pc_reach.step[OF _ pc_step.run, of cfg "(acquire_page_step cfg True c ^^ n) s" c True] by (simp add: step_n)
qed simp

definition cfg1 :: page_cache_d_t where
  "cfg1 = \<lparr>d_page_size = 4096, d_page_size_minus_1 = 4095, d_page_size_log = 12, d_n_pages = 2, d_n_ranges = 1,
     d_n_ranges_bits = 1, d_n_ranges_mask = 0, d_ranges_page_starts = (\<lambda>_. 0), d_ranges_page_counts = (\<lambda>_. 16),
     d_ranges_dists = (\<lambda>_. STRIPE), d_n_ctrls = 2, d_read_ctrl_override = ALL_CTRLS, d_evict_ctrl_override = ALL_CTRLS,
     d_n_blocks_per_page = 8\<rparr>"

lemma cfg1_layout: "plain_layout 0 cfg1"
  by (simp add: plain_layout_def cfg1_def ranges_bits_def ranges_mask_def range_end_def range_span_def)

definition sys0 :: "nat pc_sys" where
  "sys0 = pc_init cfg1 (\<lambda>ctrl lba. unat ctrl * 1000 + unat lba) \<lparr>k_state = (\<lambda>_. 0), k_offset = (\<lambda>_. 0), k_lock = (\<lambda>_. 0), k_trans = (\<lambda>_. 0),
     k_ticket = 0, k_counter = 0, k_mem = (\<lambda>_. 0), k_disk = (\<lambda>_ _. 0), k_access_cnt = (\<lambda>_. 0), k_miss_cnt = (\<lambda>_. 0), k_hit_cnt = (\<lambda>_. 0),
     k_read_io_cnt = (\<lambda>_. 0), k_access_counter = (\<lambda>_. 0), k_n = 0, k_call = (\<lambda>_. \<lparr>ac_page = Page 0 0, ac_count = 0, ac_write = False\<rparr>),
     k_pc = (\<lambda>_. A_done), k_occ = (\<lambda>_. None), k_cur = (\<lambda>_. 0)\<rparr>"

lemma sys0_reach: "pc_reach cfg1 sys0"
proof -
  have "read_ctrl cfg1 pg counter = read_ctrl cfg1 pg 0" for pg counter
    using mod_not_all[of 2 "pg_index pg"] by (simp add: cfg1_def read_ctrl_def get_backing_ctrl_def)
  then show ?thesis
    unfolding sys0_def by (intro pc_reach.init) metis
qed

definition view :: "'d pc_sys \<Rightarrow> acq_pc \<Rightarrow> u32 \<Rightarrow> u32 \<Rightarrow> u32 \<Rightarrow> bool" where
  "view s pc w lock ticket \<longleftrightarrow> k_pc s 0 = pc \<and> k_state s (Page 0 5) = w \<and> k_lock s 0 = lock \<and> k_ticket s = ticket \<and>
     k_call s 0 = \<lparr>ac_page = Page 0 5, ac_count = 1, ac_write = True\<rparr> \<and> k_n s = 1 \<and> k_lock s 1 = 2 \<and> k_trans s 1 = 0 \<and> k_state s (Page 0 0) = 0"

lemmas step_eval = acquire_page_step_def find_slot_step_def agoto_def set_state_def Let_def state_class_def CNT_SHIFT_def NV_NB_def V_NB_def
  BUSY_def DIRTY_def CNT_MASK_def FREE_def LOCKED_def UNLOCKED_def DISABLE_BUSY_ENABLE_VALID_def

lemma view_steps:
  assumes "view s A_add 0 2 0"
  shows "view ((acquire_page_step cfg1 True 0 ^^ 12) s) (A_ret 0) 0xa0000001 0 1"
proof -
  let ?f = "acquire_page_step cfg1 True 0"
  have v1: "view (?f s) (A_switch 0) 1 2 0" if "view s (A_add) 0 2 0" for s :: "'a pc_sys"
    using that by (simp add: view_def step_eval cfg1_def read_ctrl_def get_backing_ctrl_def ALL_CTRLS_def)
  have v2: "view (?f s) (F_ticket) 0x40000001 2 0" if "view s (A_switch 0) 1 2 0" for s :: "'a pc_sys"
    using that by (simp add: view_def step_eval cfg1_def read_ctrl_def get_backing_ctrl_def ALL_CTRLS_def)
  have v3: "view (?f s) (F_load 0) 0x40000001 2 1" if "view s (F_ticket) 0x40000001 2 0" for s :: "'a pc_sys"
    using that by (simp add: view_def step_eval cfg1_def read_ctrl_def get_backing_ctrl_def ALL_CTRLS_def)
  have v4: "view (?f s) (F_cas_free 0) 0x40000001 2 1" if "view s (F_load 0) 0x40000001 2 1" for s :: "'a pc_sys"
    using that by (simp add: view_def step_eval cfg1_def read_ctrl_def get_backing_ctrl_def ALL_CTRLS_def)
  have v5: "view (?f s) (F_claim 0) 0x40000001 1 1" if "view s (F_cas_free 0) 0x40000001 2 1" for s :: "'a pc_sys"
    using that by (simp add: view_def step_eval cfg1_def read_ctrl_def get_backing_ctrl_def ALL_CTRLS_def)
  have v6: "view (?f s) (F_unlock 0 True) 0x40000001 1 1" if "view s (F_claim 0) 0x40000001 1 1" for s :: "'a pc_sys"
    using that by (simp add: view_def step_eval cfg1_def read_ctrl_def get_backing_ctrl_def ALL_CTRLS_def)
  have v7: "view (?f s) (L_ctrl 0) 0x40000001 0 1" if "view s (F_unlock 0 True) 0x40000001 1 1" for s :: "'a pc_sys"
    using that by (simp add: view_def step_eval cfg1_def read_ctrl_def get_backing_ctrl_def ALL_CTRLS_def)
  have v8: "view (?f s) (L_read 0 1) 0x40000001 0 1" if "view s (L_ctrl 0) 0x40000001 0 1" for s :: "'a pc_sys"
    using that by (simp add: view_def step_eval cfg1_def read_ctrl_def get_backing_ctrl_def ALL_CTRLS_def)
  have v9: "view (?f s) (L_offset 0) 0x40000001 0 1" if "view s (L_read 0 1) 0x40000001 0 1" for s :: "'a pc_sys"
    using that by (simp add: view_def step_eval cfg1_def read_ctrl_def get_backing_ctrl_def ALL_CTRLS_def)
  have v10: "view (?f s) (L_dirty 0) 0x40000001 0 1" if "view s (L_offset 0) 0x40000001 0 1" for s :: "'a pc_sys"
    using that by (simp add: view_def step_eval cfg1_def read_ctrl_def get_backing_ctrl_def ALL_CTRLS_def)
  have v11: "view (?f s) (L_valid 0) 0x60000001 0 1" if "view s (L_dirty 0) 0x40000001 0 1" for s :: "'a pc_sys"
    using that by (simp add: view_def step_eval cfg1_def read_ctrl_def get_backing_ctrl_def ALL_CTRLS_def)
  have v12: "view (?f s) (A_ret 0) 0xa0000001 0 1" if "view s (L_valid 0) 0x60000001 0 1" for s :: "'a pc_sys"
    using that by (simp add: view_def step_eval cfg1_def read_ctrl_def get_backing_ctrl_def ALL_CTRLS_def)
  note v12[OF v11[OF v10[OF v9[OF v8[OF v7[OF v6[OF v5[OF v4[OF v3[OF v2[OF v1[OF assms]]]]]]]]]]]]
  moreover have "(?f ^^ 12) s = ?f (?f (?f (?f (?f (?f (?f (?f (?f (?f (?f (?f s)))))))))))"
    by (simp only: numeral_eq_Suc pred_numeral_simps BitM.simps funpow.simps o_def id_def numeral_One)
  ultimately show ?thesis
    by simp
qed

lemma loaded_state: "\<exists>s :: nat pc_sys. pc_reach cfg1 s \<and> view s (A_ret 0) 0xa0000001 0 1"
proof -
  let ?call = "\<lparr>ac_page = Page 0 5, ac_count = 1, ac_write = True\<rparr>"
  let ?s = "acquire_page_start ?call sys0"
  have n: "k_n sys0 = 0"
    by (simp add: sys0_def pc_init_def)
  have "pc_reach cfg1 ?s"
    by (rule pc_reach.step[OF sys0_reach pc_step.call]) (simp_all add: wf_page_def cfg1_def live_refs_def n)
  moreover have "view ?s A_add 0 2 0"
    by (simp add: view_def acquire_page_start_def sys0_def pc_init_def agoto_def INVALID_def FREE_def)
  moreover have "0 < k_n ?s"
    by (simp add: acquire_page_start_def)
  ultimately show ?thesis
    using pc_reach_runs[of cfg1 ?s 0 12] view_steps[of ?s] by blast
qed


text \<open>C1: Coherence. In every interleaving of acquisitions, evictions, writes and releases, a call that has been given a page
  sees the current contents of that page in its slot, whoever wrote them and however often the page was evicted and
  loaded in between. The page is valid and named by the slot's translation, and two calls have the same slot exactly
  if they have the same page.\<close>

theorem page_cache_coherent:
  assumes "plain_layout b cfg" "pc_reach cfg s" "k_pc s c = A_ret p"
  shows "k_mem s p = k_cur s (ac_page (k_call s c)) \<and> pvalid (k_state s (ac_page (k_call s c))) \<and>
    k_trans s p = get_global_address cfg (pg_range (ac_page (k_call s c))) (pg_index (ac_page (k_call s c))) \<and>
    (\<forall>c' p'. k_pc s c' = A_ret p' \<longrightarrow> (p' = p) = (ac_page (k_call s c') = ac_page (k_call s c)))"
proof -
  have ok: "cfg_ok cfg" "addr_ok cfg"
    using plain_cfg_ok[OF assms(1)] by (simp_all add: cfg_ok_def)
  have i: "inv_slot cfg s" "inv_occ s" "inv_hold s" "inv_data cfg s"
    using pc_inv_reach[OF assms(2) ok(1)] unfolding pc_inv_def by blast+
  have v: "pvalid (k_state s (own s x))" "k_offset s (own s x) = q" "k_occ s (own s x) = Some q" if "k_pc s x = A_ret q" for x q
    using inv_holdD(1)[OF i(3), of x] inv_holdD(2)[OF i(3) that] inv_occD(1)[OF i(2), of "own s x"] that by simp_all
  have "(p' = p) = (own s c' = own s c)" if "k_pc s c' = A_ret p'" for c' p'
  proof
    show "own s c' = own s c" if "p' = p"
      using occ_unique[OF i(1) ok(2) v(3)[OF \<open>k_pc s c' = A_ret p'\<close>], of "own s c"] v(3)[OF assms(3)] that by simp
    show "p' = p" if "own s c' = own s c"
      using v(2)[OF \<open>k_pc s c' = A_ret p'\<close>] v(2)[OF assms(3)] that by simp
  qed
  moreover have "k_mem s p = k_cur s (own s c)"
    using inv_dataD(1)[OF i(4), of "own s c"] v[OF assms(3)] by simp
  moreover note v(1)[OF assms(3)] inv_slotD(1)[OF i(1) v(3)[OF assms(3)]]
  ultimately show ?thesis
    by blast
qed

theorem page_cache_coherent_witness:
  "\<exists>s :: nat pc_sys. pc_reach cfg1 s \<and> k_pc s 0 = A_ret 0 \<and> k_mem s 0 = k_cur s (Page 0 5)"
proof -
  obtain s :: "nat pc_sys" where s: "pc_reach cfg1 s" "view s (A_ret 0) 0xa0000001 0 1"
    using loaded_state by blast
  have c: "k_pc s 0 = A_ret 0" "k_call s 0 = \<lparr>ac_page = Page 0 5, ac_count = 1, ac_write = True\<rparr>"
    using s(2) by (simp_all add: view_def)
  show ?thesis
    using conjunct1[OF page_cache_coherent[OF cfg1_layout s(1) c(1)]] s(1) c by (intro exI[of _ s]) simp
qed

text \<open>C4: Reference counts and locks. The count field of a page is the number of references its calls have taken and
  never reaches the flag bits; at most one call loads a page, and no page on which a call has a valid reference is
  being evicted.\<close>

theorem page_cache_references:
  assumes "plain_layout b cfg" "pc_reach cfg s"
  shows "(\<forall>pg. unat (k_state s pg AND CNT_MASK) =
      (\<Sum>c \<in> {c. c < k_n s \<and> k_pc s c \<noteq> A_done \<and> k_pc s c \<noteq> A_add \<and> ac_page (k_call s c) = pg}. unat (ac_count (k_call s c)))) \<and>
    (\<forall>c c'. loader (k_pc s c) \<longrightarrow> loader (k_pc s c') \<longrightarrow> ac_page (k_call s c) = ac_page (k_call s c') \<longrightarrow> c = c') \<and>
    (\<forall>c c'. holds (k_pc s c) \<longrightarrow> \<not> evicts (k_pc s c') (ac_page (k_call s c)))"
proof (intro conjI allI impI)
  have i: "inv_count s" "inv_busy s" "inv_hold s"
    using pc_inv_reach[OF assms(2) plain_cfg_ok[OF assms(1)]] unfolding pc_inv_def by blast+
  fix pg c c'
  show "unat (k_state s pg AND CNT_MASK) =
      (\<Sum>c \<in> {c. c < k_n s \<and> k_pc s c \<noteq> A_done \<and> k_pc s c \<noteq> A_add \<and> own s c = pg}. unat (ac_count (k_call s c)))"
    using i(1) unfolding inv_count_def pcount_def refs_def by blast
  show "c = c'" if "loader (k_pc s c)" "loader (k_pc s c')" "own s c = own s c'"
    using loader_unique[OF i(2) that(1), of c'] loader_owns[OF that(2)] unfolding that(3) by blast
  show "\<not> evicts (k_pc s c') (own s c)" if "holds (k_pc s c)"
    using inv_holdD(1)[OF i(3) that] by (rule conjunct2)
qed

theorem page_cache_references_witness:
  "\<exists>s :: nat pc_sys. pc_reach cfg1 s \<and> unat (k_state s (Page 0 5) AND CNT_MASK) = 1 \<and>
     (\<Sum>c \<in> {c. c < k_n s \<and> k_pc s c \<noteq> A_done \<and> k_pc s c \<noteq> A_add \<and> ac_page (k_call s c) = Page 0 5}. unat (ac_count (k_call s c))) = 1"
proof -
  obtain s :: "nat pc_sys" where s: "pc_reach cfg1 s" "view s (A_ret 0) 0xa0000001 0 1"
    using loaded_state by blast
  have "unat (k_state s (Page 0 5) AND CNT_MASK) = 1"
    using s(2) by (simp add: view_def CNT_MASK_def)
  moreover note spec[OF conjunct1[OF page_cache_references[OF cfg1_layout s(1)]], of "Page 0 5"]
  ultimately show ?thesis
    using s(1) by (intro exI[of _ s]) simp
qed




text \<open>Flushing a free slot: its translation was never set. If it reads as the address of a dirty page, what the slot
  happens to hold is written over that page on the device, and the page is marked clean.\<close>

lemma flush_free_slot:
  assumes "address_page cfg (k_trans s p) = pg" "pdirty (k_state s pg)" "ctrl \<in> set (evict_ctrls cfg pg)"
  shows "k_disk (flush_page cfg p s) ctrl (page_lba cfg pg) = k_mem s p \<and> \<not> pdirty (k_state (flush_page cfg p s) pg)"
  using assms by (simp add: flush_page_def Let_def write_copies_disk)

subsection \<open>Well-formedness\<close>

text \<open>C11: Well-formed states. In every reachable state a slot lock has one of its three values and only slots of the cache
  are in use; the slot of a valid page and every slot a call has been given lie in the cache, and the address a slot in use holds
  is that of a page that exists unless a call is just reassigning the slot.\<close>

theorem page_cache_typed:
  assumes "plain_layout b cfg" "0 < d_n_pages cfg" "pc_reach cfg s"
  shows "(\<forall>p. k_lock s p = FREE \<or> (k_lock s p = UNLOCKED \<or> k_lock s p = LOCKED) \<and> ucast p < d_n_pages cfg) \<and>
    (\<forall>c < k_n s. wf_page cfg (ac_page (k_call s c)) \<and> 0 < ac_count (k_call s c)) \<and>
    (\<forall>pg. pvalid (k_state s pg) \<longrightarrow> wf_page cfg pg \<and> ucast (k_offset s pg) < d_n_pages cfg) \<and>
    (\<forall>c p. k_pc s c = A_ret p \<longrightarrow> ucast p < d_n_pages cfg) \<and>
    (\<forall>p. k_lock s p = UNLOCKED \<longrightarrow> wf_page cfg (address_page cfg (k_trans s p)))"
proof -
  have ok: "cfg_ok cfg" "addr_ok cfg"
    using plain_cfg_ok[OF assms(1)] by (simp_all add: cfg_ok_def)
  have i: "inv_calls cfg s" "inv_lock s" "inv_slot cfg s" "inv_occ s" "inv_hold s"
    using pc_inv_reach[OF assms(3) ok(1)] unfolding pc_inv_def by blast+
  have slot: "ucast p < d_n_pages cfg" if "k_lock s p \<noteq> FREE" for p
    using slots_reach[OF assms(3,2)] that unfolding cache_slot_def by blast
  have v: "wf_page cfg pg" "ucast (k_offset s pg) < d_n_pages cfg" if "pvalid (k_state s pg)" for pg
    using inv_slotD(1)[OF i(3) inv_occD(1)[OF i(4) that]] slot by blast+
  moreover have "ucast p < d_n_pages cfg" if "k_pc s c = A_ret p" for c p
    using inv_holdD(1)[OF i(5), of c] inv_holdD(2)[OF i(5) that] v(2)[of "own s c"] that by simp
  moreover have "wf_page cfg (address_page cfg (k_trans s p))" if "k_lock s p = UNLOCKED" for p
  proof -
    have "\<exists>pg. k_occ s pg = Some p"
      by (rule inv_slotD(3)[OF i(3) that])
    then obtain pg where "k_occ s pg = Some p" ..
    then have "k_trans s p = ga cfg pg" "wf_page cfg pg"
      using inv_slotD(1)[OF i(3)] by blast+
    then show ?thesis
      using ok(2) unfolding addr_ok_def by simp
  qed
  moreover have "k_lock s p = FREE \<or> (k_lock s p = UNLOCKED \<or> k_lock s p = LOCKED) \<and> ucast p < d_n_pages cfg" for p
    using i(2) slot[of p] unfolding inv_lock_def by blast
  ultimately show ?thesis
    using i(1) unfolding inv_calls_def by blast
qed

theorem page_cache_typed_witness:
  "\<exists>s :: nat pc_sys. pc_reach cfg1 s \<and> k_lock s 0 = UNLOCKED \<and> wf_page cfg1 (address_page cfg1 (k_trans s 0))"
proof -
  obtain s :: "nat pc_sys" where s: "pc_reach cfg1 s" "view s (A_ret 0) 0xa0000001 0 1"
    using loaded_state by blast
  have l: "k_lock s 0 = UNLOCKED"
    using s(2) by (simp add: view_def UNLOCKED_def)
  have "0 < d_n_pages cfg1"
    by (simp add: cfg1_def)
  then show ?thesis
    using page_cache_typed[OF cfg1_layout _ s(1)] l s(1) by blast
qed

subsection \<open>Elements\<close>

lemma byte_offset:
  fixes i start size off :: u64
  assumes "start \<le> i" "(unat i - unat start) * unat size + unat off < 2 ^ 64"
  shows "unat ((i - start) * size + off) = (unat i - unat start) * unat size + unat off"
  using assms by (simp add: unat_word_ariths unat_sub word_le_nat_alt mod_add_left_eq)

lemma drop_mask_split:
  fixes x :: u64
  shows "unat (drop_bit k x) * 2 ^ k + unat (x AND (2 ^ k - 1)) = unat x" "unat (x AND (2 ^ k - 1)) = unat x mod 2 ^ k"
proof -
  have "x AND (2 ^ k - 1) = take_bit k x"
    by (simp add: take_bit_eq_mask mask_eq_exp_minus_1)
  then show "unat (x AND (2 ^ k - 1)) = unat x mod 2 ^ k"
    by (simp add: unsigned_take_bit_eq flip: take_bit_eq_mod)
  moreover have "unat (drop_bit k x) = drop_bit k (unat x)"
    using unsigned_less[of x, where 'a = nat] by (simp add: unsigned_drop_bit_eq take_bit_nat_eq_self)
  ultimately show "unat (drop_bit k x) * 2 ^ k + unat (x AND (2 ^ k - 1)) = unat x"
    by (simp only: drop_bit_eq_div div_mult_mod_eq)
qed

text \<open>C31: Elements. If the byte offset of an element does not overflow, the page and the offset in it that are computed for
  the element together are that offset. An element whose size divides the page size lies in one page
  if the first one is aligned.\<close>

theorem range_element_address:
  assumes "k < 64" "d_page_size_log cfg = of_nat k" "d_page_size_minus_1 cfg = 2 ^ k - 1" "rd_index_start r \<le> i"
    "(unat i - unat (rd_index_start r)) * unat sz + unat (rd_page_start_offset r) < 2 ^ 64"
  shows "unat (get_page cfg r sz i) * 2 ^ k + unat (get_subindex cfg r sz i) =
      (unat i - unat (rd_index_start r)) * unat sz + unat (rd_page_start_offset r) \<and>
    unat (get_subindex cfg r sz i) < 2 ^ k \<and>
    (unat sz dvd 2 ^ k \<and> unat sz dvd unat (rd_page_start_offset r) \<longrightarrow> unat (get_subindex cfg r sz i) + unat sz \<le> 2 ^ k)"
proof -
  have l: "unat (d_page_size_log cfg) = k"
    using assms(1) by (simp add: assms(2) unat_of_nat)
  define x where "x = (i - rd_index_start r) * sz + rd_page_start_offset r"
  have x: "unat x = (unat i - unat (rd_index_start r)) * unat sz + unat (rd_page_start_offset r)"
    unfolding x_def using byte_offset[OF assms(4,5)] .
  have g: "get_page cfg r sz i = drop_bit k x" "get_subindex cfg r sz i = x AND (2 ^ k - 1)"
    by (simp_all add: get_page_def get_subindex_def l assms(3) x_def)
  have "unat x mod 2 ^ k + unat sz \<le> 2 ^ k" if d: "unat sz dvd 2 ^ k" "unat sz dvd unat (rd_page_start_offset r)"
  proof -
    have "unat sz dvd unat x mod 2 ^ k"
      using d x by (simp add: dvd_mod)
    then obtain a where "unat x mod 2 ^ k = unat sz * a"
      by (rule dvdE)
    moreover obtain b where "2 ^ k = unat sz * b"
      using d(1) by (rule dvdE)
    moreover have "unat x mod 2 ^ k < 2 ^ k"
      by simp
    ultimately have "unat sz * a < unat sz * b" "unat x mod 2 ^ k + unat sz = unat sz * Suc a" "2 ^ k = unat sz * b"
      by simp_all
    then show ?thesis
      by (simp only: mult_le_cancel1 mult_less_cancel1 Suc_le_eq) simp
  qed
  then show ?thesis
    using drop_mask_split[where k = k and x = x] x unfolding g by simp
qed

theorem range_element_address_witness:
  "unat (get_page cfg1 \<lparr>rd_index_start = 10, rd_page_start_offset = 8, rd_range_id = 0\<rparr> 8 1000) * 2 ^ 12 +
     unat (get_subindex cfg1 \<lparr>rd_index_start = 10, rd_page_start_offset = 8, rd_range_id = 0\<rparr> 8 1000) = 7928 \<and>
   unat (get_subindex cfg1 \<lparr>rd_index_start = 10, rd_page_start_offset = 8, rd_range_id = 0\<rparr> 8 1000) + 8 \<le> 2 ^ 12"
  using range_element_address[of 12 cfg1 "\<lparr>rd_index_start = 10, rd_page_start_offset = 8, rd_range_id = 0\<rparr>" 1000 8]
  by (simp add: cfg1_def)

end
