(* ===== verification/Spec2Isabelle.thy ===== *)
theory Spec2Isabelle
  imports Admin CqDequeue IoAlloc IoMerge PageSafe
begin

text \<open>
  \<^bold>\<open>A verification library for the GPU-initiated NVMe stack.\<close>

  \<^bold>\<open>The program.\<close> A user-space NVMe driver whose queues can live in GPU memory (\<open>src/src\<close>, \<open>src/include/nvm_*.h\<close>), queue
  operations for thousands of GPU threads (\<open>nvm_parallel_queue.h\<close>), a page cache in GPU memory on top of them
  (\<open>page_cache.h\<close>), an IO scheduler that collects, sorts and merges requests before they are submitted
  (\<open>io_scheduler.cuh\<close>, \<open>benchmarks/io_scheduler\<close>) and a kernel module that pins memory for the device (\<open>src/module\<close>). A GPU thread
  acquires a page of the cache; on a miss the page is read, and the page it displaces written, by a command put into a
  submission queue or by a request to the scheduler, and completed by polling a completion queue. The host
  sets this up: it opens the controller, maps memory, resets the controller and creates queues by admin commands.

  \<^bold>\<open>Conventions.\<close> Unsigned C integers are words of their width where wrap-around can be seen. Structures are records,
  return codes integers. Memory the code writes is a function from addresses or an element of the state; system calls, the
  kernel's answers, the CUDA allocator, device memory contents and failing allocations are parameters. Concurrent code is
  a set of calls, each with a program counter; one step is one atomic access with the thread-local work around
  it, and an inductive relation runs the steps of all calls in any order. Fields that record history only are named as such
  where they are declared.

  \<^bold>\<open>Theories, bottom up.\<close>
  \<^item> \<open>Prelude\<close>: machine integers, error numbers, facts on words, lists and ring buffers. \<open>Interfaces\<close>: the contracts
    \<open>bounded_fifo\<close> (interpreted by the submission queue) and \<open>refcounted\<close> (interpreted by the controller handle and by the DMA
    mapping), with what their clients may conclude.
  \<^item> \<open>NvmUtil\<close> (\<open>nvm_util.h\<close>, \<open>lib_util.h\<close>, \<open>regs.h\<close>): bit fields, page arithmetic, registers and doorbells.
    \<open>NvmCmd\<close> (\<open>nvm_cmd.h\<close>, \<open>nvm_types.h\<close>): commands and PRP lists; a device that walks a chained list finds the pages it was
    built from. \<open>NvmError\<close> (\<open>nvm_error.h\<close>, \<open>error.cpp\<close>): packing of status codes, message tables never overrun.
  \<^item> \<open>NvmQueue\<close> (\<open>nvm_queue.h\<close>, \<open>queue.cpp\<close>): the queues of one thread; the submission queue is a bounded FIFO, draining
    a completion queue gives what was posted, the blocking dequeue ends in time.
  \<^item> \<open>Ctrl\<close> (\<open>ctrl.cpp\<close>, \<open>linux/device.cpp\<close>), \<open>Dma\<close> (\<open>dma.cpp\<close>, \<open>linux/dma.cpp\<close>), \<open>Rpc\<close> (\<open>rpc.cpp\<close>), \<open>Admin\<close>
    (\<open>admin.cpp\<close>): the host library. Every error path gives back what was taken, reference counts release exactly once,
    the reset writes the registers in order and its words decode, mapped pages translate every byte,
    admin commands are executed, encoded and decoded as stated.
  \<^item> \<open>ParallelSq\<close>, \<open>ParallelCq\<close>, \<open>CqDequeue\<close> (\<open>nvm_parallel_queue.h\<close>): concurrent \<open>sq_enqueue\<close> and \<open>cq_dequeue\<close> with the movers of
    tail and head, command identifiers, polling. No command is lost, overwritten or announced before it is
    written; the head passes completions once and in order; an identifier is found while one is free.
  \<^item> \<open>IoQueue\<close>, \<open>IoAlloc\<close> (\<open>io_scheduler.cuh\<close>): the request ring refines a FIFO and calls return after completion;
    creation and destruction of the queue and of the victim buffer. \<open>IoSort\<close>, \<open>IoMerge\<close> (\<open>io_scheduler_impl.cuh\<close>): both radix sorts
    are the stable sort, merging covers a batch by contiguous groups within the size limit, and the PRP
    entries of a command are the pages of its group.
  \<^item> \<open>PageMap\<close>, \<open>PageCache\<close>, \<open>PageInv\<close>, \<open>PageSafe\<close> (\<open>page_cache.h\<close>): state words, addresses and layouts; \<open>acquire_page\<close>,
    \<open>find_slot\<close> and \<open>release_page\<close> under concurrency; the invariant; coherence, reference counts, well-formed states, flushing.
  The section below composes the phases of the scheduler, from the requests drained from the ring to groups of commands.

  \<^bold>\<open>Bounds.\<close> Loops are structural recursions or have a measure; the wait for the controller ends with its timeout. \<open>get_cid\<close> and
  \<open>cq_poll\<close>, which may run for ever, are partial functions without result when they do, and are proved to return. Draining a
  completion queue takes a number of rounds, one more than there are completions posted is enough. So does \<open>sq_dequeue\<close>: the head mover returns
  within the size of the queue (\<open>ParallelCq.move_head_sq_returns\<close>), the loop around it need not (\<open>ParallelCq.sq_dequeue_stuck\<close>). The concurrent queues are considered for fewer than \<open>2\<^sup>3\<^sup>2\<close> operations, where their
  counters do not wrap; what happens beyond is shown by \<open>ParallelSq.sq_ticket_wrap_blocks\<close> and \<open>IoQueue.not_done_wrap\<close>. A page of the
  cache has fewer than \<open>2\<^sup>2\<^sup>9\<close> references at a time, what its count field can hold. The results on the page
  cache hold for layouts (\<open>plain_layout\<close>) with a power of two as number of ranges, which do not overlap on the devices, and
  without overridden controllers. Memory accesses are sequentially consistent.

  \<^bold>\<open>Not modelled.\<close>
  \<^item> Of \<open>page_cache.h\<close>: the constructors, which allocate and copy; the TLB (a lock per entry in front of \<open>acquire_page\<close>) and the array and
    pointer wrappers, where the lanes of a warp elect one that acquires a page for all; the functions that build and submit
    commands, which call those of \<open>nvm_cmd.h\<close> and \<open>nvm_parallel_queue.h\<close>; the eviction paths compiled with \<open>IO_SCHED_EVICT\<close>; the staging
    buffer and the artificial delay, with which evicted pages are not written to the device.
  \<^item> Of \<open>io_scheduler_impl.cuh\<close>: the bitonic sort, the read scheduler and the pause of submissions, variants of the write
    scheduler for measurements.
  \<^item> \<open>nvm_dma_query_phys_addrs\<close> and the mutexes, single calls of the operating system; \<open>queue.h\<close>, \<open>ctrl.h\<close>, \<open>buffer.h\<close>, which
    allocate GPU memory and copy descriptors; the kernel module, which consists of calls of Linux functions
    (pinning, DMA mapping, PCI and character devices) and lists of their results; benchmarks, tests and experiment scripts; the vendored C++ library.
  \<^item> Delays, profiling counters and memory orderings weaker than sequential consistency.
\<close>

section \<open>Properties that span components\<close>

text \<open>C40: From requests to commands. Sorting and merging a drained batch puts every request, with its offset, size and
  page, into exactly one group. If the offsets are below \<open>2\<^sup>4\<^sup>8\<close>, what six passes of the sort see, the groups are in
  ascending order of the device offset.\<close>

theorem sched_batch_complete:
  assumes "length reqs < 2 ^ 32" "length keys_alt = length reqs" "length vals_alt = length reqs"
  shows "let b = sort_batch keys_alt vals_alt (drain_load reqs) in
    mset (concat (map (\<lambda>(s, e). map (elem_request b) [s..<e]) (merge_groups b (length reqs)))) =
      mset (map (\<lambda>r. (rq_byte_offset r, rq_n_bytes_log2 r, rq_pc_entry r)) reqs) \<and>
    ((\<forall>r \<in> set reqs. rq_byte_offset r < 2 ^ 48) \<longrightarrow>
      sorted_wrt (\<lambda>g h. bt_keys b ! fst g \<le> bt_keys b ! fst h) (merge_groups b (length reqs)))"
proof -
  define b where "b = sort_batch keys_alt vals_alt (drain_load reqs)"
  define R where "R = refine_starts b (length reqs) (group_starts b (length reqs))"
  have ok: "starts_ok R (length reqs)"
    using merge_starts_ok unfolding R_def by blast
  have G: "merge_groups b (length reqs) = groups_of R (length reqs)"
    by (simp add: merge_groups_def R_def)
  have "concat (map (\<lambda>(s, e). map (elem_request b) [s..<e]) (groups_of R (length reqs))) = map (elem_request b) [0..<length reqs]"
    unfolding groups_of_cover[OF ok, symmetric] map_concat by (simp add: o_def split_def)
  moreover have "sorted_wrt (\<lambda>g h. bt_keys b ! fst g \<le> bt_keys b ! fst h) (groups_of R (length reqs))"
    if "\<forall>r \<in> set reqs. rq_byte_offset r < 2 ^ 48"
  proof (rule sorted_wrt_mono_rel[OF _ groups_of_sorted[OF ok]])
    fix g h
    assume "h \<in> set (groups_of R (length reqs))" "fst g < fst h"
    then show "bt_keys b ! fst g \<le> bt_keys b ! fst h"
      using groups_of_mem[OF ok, of "fst h" "snd h"] sorted_batch_keys[OF assms that, folded b_def, of "fst g" "fst h"] by simp
  qed
  ultimately show ?thesis
    unfolding Let_def b_def[symmetric] G using sorted_batch_requests[OF assms, folded b_def] by simp
qed

theorem sched_batch_complete_witness:
  "let reqs = [\<lparr>rq_byte_offset = 0x2000, rq_pc_entry = 7, rq_opcode = 1, rq_n_bytes_log2 = 12\<rparr>,
               \<lparr>rq_byte_offset = 0x1000, rq_pc_entry = 5, rq_opcode = 1, rq_n_bytes_log2 = 12\<rparr>];
       b = sort_batch [0, 0] [0, 0] (drain_load reqs)
   in mset (concat (map (\<lambda>(s, e). map (elem_request b) [s..<e]) (merge_groups b 2))) = {#(0x2000, 12, 7), (0x1000, 12, 5)#} \<and>
      sorted_wrt (\<lambda>g h. bt_keys b ! fst g \<le> bt_keys b ! fst h) (merge_groups b 2)"
  using sched_batch_complete[of "[\<lparr>rq_byte_offset = 0x2000, rq_pc_entry = 7, rq_opcode = 1, rq_n_bytes_log2 = 12\<rparr>,
    \<lparr>rq_byte_offset = 0x1000, rq_pc_entry = 5, rq_opcode = 1, rq_n_bytes_log2 = 12\<rparr>]" "[0, 0]" "[0, 0]"]
  by (simp add: Let_def flip: numeral_2_eq_2)

end
